(* ===== verification/Mcmp_Prelude.thy ===== *)
theory Mcmp_Prelude
  imports Main "HOL-Library.Word" "HOL-Library.Signed_Division" "HOL-Library.Monad_Syntax"
begin

text \<open>
  Shared vocabulary of the development: the C integer types, memory as byte lists with checked
  loads, undefined behaviour as \<open>None\<close>, the count-trailing-zeros builtin, the ring
  successor, the execution of one call without interference, and the generic lemmas on lists,
  words and \<open>mod\<close> that the component theories share.

  Conventions. A function of type \<open>'a ub\<close> is C code that may have undefined behaviour
  (an access outside its object, a shift by too much, a remainder by zero, the builtin
  \<open>ctz\<close> of 0): \<open>None\<close> is that, and \<open>Some r\<close> a defined result \<open>r\<close>. Pointers into
  an array are indices. \<open>size_t\<close> values are \<open>nat\<close>, with the reduction modulo \<open>2 ^ 64\<close>
  written where the code can exceed it; \<open>int64_t\<close> is \<open>int\<close>, with C's truncating
  \<open>/\<close> and \<open>%\<close> as \<open>sdiv\<close> and \<open>smod\<close>; bytes are \<open>8 word\<close>.
\<close>

unbundle bit_operations_syntax

section \<open>Hint collections\<close>

named_theorems mem_simps \<open>checked memory accesses that are in range\<close>
named_theorems bit_facts \<open>how the bytes of a bitmap read as bits\<close>
named_theorems inv_intros \<open>preservation of the components' invariants\<close>

section \<open>C types and primitive operations\<close>

type_synonym byte = "8 word"
type_synonym bitidx = int
type_synonym 'a ub = "'a option"

abbreviation size_max :: nat where
  "size_max \<equiv> 18446744073709551616"

text \<open>The shift \<open>1 << r\<close> of an \<open>int\<close>: undefined when the 1 leaves the value bits.\<close>

definition c_shl1 :: "nat \<Rightarrow> int ub" where
  "c_shl1 r = (if r < 31 then Some (2 ^ r) else None)"

text \<open>An access at a byte address relative to the start of an object.\<close>

definition load8 :: "byte list \<Rightarrow> nat \<Rightarrow> byte ub" where
  "load8 m i = (if i < length m then Some (m ! i) else None)"

definition load_at :: "byte list \<Rightarrow> int \<Rightarrow> byte ub" where
  "load_at m a = (if 0 \<le> a then load8 m (nat a) else None)"

definition store_at :: "byte list \<Rightarrow> int \<Rightarrow> byte \<Rightarrow> byte list ub" where
  "store_at m a b = (if 0 \<le> a \<and> nat a < length m then Some (m[nat a := b]) else None)"

text \<open>\<^verbatim>\<open>memcpy\<close> of \<open>bs\<close> to address \<open>a\<close> of an object.\<close>

definition spliced :: "'a list \<Rightarrow> nat \<Rightarrow> 'a list \<Rightarrow> 'a list" where
  "spliced m a bs = take a m @ bs @ drop (a + length bs) m"

definition mem_write :: "byte list \<Rightarrow> nat \<Rightarrow> byte list \<Rightarrow> byte list ub" where
  "mem_write m a bs = (if a + length bs \<le> length m then Some (spliced m a bs) else None)"

text \<open>A little-endian load of \<open>k\<close> bytes as one unsigned integer.\<close>

fun le_word :: "byte list \<Rightarrow> 'a::len word" where
  "le_word [] = 0"
| "le_word (b # bs) = ucast b OR push_bit 8 (le_word bs)"

definition load_le :: "nat \<Rightarrow> byte list \<Rightarrow> nat \<Rightarrow> 'a::len word ub" where
  "load_le k m i = (if i + k \<le> length m then Some (le_word (take k (drop i m))) else None)"

text \<open>\<open>__builtin_ctz\<close> and \<open>__builtin_ctzll\<close>: undefined on 0.\<close>

definition builtin_ctz :: "'a::len word \<Rightarrow> nat ub" where
  "builtin_ctz w = find (bit w) [0..<LENGTH('a)]"

text \<open>The conversion of a \<open>size_t\<close> to \<open>bitidx_t\<close> (\<open>int64_t\<close>).\<close>

definition bitidx_cast :: "nat \<Rightarrow> bitidx" where
  "bitidx_cast n = sint (word_of_nat n :: 64 word)"

text \<open>The conversions of a \<open>bitidx_t\<close> to \<open>size_t\<close> and to \<open>uint8_t\<close>.\<close>

definition size_cast :: "int \<Rightarrow> nat" where
  "size_cast x = nat (x mod 2 ^ 64)"

definition u8_cast :: "int \<Rightarrow> nat" where
  "u8_cast x = nat (x mod 2 ^ 8)"

text \<open>\<open>(i + 1) % n\<close> on \<open>size_t\<close>: undefined for \<open>n = 0\<close>.\<close>

definition ring_next :: "nat \<Rightarrow> nat \<Rightarrow> nat ub" where
  "ring_next n i = (if n = 0 then None else Some ((i + 1) mod size_max mod n))"

text \<open>
  One call executed alone: the step function of the call is iterated until its program counter
  carries a result. \<open>None\<close> when a step is undefined or the call does not return.
\<close>

partial_function (option) run_call ::
  "('s \<Rightarrow> 'p \<Rightarrow> ('s \<times> 'p) ub) \<Rightarrow> ('p \<Rightarrow> 'r option) \<Rightarrow> 's \<Rightarrow> 'p \<Rightarrow> ('s \<times> 'r) ub" where
  "run_call step res s p =
     (case res p of
        Some r \<Rightarrow> Some (s, r)
      | None \<Rightarrow> Option.bind (step s p) (\<lambda>sp. run_call step res (fst sp) (snd sp)))"

text \<open>The next \<open>n\<close> steps of a call that other calls may interrupt afterwards.\<close>

primrec run_steps :: "('s \<Rightarrow> 'p \<Rightarrow> ('s \<times> 'p) ub) \<Rightarrow> nat \<Rightarrow> 's \<Rightarrow> 'p \<Rightarrow> ('s \<times> 'p) ub" where
  "run_steps f 0 s p = Some (s, p)"
| "run_steps f (Suc n) s p = do { (s', p') \<leftarrow> f s p; run_steps f n s' p' }"

lemma run_steps_numeral [simp]:
  "run_steps f (numeral w) s p = do { (s', p') \<leftarrow> f s p; run_steps f (pred_numeral w) s' p' }"
  by (simp add: numeral_eq_Suc)

lemma run_call_done: "res p = Some r \<Longrightarrow> run_call step res s p = Some (s, r)"
  by (simp add: run_call.simps)

lemma run_call_step:
  "res p = None \<Longrightarrow> step s p = Some (s', p') \<Longrightarrow> run_call step res s p = run_call step res s' p'"
  by (simp add: run_call.simps [of step res s p])

section \<open>Lemmas on the primitives\<close>

lemma c_shl1_small [mem_simps]: "r < 8 \<Longrightarrow> c_shl1 r = Some (2 ^ r)"
  by (simp add: c_shl1_def)

lemma load8_in [mem_simps]: "i < length m \<Longrightarrow> load8 m i = Some (m ! i)"
  by (simp add: load8_def)

lemma load_at_nat [mem_simps]: "load_at m (int i) = load8 m i"
  by (simp add: load_at_def)

lemma store_at_nat [mem_simps]: "i < length m \<Longrightarrow> store_at m (int i) b = Some (m[i := b])"
  by (simp add: store_at_def)

lemma load_le_in [mem_simps]:
  "i + k \<le> length m \<Longrightarrow> load_le k m i = Some (le_word (take k (drop i m)))"
  by (simp add: load_le_def)

lemma sdiv_nonneg [simp]: "0 \<le> x \<Longrightarrow> x sdiv 8 = x div 8" for x :: int
  by (cases "x = 0") (auto simp: signed_divide_int_def)

lemma smod_nonneg [simp]: "0 \<le> x \<Longrightarrow> x smod 8 = x mod 8" for x :: int
  by (cases "x = 0") (auto simp: signed_modulo_int_def)

lemma size_cast_nat [simp]: "n < size_max \<Longrightarrow> size_cast (int n) = n"
  by (simp add: size_cast_def)

lemma u8_cast_nat [simp]: "n < 256 \<Longrightarrow> u8_cast (int n) = n"
  by (simp add: u8_cast_def)

lemma bitidx_cast_small [simp]: "n < 2 ^ 63 \<Longrightarrow> bitidx_cast n = int n"
  by (simp add: bitidx_cast_def signed_take_bit_int_eq_self sint_uint unsigned_of_nat take_bit_nat_eq_self)

lemma ring_next_eq:
  "i < n \<Longrightarrow> n < size_max \<Longrightarrow> ring_next n i = Some (Suc i mod n)"
  by (simp add: ring_next_def)

lemma bind_Some_map: "Option.bind x (\<lambda>z. Some (f z)) = map_option f x"
  by (cases x) simp_all

lemma mem_write_in [mem_simps]: "a + length bs \<le> length m \<Longrightarrow> mem_write m a bs = Some (spliced m a bs)"
  by (simp add: mem_write_def)

lemma length_spliced [simp]: "a + length bs \<le> length m \<Longrightarrow> length (spliced m a bs) = length m"
  by (simp add: spliced_def)

lemma nth_spliced:
  assumes "a + length bs \<le> length m" "i < length m"
  shows "spliced m a bs ! i = (if a \<le> i \<and> i < a + length bs then bs ! (i - a) else m ! i)"
proof (cases "i < a + length bs")
  case True
  then have "\<not> i < a \<Longrightarrow> i - a < length bs" by linarith
  then show ?thesis using assms True by (auto simp: spliced_def nth_append)
next
  case False
  then have "i - a - length bs + (a + length bs) = i" by linarith
  then show ?thesis using assms False by (auto simp: spliced_def nth_append)
qed

text \<open>An array of \<open>w\<close>-byte records in memory, and the write of one record.\<close>

definition mem_record :: "nat \<Rightarrow> byte list \<Rightarrow> nat \<Rightarrow> byte list" where
  "mem_record w m k = take w (drop (k * w) m)"

lemma mem_record_written:
  assumes "length bs = w" "k < n" "n * w \<le> length m" "j < n"
  shows "mem_record w (spliced m (k * w) bs) j = (if j = k then bs else mem_record w m j)"
proof -
  have fits: "i * w + w \<le> length m" if "i < n" for i
    using mult_le_mono1 [of "Suc i" n w] that assms(3) by simp
  let ?m = "spliced m (k * w) bs"
  have k: "k * w + length bs \<le> length m" using fits [OF assms(2)] assms(1) by simp
  have len: "length (mem_record w ?m j) = w" "length (mem_record w m j) = w"
    using fits [OF assms(4)] k by (simp_all add: mem_record_def)
  show ?thesis
  proof (rule nth_equalityI)
    show "length (mem_record w ?m j) = length (if j = k then bs else mem_record w m j)"
      using len assms(1) by simp
    fix i assume "i < length (mem_record w ?m j)"
    then have i: "i < w" using len by simp
    have "mem_record w ?m j ! i = ?m ! (j * w + i)"
      using i fits [OF assms(4)] k by (simp add: mem_record_def)
    also have "\<dots> = (if k * w \<le> j * w + i \<and> j * w + i < k * w + w then bs ! (j * w + i - k * w) else m ! (j * w + i))"
      using nth_spliced [OF k, of "j * w + i"] fits [OF assms(4)] i assms(1) by simp
    also have "k * w \<le> j * w + i \<and> j * w + i < k * w + w \<longleftrightarrow> j = k"
      using i div_less_iff_less_mult [of w "j * w + i" "Suc k"] less_eq_div_iff_mult_less_eq [of w k "j * w + i"]
      by auto
    finally show "mem_record w ?m j ! i = (if j = k then bs else mem_record w m j) ! i"
      using i fits [OF assms(4)] by (auto simp: mem_record_def)
  qed
qed

section \<open>Searching an interval\<close>

lemma find_upt_Some:
  "find P [a..<b] = Some k \<longleftrightarrow> a \<le> k \<and> k < b \<and> P k \<and> (\<forall>j. a \<le> j \<and> j < k \<longrightarrow> \<not> P j)"
proof (induction "b - a" arbitrary: a)
  case 0
  then show ?case by auto
next
  case (Suc n)
  then have "a < b" and "n = b - Suc a" by auto
  with Suc.hyps(1) [of "Suc a"] show ?case
    by (auto simp: upt_conv_Cons Suc_le_eq less_Suc_eq_le)
       (metis le_neq_implies_less order.strict_iff_not)+
qed

lemma find_upt_None: "find P [a..<b] = None \<longleftrightarrow> (\<forall>j. a \<le> j \<and> j < b \<longrightarrow> \<not> P j)"
  by (auto simp: find_None_iff)

lemma find_append: "find P (xs @ ys) = (case find P xs of None \<Rightarrow> find P ys | Some x \<Rightarrow> Some x)"
  by (induction xs) auto

lemma find_upt_split:
  assumes "a \<le> m" "m \<le> b"
  shows "find P [a..<b] = (case find P [a..<m] of None \<Rightarrow> find P [m..<b] | Some k \<Rightarrow> Some k)"
proof -
  from assms have "[a..<b] = [a..<m] @ [m..<b]"
    by (metis le_add_diff_inverse upt_add_eq_append)
  then show ?thesis by (simp add: find_append)
qed

lemma find_upt_shift:
  "find P [a + d..<b + d] = map_option (\<lambda>k. k + d) (find (\<lambda>k. P (k + d)) [a..<b])"
proof (induction "b - a" arbitrary: a)
  case 0
  then show ?case by simp
next
  case (Suc n)
  then have "a < b" and "n = b - Suc a" by auto
  with Suc.hyps(1) [of "Suc a"] show ?case
    by (simp add: upt_conv_Cons)
qed

section \<open>Words as bits\<close>

lemma bit_le_word [bit_facts]:
  "bit (le_word bs :: 'a::len word) n \<longleftrightarrow>
     n < LENGTH('a) \<and> n < 8 * length bs \<and> bit (bs ! (n div 8)) (n mod 8)"
proof (induction bs arbitrary: n)
  case Nil
  then show ?case by simp
next
  case (Cons b bs)
  show ?case
  proof (cases "n < 8")
    case True
    then show ?thesis by (auto simp: bit_simps)
  next
    case False
    then obtain m where m: "n = m + 8" by (metis add.commute le_add_diff_inverse not_less)
    have "\<not> bit b n" using False by (auto dest: bit_imp_le_length)
    moreover have "n div 8 = Suc (m div 8)" and "n mod 8 = m mod 8" using m by auto
    ultimately show ?thesis using m by (auto simp: bit_simps Cons.IH)
  qed
qed

lemma word_nonzero_iff_bit: "w \<noteq> 0 \<longleftrightarrow> (\<exists>n < LENGTH('a). bit w n)" for w :: "'a::len word"
  by (auto simp: bit_eq_iff bit_imp_le_length)

lemma builtin_ctz_eq_None: "builtin_ctz w = None \<longleftrightarrow> w = 0"
  by (auto simp: builtin_ctz_def find_upt_None word_nonzero_iff_bit [symmetric]) (use word_nonzero_iff_bit in blast)

lemma bit_int_low_mask: "bit ((2::int) ^ r - 1) n \<longleftrightarrow> n < r"
  by (simp flip: mask_eq_exp_minus_1 add: bit_mask_iff)

lemma bit_u8_or_shl:
  "r < 8 \<Longrightarrow> bit (word_of_int (uint b OR 2 ^ r) :: byte) n \<longleftrightarrow> bit b n \<or> n = r" for b :: byte
  by (auto simp: bit_simps dest: bit_imp_le_length)

lemma bit_u8_and_not_shl:
  "bit (word_of_int (uint b AND NOT (2 ^ r)) :: byte) n \<longleftrightarrow> bit b n \<and> n \<noteq> r" for b :: byte
  by (auto simp: bit_simps dest: bit_imp_le_length)

lemma and_exp_nonzero_iff: "(x AND 2 ^ r \<noteq> 0) \<longleftrightarrow> bit x r" for x :: int
proof -
  have "x AND 2 ^ r = 0 \<longleftrightarrow> (\<forall>n. \<not> (bit x n \<and> r = n))"
    by (subst bit_eq_iff) (auto simp: bit_and_iff bit_exp_iff)
  then show ?thesis by auto
qed

lemma uint_and_shl_nonzero: "(uint b AND 2 ^ r \<noteq> 0) \<longleftrightarrow> bit b r" for b :: byte
  by (auto simp: and_exp_nonzero_iff bit_uint_iff dest: bit_imp_le_length)

section \<open>Ring indices\<close>

lemma mod_window_inj:
  "j mod n = k mod n \<Longrightarrow> j \<le> k \<Longrightarrow> k < j + n \<Longrightarrow> j = k" for j k n :: nat
  by (metis add_diff_cancel_left' dvd_imp_le le_add_diff_inverse less_diff_conv2 mod_eq_dvd_iff_nat
      neq0_conv not_le add.commute)

lemma Suc_mod_mod: "Suc (k mod n) mod n = Suc k mod n"
  by (simp add: mod_Suc_eq)

end
