(* ===== verification/Status.thy ===== *)
theory Status
  imports Mcmp_Prelude
begin

text \<open>
  The status codes of \<^verbatim>\<open>include/mcmp/stat.h\<close>, which every operation of the library returns, and
  the flag words of \<^verbatim>\<open>include/mcmp/mcmp.h\<close>. A status is a C \<open>int\<close>; the header lists sixteen
  values, here the constructors of a datatype with the number each stands for. The macro
  \<^verbatim>\<open>MCMPST_RETURN\<close> also leaves the status in a thread-local variable; the models return it.
\<close>

section \<open>Status codes\<close>

datatype mcmpst =
    MCMPST_SUCCESS | MCMPST_NOT_IMPLEMENTED | MCMPST_OVERFLOW | MCMPST_OUT_OF_MEM
  | MCMPST_SPECIFIC | MCMPST_NOT_ABSPATH | MCMPST_INVALIGN | MCMPST_NOINITZ | MCMPST_ISEMPTY
  | MCMPST_OVTIMEOUT | MCMPST_CRITICAL | MCMPST_INVOP | MCMPST_ALROP | MCMPST_NOAVLE
  | MCMPST_AMBNOP | MCMPST_RETRYOP

fun st_code :: "mcmpst \<Rightarrow> int" where
  "st_code MCMPST_SUCCESS = 0"
| "st_code MCMPST_NOT_IMPLEMENTED = -1"
| "st_code MCMPST_OVERFLOW = -2"
| "st_code MCMPST_OUT_OF_MEM = -3"
| "st_code MCMPST_SPECIFIC = -4"
| "st_code MCMPST_NOT_ABSPATH = -5"
| "st_code MCMPST_INVALIGN = -6"
| "st_code MCMPST_NOINITZ = -7"
| "st_code MCMPST_ISEMPTY = -8"
| "st_code MCMPST_OVTIMEOUT = -9"
| "st_code MCMPST_CRITICAL = -10"
| "st_code MCMPST_INVOP = -11"
| "st_code MCMPST_ALROP = -12"
| "st_code MCMPST_NOAVLE = -13"
| "st_code MCMPST_AMBNOP = -14"
| "st_code MCMPST_RETRYOP = -15"

lemma st_code_inj: "st_code a = st_code b \<longleftrightarrow> a = b"
  by (cases a; cases b) simp_all

lemma st_code_range: "-15 \<le> st_code a \<and> st_code a \<le> 0"
  by (cases a) simp_all

text \<open>Statuses are ordered as the integers they are.\<close>

instantiation mcmpst :: linorder
begin

definition less_eq_mcmpst :: "mcmpst \<Rightarrow> mcmpst \<Rightarrow> bool" where
  "less_eq_mcmpst a b \<longleftrightarrow> st_code a \<le> st_code b"

definition less_mcmpst :: "mcmpst \<Rightarrow> mcmpst \<Rightarrow> bool" where
  "less_mcmpst a b \<longleftrightarrow> st_code a < st_code b"

instance
  by standard (auto simp: less_eq_mcmpst_def less_mcmpst_def st_code_inj)

end

section \<open>The last status of a thread\<close>

text \<open>
  \<^verbatim>\<open>mcmpst_last_ret\<close> of \<^verbatim>\<open>include/mcmp/statos.h\<close> is thread-local: one status for each thread. The
  functions whose result is a pointer report a failure only there; their models return it as the left of a sum.
\<close>

type_synonym last_status = "nat \<Rightarrow> mcmpst"

definition mcmpst_setret :: "nat \<Rightarrow> mcmpst \<Rightarrow> last_status \<Rightarrow> last_status" where
  "mcmpst_setret thread st rets = rets(thread := st)"

definition mcmpst_return :: "nat \<Rightarrow> mcmpst \<Rightarrow> last_status \<Rightarrow> last_status \<times> mcmpst" where
  "mcmpst_return thread st rets = (mcmpst_setret thread st rets, st)"

text \<open>A function that returns a pointer, \<open>None\<close> for the null pointer.\<close>

definition pointer_result :: "nat \<Rightarrow> mcmpst + 'a \<Rightarrow> last_status \<Rightarrow> last_status \<times> 'a option" where
  "pointer_result thread r rets =
     (case r of Inl st \<Rightarrow> (mcmpst_setret thread st rets, None) | Inr p \<Rightarrow> (rets, Some p))"

lemma last_status_is_local:
  "other \<noteq> thread \<Longrightarrow> fst (mcmpst_return thread st rets) other = rets other"
  "other \<noteq> thread \<Longrightarrow> fst (pointer_result thread r rets) other = rets other"
  "snd (pointer_result thread r rets) = None \<Longrightarrow> r = Inl (fst (pointer_result thread r rets) thread)"
  by (auto simp: mcmpst_return_def mcmpst_setret_def pointer_result_def split: sum.splits)

section \<open>Flag words\<close>

text \<open>
  \<^verbatim>\<open>MCMPENV_SETFLAG\<close>, \<^verbatim>\<open>MCMPENV_CLEARFLAG\<close> and \<^verbatim>\<open>MCMPENV_HASFLAG\<close> on an \<open>int\<close> lvalue.
\<close>

definition setflag :: "32 word \<Rightarrow> nat \<Rightarrow> 32 word ub" where
  "setflag env flag = do { m \<leftarrow> c_shl1 flag; Some (env OR word_of_int m) }"

definition clearflag :: "32 word \<Rightarrow> nat \<Rightarrow> 32 word ub" where
  "clearflag env flag = do { m \<leftarrow> c_shl1 flag; Some (env AND word_of_int (NOT m)) }"

definition hasflag :: "32 word \<Rightarrow> nat \<Rightarrow> bool ub" where
  "hasflag env flag = do { m \<leftarrow> c_shl1 flag; Some (env AND word_of_int m \<noteq> 0) }"

lemma hasflag_bit: "f < 31 \<Longrightarrow> hasflag w f = Some (bit w f)"
proof -
  assume "f < 31"
  moreover have "w AND 2 ^ f = 0 \<longleftrightarrow> \<not> bit w f"
    using less_trans [OF \<open>f < 31\<close>, of 32]
    by (subst bit_eq_iff) (auto simp: bit_and_iff bit_exp_iff dest!: spec [where x = f])
  ultimately show ?thesis by (simp add: hasflag_def c_shl1_def)
qed

lemma setflag_bit: "f < 31 \<Longrightarrow> \<exists>w'. setflag w f = Some w' \<and> (\<forall>g. bit w' g \<longleftrightarrow> bit w g \<or> g = f)"
  by (auto simp: setflag_def c_shl1_def bit_or_iff bit_exp_iff)

lemma clearflag_bit:
  "f < 31 \<Longrightarrow> \<exists>w'. clearflag w f = Some w' \<and> (\<forall>g. bit w' g \<longleftrightarrow> bit w g \<and> g \<noteq> f)"
  by (auto simp: clearflag_def c_shl1_def bit_and_iff bit_not_iff bit_exp_iff bit_word_of_int_iff
      dest: bit_imp_le_length)

end
