(* ===== verification/Bitmap.thy ===== *)
theory Bitmap
  imports Status
begin

text \<open>
  \<^verbatim>\<open>utilities/src/common/bitmap.c\<close>: a bitmap is an array of bytes, bit \<open>k\<close> of it bit
  \<open>k mod 8\<close> of byte \<open>k div 8\<close>. The two searches read the array by 8, 4, 2 and 1 bytes with
  a loop each; the other operations read or change the byte of one bit. A \<^verbatim>\<open>mcmpbitmap\<close> is
  modelled as the bytes of the object it points to, and \<^verbatim>\<open>len\<close> is the argument the caller
  passes. The wide loads are the little-endian ones of the code's targets. The searches are
  proved equal to the linear search for the first bit, with every load inside the array.
\<close>

unbundle bit_operations_syntax

section \<open>The bits of a bitmap\<close>

definition bm_bit :: "byte list \<Rightarrow> nat \<Rightarrow> bool" where
  "bm_bit bm k = bit (bm ! (k div 8)) (k mod 8)"

text \<open>The linear search that the optimised routines stand for; \<open>-1\<close> when there is no such bit.\<close>

definition first_hit :: "(nat \<Rightarrow> bool) \<Rightarrow> nat \<Rightarrow> nat \<Rightarrow> bitidx" where
  "first_hit P off len = (case find P [off..<8 * len] of None \<Rightarrow> -1 | Some k \<Rightarrow> int k)"

definition next_bit_spec :: "(bool \<Rightarrow> bool) \<Rightarrow> byte list \<Rightarrow> nat \<Rightarrow> nat \<Rightarrow> bitidx" where
  "next_bit_spec pol bm off len = first_hit (\<lambda>k. pol (bm_bit bm k)) off len"

lemmas next_bit_spec_eq = next_bit_spec_def first_hit_def

lemma first_hit_Some:
  "first_hit P off len = int k \<longleftrightarrow> off \<le> k \<and> k < 8 * len \<and> P k \<and> (\<forall>j. off \<le> j \<and> j < k \<longrightarrow> \<not> P j)"
  unfolding find_upt_Some [symmetric] first_hit_def by (auto split: option.splits)

lemma first_hit_None: "first_hit P off len = -1 \<longleftrightarrow> (\<forall>j. off \<le> j \<and> j < 8 * len \<longrightarrow> \<not> P j)"
  unfolding find_upt_None [symmetric] first_hit_def by (auto split: option.splits)

lemma first_hit_form: "first_hit P off len = -1 \<or> (\<exists>k. first_hit P off len = int k)"
  by (auto simp: first_hit_def split: option.splits)

section \<open>The searches\<close>

text \<open>A loop either returns a bit index or falls through with its counter.\<close>

datatype scan = Found bitidx | Fall nat

text \<open>
  \<^verbatim>\<open>for (; i + k < len; i += k) { chunk = load; if (tr(chunk)) return i * 8 + ctz(tr(chunk)); }\<close>
  for a chunk of \<open>k\<close> bytes (8, 4 or 2; never 0). \<open>tr\<close> is the complement in the search for a
  clear bit and the identity in the search for a set one.
\<close>

function scan_words ::
  "('a::len word \<Rightarrow> 'a word) \<Rightarrow> nat \<Rightarrow> byte list \<Rightarrow> nat \<Rightarrow> nat \<Rightarrow> scan ub" where
  "scan_words tr k bm len i =
     (if k \<noteq> 0 \<and> i + k < len then do {
        chunk \<leftarrow> load_le k bm i;
        (if tr chunk \<noteq> 0
         then do { z \<leftarrow> builtin_ctz (tr chunk); Some (Found (bitidx_cast (i * 8 + z))) }
         else scan_words tr k bm len (i + k)) }
      else Some (Fall i))"
  by pat_completeness auto
termination
  by (relation "measure (\<lambda>(tr, k, bm, len, i). len - i)") auto

text \<open>\<^verbatim>\<open>for (; i < len; ++i) { ... } return -1;\<close>, the last loop, byte by byte.\<close>

function scan_bytes :: "(byte \<Rightarrow> byte) \<Rightarrow> byte list \<Rightarrow> nat \<Rightarrow> nat \<Rightarrow> bitidx ub" where
  "scan_bytes tr bm len i =
     (if i < len then do {
        chunk \<leftarrow> load8 bm i;
        (if tr chunk \<noteq> 0
         then do { z \<leftarrow> builtin_ctz (tr chunk); Some (bitidx_cast (i * 8 + z)) }
         else scan_bytes tr bm len (i + 1)) }
      else Some (-1))"
  by pat_completeness auto
termination
  by (relation "measure (\<lambda>(tr, bm, len, i). len - i)") auto

declare scan_words.simps [simp del] scan_bytes.simps [simp del]

text \<open>The four loops in the order both searches run them.\<close>

definition scan_rest ::
  "(64 word \<Rightarrow> 64 word) \<Rightarrow> (32 word \<Rightarrow> 32 word) \<Rightarrow> (16 word \<Rightarrow> 16 word) \<Rightarrow> (byte \<Rightarrow> byte)
     \<Rightarrow> byte list \<Rightarrow> nat \<Rightarrow> nat \<Rightarrow> bitidx ub" where
  "scan_rest tr64 tr32 tr16 tr8 bm len i = do {
     r8 \<leftarrow> scan_words tr64 8 bm len i;
     (case r8 of Found x \<Rightarrow> Some x | Fall i \<Rightarrow> do {
       r4 \<leftarrow> scan_words tr32 4 bm len i;
       (case r4 of Found x \<Rightarrow> Some x | Fall i \<Rightarrow> do {
         r2 \<leftarrow> scan_words tr16 2 bm len i;
         (case r2 of Found x \<Rightarrow> Some x | Fall i \<Rightarrow> scan_bytes tr8 bm len i) }) }) }"

definition mcmpBitmapNextAvaibleBit :: "byte list \<Rightarrow> bitidx \<Rightarrow> nat \<Rightarrow> bitidx ub" where
  "mcmpBitmapNextAvaibleBit bitmap offset len =
     (let i = size_cast (offset sdiv 8) in
      if i \<ge> len then Some (-1)
      else do {
        b \<leftarrow> load8 bitmap i;
        m \<leftarrow> c_shl1 (u8_cast (offset smod 8));
        let inverted = (word_of_int (NOT (uint b OR (m - 1))) :: byte);
        (if inverted \<noteq> 0
         then do { z \<leftarrow> builtin_ctz inverted; Some (bitidx_cast (i * 8 + z)) }
         else scan_rest NOT NOT NOT NOT bitmap len (i + 1)) })"

definition mcmpBitmapNextOccupiedBit :: "byte list \<Rightarrow> bitidx \<Rightarrow> nat \<Rightarrow> bitidx ub" where
  "mcmpBitmapNextOccupiedBit bitmap offset len =
     (let i = size_cast (offset sdiv 8) in
      if i \<ge> len then Some (-1)
      else do {
        b \<leftarrow> load8 bitmap i;
        m \<leftarrow> c_shl1 (u8_cast (offset smod 8));
        let chunk = (word_of_int (uint b AND NOT (m - 1)) :: byte);
        (if chunk \<noteq> 0
         then do { z \<leftarrow> builtin_ctz chunk; Some (bitidx_cast (i * 8 + z)) }
         else scan_rest id id id id bitmap len (i + 1)) })"

section \<open>Single bits\<close>

definition mcmpBitmapCleanOrder :: "byte list \<Rightarrow> nat \<Rightarrow> byte list ub" where
  "mcmpBitmapCleanOrder bitmap len =
     (if len \<le> length bitmap then Some (replicate len 0 @ drop len bitmap) else None)"

definition mcmpBitmapEnableBit :: "byte list \<Rightarrow> bitidx \<Rightarrow> byte list ub" where
  "mcmpBitmapEnableBit bitmap idx = do {
     let byteoff = idx sdiv 8;
     b \<leftarrow> load_at bitmap byteoff;
     m \<leftarrow> c_shl1 (u8_cast (idx smod 8));
     store_at bitmap byteoff (word_of_int (uint b OR m)) }"

definition mcmpBitmapDisableBit :: "byte list \<Rightarrow> bitidx \<Rightarrow> byte list ub" where
  "mcmpBitmapDisableBit bitmap idx = do {
     let byteoff = idx sdiv 8;
     b \<leftarrow> load_at bitmap byteoff;
     m \<leftarrow> c_shl1 (u8_cast (idx smod 8));
     store_at bitmap byteoff (word_of_int (uint b AND NOT m)) }"

definition mcmpBitmapIsEnabledBit :: "byte list \<Rightarrow> bitidx \<Rightarrow> bool ub" where
  "mcmpBitmapIsEnabledBit bitmap idx = do {
     b \<leftarrow> load_at bitmap (idx sdiv 8);
     m \<leftarrow> c_shl1 (u8_cast (idx smod 8));
     Some (uint b AND m \<noteq> 0) }"

definition mcmpBitmapIsDisabledBit :: "byte list \<Rightarrow> bitidx \<Rightarrow> bool ub" where
  "mcmpBitmapIsDisabledBit bitmap idx = do {
     b \<leftarrow> load_at bitmap (idx sdiv 8);
     m \<leftarrow> c_shl1 (u8_cast (idx smod 8));
     Some (uint b AND m = 0) }"

section \<open>Reading and writing one bit\<close>

lemma int_div8 [simp]: "int k div 8 = int (k div 8)" and int_mod8 [simp]: "int k mod 8 = int (k mod 8)"
  by (simp_all add: zdiv_int zmod_int)

lemma u8_cast_mod8 [simp]: "u8_cast (int (k mod 8)) = k mod 8"
  by simp

lemma byte_in_range: "k < 8 * length bm \<Longrightarrow> k div 8 < length bm"
  by auto

lemma bm_bit_update:
  "i < length bm \<Longrightarrow>
     bm_bit (bm[i := b]) k = (if k div 8 = i then bit b (k mod 8) else bm_bit bm k)"
  by (simp add: bm_bit_def)

lemma div_mod8_eq: "k div 8 = j div 8 \<Longrightarrow> k mod 8 = j mod 8 \<longleftrightarrow> k = j" for j k :: nat
  by (metis div_mult_mod_eq)

text \<open>Writing a byte that differs from the old one in one bit changes that bit only.\<close>

lemma bm_bit_update_one:
  assumes "k < 8 * length bm"
    and "\<And>n. bit b n \<longleftrightarrow> (if n = k mod 8 then v else bit (bm ! (k div 8)) n)"
  shows "bm_bit (bm[k div 8 := b]) j \<longleftrightarrow> (if j = k then v else bm_bit bm j)"
  using assms(1) div_mod8_eq [of j k]
  by (cases "j div 8 = k div 8") (auto simp: byte_in_range assms(2) bm_bit_def)

lemma enable_bit:
  assumes "k < 8 * length bm"
  shows "\<exists>bm'. mcmpBitmapEnableBit bm (int k) = Some bm' \<and> length bm' = length bm
               \<and> (\<forall>j. bm_bit bm' j \<longleftrightarrow> bm_bit bm j \<or> j = k)"
proof -
  let ?b = "word_of_int (uint (bm ! (k div 8)) OR 2 ^ (k mod 8)) :: byte"
  have "mcmpBitmapEnableBit bm (int k) = Some (bm[k div 8 := ?b])"
    using assms by (simp add: mcmpBitmapEnableBit_def mem_simps byte_in_range)
  moreover have "bm_bit (bm[k div 8 := ?b]) j \<longleftrightarrow> (if j = k then True else bm_bit bm j)" for j
    by (rule bm_bit_update_one [OF assms]) (simp add: bit_u8_or_shl)
  ultimately show ?thesis by auto
qed

lemma disable_bit:
  assumes "k < 8 * length bm"
  shows "\<exists>bm'. mcmpBitmapDisableBit bm (int k) = Some bm' \<and> length bm' = length bm
               \<and> (\<forall>j. bm_bit bm' j \<longleftrightarrow> bm_bit bm j \<and> j \<noteq> k)"
proof -
  let ?b = "word_of_int (uint (bm ! (k div 8)) AND NOT (2 ^ (k mod 8))) :: byte"
  have "mcmpBitmapDisableBit bm (int k) = Some (bm[k div 8 := ?b])"
    using assms by (simp add: mcmpBitmapDisableBit_def mem_simps byte_in_range)
  moreover have "bm_bit (bm[k div 8 := ?b]) j \<longleftrightarrow> (if j = k then False else bm_bit bm j)" for j
    by (rule bm_bit_update_one [OF assms]) (simp add: bit_u8_and_not_shl)
  ultimately show ?thesis by auto
qed

lemma is_enabled_bit: "k < 8 * length bm \<Longrightarrow> mcmpBitmapIsEnabledBit bm (int k) = Some (bm_bit bm k)"
  using uint_and_shl_nonzero [of "bm ! (k div 8)" "k mod 8"]
  by (simp add: mcmpBitmapIsEnabledBit_def mem_simps byte_in_range bm_bit_def)

lemma is_disabled_bit: "k < 8 * length bm \<Longrightarrow> mcmpBitmapIsDisabledBit bm (int k) = Some (\<not> bm_bit bm k)"
  using uint_and_shl_nonzero [of "bm ! (k div 8)" "k mod 8"]
  by (auto simp: mcmpBitmapIsDisabledBit_def mem_simps byte_in_range bm_bit_def)

lemma clean_order:
  "len \<le> length bm \<Longrightarrow>
     \<exists>bm'. mcmpBitmapCleanOrder bm len = Some bm' \<and> length bm' = length bm
           \<and> (\<forall>k < 8 * len. \<not> bm_bit bm' k)"
  by (auto simp: mcmpBitmapCleanOrder_def bm_bit_def nth_append)

section \<open>The searches are the linear search\<close>

lemma len8: "LENGTH(8) = 8"
  by simp

lemma bit_chunk:
  assumes "i + k \<le> length bm" "n < 8 * k" "LENGTH('a::len) = 8 * k"
  shows "bit (le_word (take k (drop i bm)) :: 'a word) n \<longleftrightarrow> bm_bit bm (8 * i + n)"
proof -
  have "n div 8 < k" using assms(2) by auto
  then show ?thesis using assms by (simp add: bit_le_word bm_bit_def add.commute)
qed

text \<open>What one word contributes: its \<open>ctz\<close> is the first hit in the bits it covers.\<close>

lemma find_word:
  assumes "\<And>n. n < LENGTH('a) \<Longrightarrow> bit (w :: 'a::len word) n \<longleftrightarrow> P (a + n)"
  shows "find P [a..<a + LENGTH('a)] = map_option (\<lambda>z. a + z) (builtin_ctz w)"
proof -
  have "find (\<lambda>k. P (k + a)) [0..<LENGTH('a)] = find (bit w) [0..<LENGTH('a)]"
    by (rule find_cong) (auto simp: assms add.commute)
  then show ?thesis
    using find_upt_shift [of P 0 a "LENGTH('a)"] by (simp add: builtin_ctz_def add.commute)
qed

lemma find_word_hit:
  assumes "\<And>n. n < LENGTH('a) \<Longrightarrow> bit (w :: 'a::len word) n \<longleftrightarrow> P (a + n)" and "w \<noteq> 0"
  shows "\<exists>z. builtin_ctz w = Some z \<and> find P [a..<a + LENGTH('a)] = Some (a + z) \<and> z < LENGTH('a)"
  using find_word [of w P a, OF assms(1)] assms(2) builtin_ctz_eq_None [of w]
  by (auto simp: builtin_ctz_def find_upt_Some)

lemma find_word_miss:
  assumes "\<And>n. n < LENGTH('a) \<Longrightarrow> bit (w :: 'a::len word) n \<longleftrightarrow> P (a + n)" and "w = 0"
  shows "find P [a..<a + LENGTH('a)] = None"
  using find_word [of w P a, OF assms(1)] assms(2) builtin_ctz_eq_None [of w] by simp

text \<open>
  What a loop started at byte \<open>i\<close> does: it returns the first hit in the rest of the array, or
  it falls through at \<open>i'\<close> with no hit in the bytes it has read.
\<close>

definition scan_ok :: "(nat \<Rightarrow> bool) \<Rightarrow> nat \<Rightarrow> nat \<Rightarrow> scan \<Rightarrow> bool" where
  "scan_ok P len i r =
     (case r of
        Found x \<Rightarrow> \<exists>j. x = int j \<and> find P [8 * i..<8 * len] = Some j
      | Fall i' \<Rightarrow> i \<le> i' \<and> i' \<le> len \<and> find P [8 * i..<8 * i'] = None)"

lemma scan_ok_extend:
  assumes "scan_ok P len m r" "i \<le> m" "m \<le> len" "find P [8 * i..<8 * m] = None"
  shows "scan_ok P len i r"
proof (cases r)
  case (Found x)
  then show ?thesis
    using assms find_upt_split [of "8 * i" "8 * m" "8 * len" P] by (auto simp: scan_ok_def)
next
  case (Fall j)
  then show ?thesis
    using assms find_upt_split [of "8 * i" "8 * m" "8 * j" P] by (auto simp: scan_ok_def)
qed

lemma scan_words_ok:
  fixes tr :: "'a::len word \<Rightarrow> 'a word"
  assumes width: "LENGTH('a) = 8 * k"
    and tr: "\<And>w n. n < LENGTH('a) \<Longrightarrow> bit (tr w) n \<longleftrightarrow> pol (bit w n)"
    and len: "len \<le> length bm" "8 * len \<le> 2 ^ 63" and "i \<le> len"
  shows "\<exists>r. scan_words tr k bm len i = Some r \<and> scan_ok (\<lambda>j. pol (bm_bit bm j)) len i r"
  using assms(5)
proof (induction "len - i" arbitrary: i rule: less_induct)
  case less
  let ?P = "\<lambda>j. pol (bm_bit bm j)"
  show ?case
  proof (cases "k \<noteq> 0 \<and> i + k < len")
    case False
    then have "scan_words tr k bm len i = Some (Fall i)"
      by (subst scan_words.simps) auto
    moreover have "scan_ok ?P len i (Fall i)" using less.prems by (simp add: scan_ok_def)
    ultimately show ?thesis by blast
  next
    case True
    let ?w = "tr (le_word (take k (drop i bm)))"
    have eq: "scan_words tr k bm len i =
        (if ?w \<noteq> 0 then do { z \<leftarrow> builtin_ctz ?w; Some (Found (bitidx_cast (i * 8 + z))) }
         else scan_words tr k bm len (i + k))"
      using True len by (subst scan_words.simps) (simp add: mem_simps)
    have bits: "bit ?w n \<longleftrightarrow> ?P (8 * i + n)" if "n < LENGTH('a)" for n
      using that True len width by (simp add: tr bit_chunk)
    have split: "find ?P [8 * i..<8 * len] =
        (case find ?P [8 * i..<8 * i + LENGTH('a)] of
           None \<Rightarrow> find ?P [8 * i + LENGTH('a)..<8 * len] | Some j \<Rightarrow> Some j)"
      using True width by (intro find_upt_split) auto
    show ?thesis
    proof (cases "?w = 0")
      case False
      then obtain z where z: "builtin_ctz ?w = Some z" "z < LENGTH('a)"
        and hit: "find ?P [8 * i..<8 * i + LENGTH('a)] = Some (8 * i + z)"
        using find_word_hit [of ?w ?P "8 * i", OF bits] by blast
      have "i * 8 + z < 2 ^ 63" using True len width z(2) by linarith
      then have "scan_words tr k bm len i = Some (Found (int (8 * i + z)))"
        using False z by (simp add: eq mult.commute)
      moreover have "scan_ok ?P len i (Found (int (8 * i + z)))"
        using hit split by (auto simp: scan_ok_def)
      ultimately show ?thesis by blast
    next
      case zero: True
      have miss: "find ?P [8 * i..<8 * (i + k)] = None"
        using find_word_miss [of ?w ?P "8 * i", OF bits zero] width by (simp add: add_mult_distrib2)
      obtain r where "scan_words tr k bm len (i + k) = Some r" "scan_ok ?P len (i + k) r"
        using less.hyps [of "i + k"] True diff_less_mono2 [of i "i + k" len]
        by (auto simp: less_imp_le)
      then show ?thesis using zero True miss
        by (intro exI [of _ r]) (auto simp: eq intro: scan_ok_extend)
    qed
  qed
qed

lemma scan_bytes_ok:
  assumes tr: "\<And>(w :: byte) n. n < 8 \<Longrightarrow> bit (tr w) n \<longleftrightarrow> pol (bit w n)"
    and len: "len \<le> length bm" "8 * len \<le> 2 ^ 63" and "i \<le> len"
  shows "scan_bytes tr bm len i = Some (next_bit_spec pol bm (8 * i) len)"
  using assms(4)
proof (induction "len - i" arbitrary: i rule: less_induct)
  case less
  let ?P = "\<lambda>j. pol (bm_bit bm j)"
  show ?case
  proof (cases "i < len")
    case False
    then show ?thesis by (subst scan_bytes.simps) (simp add: next_bit_spec_eq)
  next
    case True
    let ?w = "tr (bm ! i)"
    have eq: "scan_bytes tr bm len i =
        (if ?w \<noteq> 0 then do { z \<leftarrow> builtin_ctz ?w; Some (bitidx_cast (i * 8 + z)) }
         else scan_bytes tr bm len (i + 1))"
      using True len by (subst scan_bytes.simps) (simp add: mem_simps)
    have bits: "bit ?w n \<longleftrightarrow> ?P (8 * i + n)" if "n < LENGTH(8)" for n
      using that by (simp add: tr bm_bit_def)
    have split: "find ?P [8 * i..<8 * len] =
        (case find ?P [8 * i..<8 * i + LENGTH(8)] of
           None \<Rightarrow> find ?P [8 * i + LENGTH(8)..<8 * len] | Some j \<Rightarrow> Some j)"
      using True by (intro find_upt_split) auto
    show ?thesis
    proof (cases "?w = 0")
      case False
      then obtain z where z: "builtin_ctz ?w = Some z" "z < LENGTH(8)"
        and hit: "find ?P [8 * i..<8 * i + LENGTH(8)] = Some (8 * i + z)"
        using find_word_hit [of ?w ?P "8 * i", OF bits] by blast
      have "i * 8 + z < 2 ^ 63" using True len z(2) by simp
      then show ?thesis using False z hit split by (simp add: eq next_bit_spec_eq mult.commute)
    next
      case zero: True
      have miss: "find ?P [8 * i..<8 * i + LENGTH(8)] = None"
        by (rule find_word_miss [of ?w ?P "8 * i", OF bits zero])
      have "find ?P [8 * i..<8 * len] = find ?P [8 * (i + 1)..<8 * len]"
        unfolding split miss by (simp only: option.case distrib_left mult_1_right len8)
      then have "next_bit_spec pol bm (8 * i) len = next_bit_spec pol bm (8 * (i + 1)) len"
        by (simp only: next_bit_spec_eq)
      then show ?thesis using zero True less.hyps [of "i + 1"]
        by (simp only: eq) simp
    qed
  qed
qed

lemma scan_rest_ok:
  assumes t64: "\<And>w n. n < 64 \<Longrightarrow> bit (tr64 w) n \<longleftrightarrow> pol (bit w n)"
    and t32: "\<And>w n. n < 32 \<Longrightarrow> bit (tr32 w) n \<longleftrightarrow> pol (bit w n)"
    and t16: "\<And>w n. n < 16 \<Longrightarrow> bit (tr16 w) n \<longleftrightarrow> pol (bit w n)"
    and t8: "\<And>w n. n < 8 \<Longrightarrow> bit (tr8 w) n \<longleftrightarrow> pol (bit w n)"
    and len: "len \<le> length bm" "8 * len \<le> 2 ^ 63" and i: "i \<le> len"
  shows "scan_rest tr64 tr32 tr16 tr8 bm len i = Some (next_bit_spec pol bm (8 * i) len)"
proof -
  let ?P = "\<lambda>j. pol (bm_bit bm j)"
  have found: "x = next_bit_spec pol bm (8 * i) len" if "scan_ok ?P len i (Found x)" for x i
    using that by (auto simp: scan_ok_def next_bit_spec_eq)
  have fall: "next_bit_spec pol bm (8 * i) len = next_bit_spec pol bm (8 * i') len \<and> i' \<le> len"
    if "scan_ok ?P len i (Fall i')" for i i'
    using that find_upt_split [of "8 * i" "8 * i'" "8 * len" ?P]
    by (auto simp: scan_ok_def next_bit_spec_eq)
  obtain r8 where r8: "scan_words tr64 8 bm len i = Some r8" "scan_ok ?P len i r8"
    using scan_words_ok [of 8 tr64 pol, OF _ t64 len i] by auto
  show ?thesis
  proof (cases r8)
    case (Found x)
    then show ?thesis using r8 found by (simp add: scan_rest_def)
  next
    case f8: (Fall i8)
    obtain r4 where r4: "scan_words tr32 4 bm len i8 = Some r4" "scan_ok ?P len i8 r4"
      using scan_words_ok [of 4 tr32 pol, OF _ t32 len, of i8] fall [of i i8] r8 f8 by auto
    show ?thesis
    proof (cases r4)
      case (Found x)
      then show ?thesis using r8 f8 r4 found [of i8 x] fall [of i i8] by (simp add: scan_rest_def)
    next
      case f4: (Fall i4)
      obtain r2 where r2: "scan_words tr16 2 bm len i4 = Some r2" "scan_ok ?P len i4 r2"
        using scan_words_ok [of 2 tr16 pol, OF _ t16 len, of i4] fall [of i8 i4] r4 f4 by auto
      show ?thesis
        using r8 f8 r4 f4 r2 fall [of i i8] fall [of i8 i4] found [of i4] fall [of i4]
          scan_bytes_ok [of tr8 pol, OF t8 len]
        by (cases r2) (simp_all add: scan_rest_def)
    qed
  qed
qed

text \<open>The first byte, of which only the bits from the offset on count.\<close>

lemma first_hit_first_byte:
  assumes "off div 8 < len"
    and "\<And>n. n < 8 \<Longrightarrow> bit (w :: byte) n \<longleftrightarrow> off mod 8 \<le> n \<and> P (8 * (off div 8) + n)"
  shows "first_hit P off len =
     (case builtin_ctz w of
        Some z \<Rightarrow> int (8 * (off div 8) + z)
      | None \<Rightarrow> first_hit P (8 * (off div 8 + 1)) len)"
proof -
  let ?Q = "\<lambda>j. off \<le> j \<and> P j"
  let ?a = "8 * (off div 8)"
  have off: "?a \<le> off" "off \<le> ?a + 8" "off mod 8 = off - ?a"
    using mod_less_divisor [of 8 off] minus_mult_div_eq_mod [of off 8] by linarith+
  have Q0: "find ?Q [?a..<off] = None"
    by (simp add: find_upt_None)
  have Q1: "find ?Q [off..<?a + 8] = find P [off..<?a + 8]"
    by (rule find_cong) auto
  have "find ?Q [?a..<?a + LENGTH(8)] = map_option (\<lambda>z. ?a + z) (builtin_ctz w)"
    by (rule find_word) (use assms(2) off in auto)
  moreover have "find ?Q [?a..<?a + 8] = find P [off..<?a + 8]"
    using find_upt_split [of ?a off "?a + 8" ?Q] off Q0 Q1 by simp
  ultimately have "find P [off..<?a + 8] = map_option (\<lambda>z. ?a + z) (builtin_ctz w)"
    by simp
  moreover have "find P [off..<8 * len] =
      (case find P [off..<?a + 8] of None \<Rightarrow> find P [?a + 8..<8 * len] | Some j \<Rightarrow> Some j)"
    using off assms(1) by (intro find_upt_split) auto
  ultimately show ?thesis
    by (cases "builtin_ctz w") (simp_all add: first_hit_def algebra_simps)
qed

lemma search_start:
  assumes "off < 2 ^ 63"
  shows "size_cast (int off sdiv 8) = off div 8" and "c_shl1 (u8_cast (int off smod 8)) = Some (2 ^ (off mod 8))"
  using assms by (simp_all add: mem_simps)

lemma next_available_ok:
  assumes "len \<le> length bm" "8 * len \<le> 2 ^ 63" "off < 2 ^ 63"
  shows "mcmpBitmapNextAvaibleBit bm (int off) len = Some (next_bit_spec Not bm off len)"
proof (cases "off div 8 < len")
  case False
  then have "8 * len \<le> off" by auto
  with False show ?thesis
    using search_start [OF assms(3)]
    by (simp add: mcmpBitmapNextAvaibleBit_def next_bit_spec_eq)
next
  case True
  let ?w = "word_of_int (NOT (uint (bm ! (off div 8)) OR (2 ^ (off mod 8) - 1))) :: byte"
  have spec: "next_bit_spec Not bm off len =
     (case builtin_ctz ?w of Some z \<Rightarrow> int (8 * (off div 8) + z)
      | None \<Rightarrow> next_bit_spec Not bm (8 * (off div 8 + 1)) len)"
    unfolding next_bit_spec_def by (rule first_hit_first_byte [OF True])
       (auto simp: bit_simps bit_int_low_mask bm_bit_def)
  have rest: "scan_rest NOT NOT NOT NOT bm len (off div 8 + 1)
      = Some (next_bit_spec Not bm (8 * (off div 8 + 1)) len)"
    using True assms by (intro scan_rest_ok) (auto simp: bit_not_iff)
  have z: "8 * (off div 8) + z < 2 ^ 63" if "builtin_ctz ?w = Some z" for z
  proof -
    have "z < 8" using that by (auto simp: builtin_ctz_def find_upt_Some)
    then show ?thesis using True assms(2) by linarith
  qed
  show ?thesis
    using True assms(1) search_start [OF assms(3)] spec rest z builtin_ctz_eq_None [of ?w]
    by (cases "builtin_ctz ?w")
       (simp_all add: mcmpBitmapNextAvaibleBit_def mem_simps Let_def mult.commute)
qed

text \<open>
  C2: The search for a free bit is, for every offset and every length within the array, the linear search
  for the first clear bit from the offset on, and \<open>-1\<close> when there is none; none of its 64-, 32-,
  16- and 8-bit loads leaves the array and no shift or \<open>ctz\<close> in it is undefined.
\<close>

theorem next_available_is_linear_search:
  assumes "len \<le> length bm" "8 * len \<le> 2 ^ 63" "off < 2 ^ 63"
  shows "mcmpBitmapNextAvaibleBit bm (int off) len = Some (next_bit_spec Not bm off len)"
  by (rule next_available_ok [OF assms])

lemma next_occupied_ok:
  assumes "len \<le> length bm" "8 * len \<le> 2 ^ 63" "off < 2 ^ 63"
  shows "mcmpBitmapNextOccupiedBit bm (int off) len = Some (next_bit_spec (\<lambda>b. b) bm off len)"
proof (cases "off div 8 < len")
  case False
  then have "8 * len \<le> off" by auto
  with False show ?thesis
    using search_start [OF assms(3)]
    by (simp add: mcmpBitmapNextOccupiedBit_def next_bit_spec_eq)
next
  case True
  let ?w = "word_of_int (uint (bm ! (off div 8)) AND NOT (2 ^ (off mod 8) - 1)) :: byte"
  have spec: "next_bit_spec (\<lambda>b. b) bm off len =
     (case builtin_ctz ?w of Some z \<Rightarrow> int (8 * (off div 8) + z)
      | None \<Rightarrow> next_bit_spec (\<lambda>b. b) bm (8 * (off div 8 + 1)) len)"
    unfolding next_bit_spec_def by (rule first_hit_first_byte [OF True])
       (auto simp: bit_simps bit_int_low_mask bm_bit_def)
  have rest: "scan_rest id id id id bm len (off div 8 + 1)
      = Some (next_bit_spec (\<lambda>b. b) bm (8 * (off div 8 + 1)) len)"
    using True assms by (intro scan_rest_ok) auto
  have z: "8 * (off div 8) + z < 2 ^ 63" if "builtin_ctz ?w = Some z" for z
  proof -
    have "z < 8" using that by (auto simp: builtin_ctz_def find_upt_Some)
    then show ?thesis using True assms(2) by linarith
  qed
  show ?thesis
    using True assms(1) search_start [OF assms(3)] spec rest z builtin_ctz_eq_None [of ?w]
    by (cases "builtin_ctz ?w")
       (simp_all add: mcmpBitmapNextOccupiedBit_def mem_simps Let_def mult.commute)
qed

text \<open>
  The search for a set bit is, for every offset and every length within the array, the linear search for
  the first set bit from the offset on, with the same guarantees on its loads.
\<close>

lemma next_occupied_is_linear_search:
  assumes "len \<le> length bm" "8 * len \<le> 2 ^ 63" "off < 2 ^ 63"
  shows "mcmpBitmapNextOccupiedBit bm (int off) len = Some (next_bit_spec (\<lambda>b. b) bm off len)"
  by (rule next_occupied_ok [OF assms])

text \<open>A bitmap of ten bytes: bits 0 to 69 set and bit 70 clear, then one set bit at 77.\<close>

definition sample_bitmap :: "byte list" where
  "sample_bitmap = replicate 8 255 @ [63, 32]"

theorem next_available_is_linear_search_witness:
  "mcmpBitmapNextAvaibleBit sample_bitmap (int 3) 10 = Some 70"
proof -
  have "next_bit_spec Not sample_bitmap 3 10 = 70" by code_simp
  then show ?thesis
    using next_available_is_linear_search [of 10 sample_bitmap 3]
    by (simp add: sample_bitmap_def)
qed

lemma next_occupied_is_linear_search_witness:
  "mcmpBitmapNextOccupiedBit sample_bitmap (int 71) 10 = Some 77"
proof -
  have "next_bit_spec (\<lambda>b. b) sample_bitmap 71 10 = 77" by code_simp
  then show ?thesis
    using next_occupied_is_linear_search [of 10 sample_bitmap 71]
    by (simp add: sample_bitmap_def)
qed

section \<open>Single bits: round trips and frame\<close>

text \<open>
  Within the array, setting bit \<open>k\<close> makes the tests of bit \<open>k\<close> answer "enabled" and leaves the answer for
  every other bit; clearing it makes them answer "disabled" and leaves every other bit; and the two tests are
  always opposite.
\<close>

lemma bit_operations_roundtrip:
  assumes "k < 8 * length bm" "j < 8 * length bm"
  shows "\<exists>bs bc. mcmpBitmapEnableBit bm (int k) = Some bs \<and> mcmpBitmapDisableBit bm (int k) = Some bc
     \<and> mcmpBitmapIsEnabledBit bs (int j) = (if j = k then Some True else mcmpBitmapIsEnabledBit bm (int j))
     \<and> mcmpBitmapIsEnabledBit bc (int j) = (if j = k then Some False else mcmpBitmapIsEnabledBit bm (int j))
     \<and> mcmpBitmapIsDisabledBit bm (int j) = map_option Not (mcmpBitmapIsEnabledBit bm (int j))"
proof -
  obtain bs bc where
      "mcmpBitmapEnableBit bm (int k) = Some bs" "length bs = length bm" "\<forall>i. bm_bit bs i \<longleftrightarrow> bm_bit bm i \<or> i = k"
      "mcmpBitmapDisableBit bm (int k) = Some bc" "length bc = length bm" "\<forall>i. bm_bit bc i \<longleftrightarrow> bm_bit bm i \<and> i \<noteq> k"
    using enable_bit [OF assms(1)] disable_bit [OF assms(1)] by blast
  then show ?thesis using assms(2) by (simp add: is_enabled_bit is_disabled_bit)
qed

lemma bit_operations_roundtrip_witness:
  "\<exists>bs bc. mcmpBitmapEnableBit [0, 4] (int 9) = Some bs \<and> mcmpBitmapDisableBit [0, 4] (int 9) = Some bc
     \<and> mcmpBitmapIsEnabledBit bs (int 9) = Some True \<and> mcmpBitmapIsEnabledBit bc (int 9) = Some False"
  using bit_operations_roundtrip [of 9 "[0, 4]" 9] by auto

text \<open>A negative index: its byte is outside the array or its shift is undefined.\<close>

lemma negative_split:
  assumes "i < 0"
  shows "0 < nat (- i)" "i sdiv 8 = - int (nat (- i) div 8)" "i smod 8 = - int (nat (- i) mod 8)"
  using assms by (simp_all add: signed_divide_int_def signed_modulo_int_def zdiv_int zmod_int)

lemma negative_shift: "i < 0 \<Longrightarrow> nat (- i) mod 8 \<noteq> 0 \<Longrightarrow> c_shl1 (u8_cast (i smod 8)) = None"
proof -
  assume i: "i < 0" and r: "nat (- i) mod 8 \<noteq> 0"
  have "- int (nat (- i) mod 8) mod 256 = 256 - int (nat (- i) mod 8)"
    using r by (subst zmod_zminus1_eq_if) (simp add: zmod_int [symmetric])
  moreover have "nat (- i) mod 8 < 8" by simp
  ultimately show ?thesis by (simp add: negative_split(3) [OF i] u8_cast_def c_shl1_def del: mod_less_divisor) linarith
qed

lemma negative_undefined: "i < 0 \<Longrightarrow> load_at bm (i sdiv 8) = None \<or> c_shl1 (u8_cast (i smod 8)) = None"
  using negative_split [of i] negative_shift [of i] by (cases "nat (- i) mod 8 = 0") (auto simp: load_at_def)

lemma disable_negative: "i < 0 \<Longrightarrow> mcmpBitmapDisableBit bm i = None"
  using negative_undefined [of i bm] by (auto simp: mcmpBitmapDisableBit_def Option.bind_eq_None_conv)

text \<open>
  A negative bit index is never accepted: setting, clearing and testing it is undefined behaviour, as is a
  search from an offset between -7 and -1 of a nonempty bitmap; a search from -8 or below returns -1.
\<close>

lemma negative_index:
  assumes "i < 0" "- (2 ^ 63) \<le> i" "0 < len" "len \<le> 2 ^ 63" "bm \<noteq> []"
  shows "mcmpBitmapEnableBit bm i = None \<and> mcmpBitmapDisableBit bm i = None
     \<and> mcmpBitmapIsEnabledBit bm i = None \<and> mcmpBitmapIsDisabledBit bm i = None
     \<and> mcmpBitmapNextAvaibleBit bm i len = (if i \<le> -8 then Some (-1) else None)
     \<and> mcmpBitmapNextOccupiedBit bm i len = (if i \<le> -8 then Some (-1) else None)"
proof -
  define m where "m = nat (- i)"
  have i: "i = - int m" and m: "0 < m" "m \<le> 2 ^ 63" using assms(1,2) by (auto simp: m_def)
  note q = negative_split(2) [OF assms(1), folded m_def]
  note shift = negative_shift [OF assms(1), folded m_def]
  note undef = negative_undefined [OF assms(1), of bm]
  have far: "len \<le> size_cast (i sdiv 8)" if "i \<le> -8"
  proof -
    have "0 < m div 8" "int (m div 8) \<le> 2 ^ 60" using that i m by auto
    then have "- int (m div 8) mod 2 ^ 64 = 2 ^ 64 - int (m div 8)"
      by (subst zmod_zminus1_eq_if) simp
    then show ?thesis using assms(4) \<open>int (m div 8) \<le> 2 ^ 60\<close> by (simp add: q size_cast_def nat_diff_distrib)
  qed
  have near: "size_cast (i sdiv 8) = 0 \<and> m mod 8 \<noteq> 0" if "\<not> i \<le> -8"
    using that i m by (auto simp: q size_cast_def)
  show ?thesis
    using undef shift near far assms(3)
    by (cases "load_at bm (i sdiv 8)") (auto simp: mcmpBitmapEnableBit_def mcmpBitmapDisableBit_def mcmpBitmapIsEnabledBit_def
        mcmpBitmapIsDisabledBit_def mcmpBitmapNextAvaibleBit_def mcmpBitmapNextOccupiedBit_def Let_def
        Option.bind_eq_None_conv)
qed

lemma negative_index_witness:
  "mcmpBitmapDisableBit [255] (-1) = None \<and> mcmpBitmapNextAvaibleBit [255] (-3) 1 = None
     \<and> mcmpBitmapNextOccupiedBit [255] (-9) 1 = Some (-1)"
  using negative_index [of "-1" 1 "[255]"] negative_index [of "-3" 1 "[255]"]
    negative_index [of "-9" 1 "[255]"] by simp

end
