(* ===== verification/Transition.thy ===== *)
theory Transition
  imports Mcmp_Prelude
begin

text \<open>
  Interleavings. A concurrent component is a start predicate and a step relation on a global
  state, one step for each atomic memory access of one thread; \<open>reachable\<close> is what some
  scheduling of the threads can reach. The locale states the contract of an invariant once: the
  component proves that its invariant holds at the start and is kept by a step, and obtains it in
  every reachable state and along every run.
\<close>

inductive reachable :: "('s \<Rightarrow> bool) \<Rightarrow> ('s \<Rightarrow> 's \<Rightarrow> bool) \<Rightarrow> 's \<Rightarrow> bool"
  for init :: "'s \<Rightarrow> bool" and step :: "'s \<Rightarrow> 's \<Rightarrow> bool" where
  start: "init s \<Longrightarrow> reachable init step s"
| step: "reachable init step s \<Longrightarrow> step s t \<Longrightarrow> reachable init step t"

lemma reachable_rtranclp: "reachable init step s \<Longrightarrow> step\<^sup>*\<^sup>* s t \<Longrightarrow> reachable init step t"
  by (rotate_tac, induction rule: rtranclp_induct) (auto intro: reachable.step)

locale invariant_system =
  fixes init :: "'s \<Rightarrow> bool"
    and step :: "'s \<Rightarrow> 's \<Rightarrow> bool"
    and inv :: "'s \<Rightarrow> bool"
  assumes init_inv: "init s \<Longrightarrow> inv s"
    and step_inv: "inv s \<Longrightarrow> step s t \<Longrightarrow> inv t"
begin

lemma reach_inv: "reachable init step s \<Longrightarrow> inv s"
  by (induction rule: reachable.induct) (auto intro: init_inv step_inv)

lemma run_inv: "inv s \<Longrightarrow> step\<^sup>*\<^sup>* s t \<Longrightarrow> inv t"
  by (rotate_tac, induction rule: rtranclp_induct) (auto intro: step_inv)

end

text \<open>A contract with progress: in an invariant state a thread that is inside a call can move.\<close>

locale live_system = invariant_system init step inv
  for init :: "'s \<Rightarrow> bool" and step :: "'s \<Rightarrow> 's \<Rightarrow> bool" and inv :: "'s \<Rightarrow> bool" +
  fixes busy :: "'s \<Rightarrow> 't \<Rightarrow> bool"
    and moves :: "'t \<Rightarrow> 's \<Rightarrow> 's \<Rightarrow> bool"
  assumes busy_moves: "inv s \<Longrightarrow> busy s i \<Longrightarrow> \<exists>t. moves i s t"
    and moves_step: "moves i s t \<Longrightarrow> step s t"
begin

lemma never_stuck: "reachable init step s \<Longrightarrow> busy s i \<Longrightarrow> \<exists>t. moves i s t \<and> reachable init step t"
  by (meson busy_moves moves_step reach_inv reachable.step)

end

end
