(* ===== verification/Atomic_Bitmap.thy ===== *)
theory Atomic_Bitmap
  imports Bitmap Transition
begin

text \<open>
  \<^verbatim>\<open>utilities/src/common/atomicbitmap.c\<close>: the bitmap operations of threads that share a bitmap.

  The searches perform one atomic load per chunk, and other threads may write between two loads.
  Their model reads a history \<open>h\<close>: \<open>h t\<close> is the bitmap at the search's load number \<open>t\<close>. The
  two updates load a byte and then compare-and-swap it; each is a step machine with one step per
  atomic access, \<open>run_call\<close> of it is the call without interference, and the step relation
  \<open>bitlock_step\<close> interleaves any number of threads that use bits of a bitmap as locks, as the
  worker slots and the lock registry do.
\<close>

unbundle bit_operations_syntax

section \<open>The searches under interference\<close>

type_synonym history = "nat \<Rightarrow> byte list"

function ascan_words ::
  "('a::len word \<Rightarrow> 'a word) \<Rightarrow> nat \<Rightarrow> history \<Rightarrow> nat \<Rightarrow> nat \<Rightarrow> nat \<Rightarrow> (scan \<times> nat) ub" where
  "ascan_words tr k h t len i =
     (if k \<noteq> 0 \<and> i + k < len then do {
        chunk \<leftarrow> load_le k (h t) i;
        (if tr chunk \<noteq> 0
         then do { z \<leftarrow> builtin_ctz (tr chunk); Some (Found (bitidx_cast (i * 8 + z)), t + 1) }
         else ascan_words tr k h (t + 1) len (i + k)) }
      else Some (Fall i, t))"
  by pat_completeness auto
termination
  by (relation "measure (\<lambda>(tr, k, h, t, len, i). len - i)") auto

function ascan_bytes :: "(byte \<Rightarrow> byte) \<Rightarrow> history \<Rightarrow> nat \<Rightarrow> nat \<Rightarrow> nat \<Rightarrow> bitidx ub" where
  "ascan_bytes tr h t len i =
     (if i < len then do {
        chunk \<leftarrow> load8 (h t) i;
        (if tr chunk \<noteq> 0
         then do { z \<leftarrow> builtin_ctz (tr chunk); Some (bitidx_cast (i * 8 + z)) }
         else ascan_bytes tr h (t + 1) len (i + 1)) }
      else Some (-1))"
  by pat_completeness auto
termination
  by (relation "measure (\<lambda>(tr, h, t, len, i). len - i)") auto

declare ascan_words.simps [simp del] ascan_bytes.simps [simp del]

definition ascan_rest ::
  "(64 word \<Rightarrow> 64 word) \<Rightarrow> (32 word \<Rightarrow> 32 word) \<Rightarrow> (16 word \<Rightarrow> 16 word) \<Rightarrow> (byte \<Rightarrow> byte)
     \<Rightarrow> history \<Rightarrow> nat \<Rightarrow> nat \<Rightarrow> nat \<Rightarrow> bitidx ub" where
  "ascan_rest tr64 tr32 tr16 tr8 h t len i = do {
     r8 \<leftarrow> ascan_words tr64 8 h t len i;
     (case r8 of (Found x, _) \<Rightarrow> Some x | (Fall i, t) \<Rightarrow> do {
       r4 \<leftarrow> ascan_words tr32 4 h t len i;
       (case r4 of (Found x, _) \<Rightarrow> Some x | (Fall i, t) \<Rightarrow> do {
         r2 \<leftarrow> ascan_words tr16 2 h t len i;
         (case r2 of (Found x, _) \<Rightarrow> Some x | (Fall i, t) \<Rightarrow> ascan_bytes tr8 h t len i) }) }) }"

definition mcmpAtomicBitmapNextAvaibleBit :: "history \<Rightarrow> bitidx \<Rightarrow> nat \<Rightarrow> bitidx ub" where
  "mcmpAtomicBitmapNextAvaibleBit h offset len =
     (let i = size_cast (offset sdiv 8) in
      if i \<ge> len then Some (-1)
      else do {
        chunk \<leftarrow> load8 (h 0) i;
        m \<leftarrow> c_shl1 (u8_cast (offset smod 8));
        let inverted = (word_of_int (NOT (uint chunk OR (m - 1))) :: byte);
        (if inverted \<noteq> 0
         then do { z \<leftarrow> builtin_ctz (ucast inverted :: 64 word); Some (bitidx_cast (i * 8 + z)) }
         else ascan_rest NOT NOT NOT NOT h 1 len (i + 1)) })"

definition mcmpAtomicBitmapNextOccupiedBit :: "history \<Rightarrow> bitidx \<Rightarrow> nat \<Rightarrow> bitidx ub" where
  "mcmpAtomicBitmapNextOccupiedBit h offset len =
     (let i = size_cast (offset sdiv 8) in
      if i \<ge> len then Some (-1)
      else do {
        b \<leftarrow> load8 (h 0) i;
        m \<leftarrow> c_shl1 (u8_cast (offset smod 8));
        let chunk = (word_of_int (uint b AND NOT (m - 1)) :: byte);
        (if chunk \<noteq> 0
         then do { z \<leftarrow> builtin_ctz (ucast chunk :: 32 word); Some (bitidx_cast (i * 8 + z)) }
         else ascan_rest id id id id h 1 len (i + 1)) })"

definition mcmpAtomicBitmapIsEnabledBit :: "byte list \<Rightarrow> bitidx \<Rightarrow> bool ub" where
  "mcmpAtomicBitmapIsEnabledBit bitmap idx = do {
     byte \<leftarrow> load_at bitmap (idx sdiv 8);
     m \<leftarrow> c_shl1 (u8_cast (idx smod 8));
     Some (uint byte AND m \<noteq> 0) }"

definition mcmpAtomicBitmapIsDisabledBit :: "byte list \<Rightarrow> bitidx \<Rightarrow> bool ub" where
  "mcmpAtomicBitmapIsDisabledBit bitmap idx = do {
     byte \<leftarrow> load_at bitmap (idx sdiv 8);
     m \<leftarrow> c_shl1 (u8_cast (idx smod 8));
     Some (uint byte AND m = 0) }"

section \<open>What a search has seen\<close>

text \<open>
  \<open>obs\<close> is an observation of a changing bitmap: for every bit, the value it had at some moment.
  The search returns the linear search of an observation.
\<close>

definition observation :: "(bool \<Rightarrow> bool) \<Rightarrow> history \<Rightarrow> (nat \<Rightarrow> bool) \<Rightarrow> bool" where
  "observation pol h obs \<longleftrightarrow> (\<forall>j. \<exists>t. obs j = pol (bm_bit (h t) j))"

lemma observation_at: "observation pol h (\<lambda>j. pol (bm_bit (h t) j))"
  by (auto simp: observation_def)

definition join_at :: "nat \<Rightarrow> (nat \<Rightarrow> bool) \<Rightarrow> (nat \<Rightarrow> bool) \<Rightarrow> nat \<Rightarrow> bool" where
  "join_at m f g j = (if j < m then f j else g j)"

lemma observation_join:
  "observation pol h f \<Longrightarrow> observation pol h g \<Longrightarrow> observation pol h (join_at m f g)"
  by (auto simp: observation_def join_at_def)

lemma find_join_low: "b \<le> m \<Longrightarrow> find (join_at m f g) [a..<b] = find f [a..<b]"
  and find_join_high: "m \<le> a \<Longrightarrow> find (join_at m f g) [a..<b] = find g [a..<b]"
  by (rule find_cong; auto simp: join_at_def)+

lemma scan_ok_join:
  assumes "scan_ok g len m r" "i \<le> m" "m \<le> len" "find f [8 * i..<8 * m] = None"
  shows "scan_ok (join_at (8 * m) f g) len i r"
proof (rule scan_ok_extend [where m = m])
  show "scan_ok (join_at (8 * m) f g) len m r"
    using assms(1) by (auto simp: scan_ok_def find_join_high split: scan.splits)
  show "find (join_at (8 * m) f g) [8 * i..<8 * m] = None"
    using assms(4) by (simp add: find_join_low)
qed (use assms in auto)

lemma first_hit_join:
  assumes "find f [off..<8 * m] = None" "off \<le> 8 * m" "m \<le> len"
  shows "first_hit (join_at (8 * m) f g) off len = first_hit g (8 * m) len"
  using assms find_upt_split [of off "8 * m" "8 * len" "join_at (8 * m) f g"]
  by (simp add: first_hit_def find_join_low find_join_high)

lemma ascan_words_ok:
  fixes tr :: "'a::len word \<Rightarrow> 'a word"
  assumes width: "LENGTH('a) = 8 * k"
    and tr: "\<And>w n. n < LENGTH('a) \<Longrightarrow> bit (tr w) n \<longleftrightarrow> pol (bit w n)"
    and h: "\<And>t. len \<le> length (h t)" and len: "8 * len \<le> 2 ^ 63" and "i \<le> len"
  shows "\<exists>r t' obs. ascan_words tr k h t len i = Some (r, t') \<and> observation pol h obs \<and> scan_ok obs len i r"
  using assms(5)
proof (induction "len - i" arbitrary: i t rule: less_induct)
  case less
  let ?P = "\<lambda>j. pol (bm_bit (h t) j)"
  show ?case
  proof (cases "k \<noteq> 0 \<and> i + k < len")
    case False
    then have "ascan_words tr k h t len i = Some (Fall i, t)"
      by (subst ascan_words.simps) auto
    moreover have "scan_ok ?P len i (Fall i)" using less.prems by (simp add: scan_ok_def)
    ultimately show ?thesis using observation_at by blast
  next
    case True
    let ?w = "tr (le_word (take k (drop i (h t))))"
    have ik: "i + k \<le> length (h t)" using h [of t] True by linarith
    have eq: "ascan_words tr k h t len i =
        (if ?w \<noteq> 0 then do { z \<leftarrow> builtin_ctz ?w; Some (Found (bitidx_cast (i * 8 + z)), t + 1) }
         else ascan_words tr k h (t + 1) len (i + k))"
      using True ik by (subst ascan_words.simps) (simp add: mem_simps)
    have bits: "bit ?w n \<longleftrightarrow> ?P (8 * i + n)" if "n < LENGTH('a)" for n
      using that ik width by (simp add: tr bit_chunk)
    show ?thesis
    proof (cases "?w = 0")
      case False
      then obtain z where z: "builtin_ctz ?w = Some z" "z < LENGTH('a)"
        and hit: "find ?P [8 * i..<8 * i + LENGTH('a)] = Some (8 * i + z)"
        using find_word_hit [of ?w ?P "8 * i", OF bits] by blast
      have "i * 8 + z < 2 ^ 63" using True len width z(2) by linarith
      then have "ascan_words tr k h t len i = Some (Found (int (8 * i + z)), t + 1)"
        using False z by (simp add: eq mult.commute)
      moreover have "scan_ok ?P len i (Found (int (8 * i + z)))"
        using hit find_upt_split [of "8 * i" "8 * i + LENGTH('a)" "8 * len" ?P] True width
        by (auto simp: scan_ok_def)
      ultimately show ?thesis using observation_at by blast
    next
      case zero: True
      have miss: "find ?P [8 * i..<8 * (i + k)] = None"
        using find_word_miss [of ?w ?P "8 * i", OF bits zero] width by (simp add: add_mult_distrib2)
      obtain r t' obs where r: "ascan_words tr k h (t + 1) len (i + k) = Some (r, t')"
          "observation pol h obs" "scan_ok obs len (i + k) r"
        using less.hyps [of "i + k" "t + 1"] True diff_less_mono2 [of i "i + k" len]
        by (auto simp: less_imp_le)
      have "scan_ok (join_at (8 * (i + k)) ?P obs) len i r"
        using scan_ok_join [OF r(3), of i ?P] miss True by simp
      moreover have "ascan_words tr k h t len i = Some (r, t')"
        using zero r(1) by (simp add: eq)
      ultimately show ?thesis using observation_join [OF observation_at r(2)] by blast
    qed
  qed
qed

lemma ascan_bytes_ok:
  assumes tr: "\<And>(w :: byte) n. n < 8 \<Longrightarrow> bit (tr w) n \<longleftrightarrow> pol (bit w n)"
    and h: "\<And>t. len \<le> length (h t)" and len: "8 * len \<le> 2 ^ 63" and "i \<le> len"
  shows "\<exists>obs. observation pol h obs \<and> ascan_bytes tr h t len i = Some (first_hit obs (8 * i) len)"
  using assms(4)
proof (induction "len - i" arbitrary: i t rule: less_induct)
  case less
  let ?P = "\<lambda>j. pol (bm_bit (h t) j)"
  show ?case
  proof (cases "i < len")
    case False
    then show ?thesis
      by (subst ascan_bytes.simps) (auto simp: first_hit_def intro: observation_at)
  next
    case True
    let ?w = "tr (h t ! i)"
    have eq: "ascan_bytes tr h t len i =
        (if ?w \<noteq> 0 then do { z \<leftarrow> builtin_ctz ?w; Some (bitidx_cast (i * 8 + z)) }
         else ascan_bytes tr h (t + 1) len (i + 1))"
      using True less_le_trans [OF True h [of t]] by (subst ascan_bytes.simps) (simp add: mem_simps)
    have bits: "bit ?w n \<longleftrightarrow> ?P (8 * i + n)" if "n < LENGTH(8)" for n
      using that by (simp add: tr bm_bit_def)
    show ?thesis
    proof (cases "?w = 0")
      case False
      then obtain z where z: "builtin_ctz ?w = Some z" "z < LENGTH(8)"
        and hit: "find ?P [8 * i..<8 * i + LENGTH(8)] = Some (8 * i + z)"
        using find_word_hit [of ?w ?P "8 * i", OF bits] by blast
      have "i * 8 + z < 2 ^ 63" using True len z(2) by simp
      then have "ascan_bytes tr h t len i = Some (int (8 * i + z))"
        using False z by (simp add: eq mult.commute)
      moreover have "first_hit ?P (8 * i) len = int (8 * i + z)"
        using hit find_upt_split [of "8 * i" "8 * i + LENGTH(8)" "8 * len" ?P] True
        by (simp add: first_hit_def)
      ultimately show ?thesis using observation_at [of pol h t] by metis
    next
      case zero: True
      have miss: "find ?P [8 * i..<8 * (i + 1)] = None"
        using find_word_miss [of ?w ?P "8 * i", OF bits zero]
        by (simp only: distrib_left mult_1_right len8)
      obtain obs where obs: "observation pol h obs"
          "ascan_bytes tr h (t + 1) len (i + 1) = Some (first_hit obs (8 * (i + 1)) len)"
        using less.hyps [of "i + 1" "t + 1"] True diff_less_mono2 [of i "i + 1" len]
        by (auto simp: Suc_le_eq)
      have "ascan_bytes tr h t len i = Some (first_hit (join_at (8 * (i + 1)) ?P obs) (8 * i) len)"
        using zero True obs(2) first_hit_join [OF miss, of len obs] by (simp add: eq)
      then show ?thesis using observation_join [OF observation_at obs(1)] by blast
    qed
  qed
qed

text \<open>After a loop that fell through, an observation of the rest extends to the whole.\<close>

lemma fall_then:
  assumes "observation pol h f" "scan_ok f len i (Fall m)"
    and "\<exists>obs. observation pol h obs \<and> v = first_hit obs (8 * m) len"
  shows "\<exists>obs. observation pol h obs \<and> v = first_hit obs (8 * i) len"
proof -
  from assms(3) obtain g where g: "observation pol h g" "v = first_hit g (8 * m) len" by blast
  from assms(2) have "v = first_hit (join_at (8 * m) f g) (8 * i) len"
    using first_hit_join [of f "8 * i" m len g] g(2) by (simp add: scan_ok_def)
  then show ?thesis using observation_join [OF assms(1) g(1)] by blast
qed

lemma found_now:
  "observation pol h f \<Longrightarrow> scan_ok f len i (Found x) \<Longrightarrow> \<exists>obs. observation pol h obs \<and> x = first_hit obs (8 * i) len"
  by (auto simp: scan_ok_def first_hit_def intro!: exI [of _ f])

lemma ascan_rest_ok:
  assumes t64: "\<And>w n. n < 64 \<Longrightarrow> bit (tr64 w) n \<longleftrightarrow> pol (bit w n)"
    and t32: "\<And>w n. n < 32 \<Longrightarrow> bit (tr32 w) n \<longleftrightarrow> pol (bit w n)"
    and t16: "\<And>w n. n < 16 \<Longrightarrow> bit (tr16 w) n \<longleftrightarrow> pol (bit w n)"
    and t8: "\<And>w n. n < 8 \<Longrightarrow> bit (tr8 w) n \<longleftrightarrow> pol (bit w n)"
    and h: "\<And>t. len \<le> length (h t)" and len: "8 * len \<le> 2 ^ 63" and i: "i \<le> len"
  shows "\<exists>v obs. ascan_rest tr64 tr32 tr16 tr8 h t len i = Some v
           \<and> observation pol h obs \<and> v = first_hit obs (8 * i) len"
proof -
  have le: "m \<le> len" if "scan_ok f len j (Fall m)" for f j m
    using that by (simp add: scan_ok_def)
  obtain r8 t8' f8 where r8: "ascan_words tr64 8 h t len i = Some (r8, t8')"
      "observation pol h f8" "scan_ok f8 len i r8"
    using ascan_words_ok [of 8 tr64 pol len h i t, OF _ t64 h len i] by auto
  show ?thesis
  proof (cases r8)
    case (Found x)
    then show ?thesis using r8 found_now [of pol h f8 len i x] by (simp add: ascan_rest_def)
  next
    case i8: (Fall i8)
    obtain r4 t4' f4 where r4: "ascan_words tr32 4 h t8' len i8 = Some (r4, t4')"
        "observation pol h f4" "scan_ok f4 len i8 r4"
      using ascan_words_ok [of 4 tr32 pol len h i8 t8', OF _ t32 h len] le r8 i8 by auto
    show ?thesis
    proof (cases r4)
      case (Found x)
      then show ?thesis
        using r8 i8 r4 fall_then [of pol h f8 len i i8 x] found_now [of pol h f4 len i8 x]
        by (simp add: ascan_rest_def)
    next
      case i4: (Fall i4)
      obtain r2 t2' f2 where r2: "ascan_words tr16 2 h t4' len i4 = Some (r2, t2')"
          "observation pol h f2" "scan_ok f2 len i4 r2"
        using ascan_words_ok [of 2 tr16 pol len h i4 t4', OF _ t16 h len] le r4 i4 by auto
      have step: "\<exists>obs. observation pol h obs \<and> v = first_hit obs (8 * i) len"
        if "\<exists>obs. observation pol h obs \<and> v = first_hit obs (8 * i4) len" for v
        using that r8 i8 r4 i4 by (intro fall_then [of pol h f8 len i i8] fall_then [of pol h f4 len i8 i4]) auto
      show ?thesis
      proof (cases r2)
        case (Found x)
        then show ?thesis using r8 i8 r4 i4 r2 step [of x] found_now [of pol h f2 len i4 x]
          by (simp add: ascan_rest_def)
      next
        case i2: (Fall i2)
        obtain v obs where v: "ascan_bytes tr8 h t2' len i2 = Some v"
            "observation pol h obs" "v = first_hit obs (8 * i2) len"
          using ascan_bytes_ok [of tr8 pol len h i2 t2', OF t8 h len] le r2 i2 by auto
        then have "\<exists>obs. observation pol h obs \<and> v = first_hit obs (8 * i) len"
          using step fall_then [of pol h f2 len i4 i2 v] r2 i2 by blast
        then show ?thesis using r8 i8 r4 i4 r2 i2 v(1) by (simp add: ascan_rest_def)
      qed
    qed
  qed
qed

text \<open>The first byte of either search: \<open>w\<close> holds its hits from the offset on.\<close>

lemma atomic_search_ok:
  fixes w :: byte
  assumes off: "off div 8 < len" and len: "8 * len \<le> 2 ^ 63"
    and w: "\<And>n. n < 8 \<Longrightarrow> bit w n \<longleftrightarrow> off mod 8 \<le> n \<and> pol (bm_bit (h 0) (8 * (off div 8) + n))"
    and res: "res = (if w \<noteq> 0 then map_option (\<lambda>z. bitidx_cast (off div 8 * 8 + z)) (builtin_ctz w) else rest)"
    and rest: "\<exists>v obs. rest = Some v \<and> observation pol h obs \<and> v = first_hit obs (8 * (off div 8 + 1)) len"
  shows "\<exists>v obs. res = Some v \<and> observation pol h obs \<and> v = first_hit obs off len"
proof -
  let ?P = "\<lambda>j. pol (bm_bit (h 0) j)"
  show ?thesis
  proof (cases "builtin_ctz w")
    case None
    then have "w = 0" by (simp add: builtin_ctz_eq_None)
    obtain v g where g: "rest = Some v" "observation pol h g" "v = first_hit g (8 * (off div 8 + 1)) len"
      using rest by blast
    have "first_hit (join_at (8 * (off div 8 + 1)) ?P g) off len = v"
    proof -
      have "first_hit (join_at (8 * (off div 8 + 1)) ?P g) off len
          = first_hit (join_at (8 * (off div 8 + 1)) ?P g) (8 * (off div 8 + 1)) len"
        using first_hit_first_byte [OF off, of w "join_at (8 * (off div 8 + 1)) ?P g"] w None
        by (simp add: join_at_def)
      then show ?thesis using g(3) by (simp add: first_hit_def find_join_high)
    qed
    then show ?thesis
      using g(1) \<open>w = 0\<close> observation_join [OF observation_at g(2)] res by auto
  next
    case (Some z)
    then have "z < 8" and "w \<noteq> 0"
      using builtin_ctz_eq_None [of w] by (auto simp: builtin_ctz_def find_upt_Some)
    have "off div 8 * 8 + z < 2 ^ 63" using off len \<open>z < 8\<close> by linarith
    then have "res = Some (first_hit ?P off len)"
      using Some \<open>w \<noteq> 0\<close> first_hit_first_byte [OF off, of w ?P] w res by (simp add: mult.commute)
    then show ?thesis using observation_at by blast
  qed
qed

lemma builtin_ctz_ucast:
  fixes w :: byte
  assumes "8 \<le> LENGTH('a::len)" and "w \<noteq> 0"
  shows "builtin_ctz (ucast w :: 'a word) = builtin_ctz w"
proof -
  obtain z where z: "builtin_ctz w = Some z" using assms(2) builtin_ctz_eq_None [of w] by (cases "builtin_ctz w") auto
  then have "builtin_ctz (ucast w :: 'a word) = Some z" using assms(1)
    by (auto simp: builtin_ctz_def find_upt_Some bit_ucast_iff)
  then show ?thesis using z by simp
qed

lemma atomic_next_available_ok:
  assumes "\<And>t. len \<le> length (h t)" "8 * len \<le> 2 ^ 63" "off < 2 ^ 63"
  shows "\<exists>v obs. mcmpAtomicBitmapNextAvaibleBit h (int off) len = Some v
           \<and> (\<forall>j. \<exists>t. obs j \<longleftrightarrow> \<not> bm_bit (h t) j) \<and> v = first_hit obs off len"
proof (cases "off div 8 < len")
  case False
  then have "8 * len \<le> off" by auto
  with False show ?thesis
    using search_start [OF assms(3)]
    by (auto simp: mcmpAtomicBitmapNextAvaibleBit_def first_hit_def intro!: exI [of _ "\<lambda>j. \<not> bm_bit (h 0) j"])
next
  case True
  let ?w = "word_of_int (NOT (uint (h 0 ! (off div 8)) OR (2 ^ (off mod 8) - 1))) :: byte"
  let ?rest = "ascan_rest NOT NOT NOT NOT h 1 len (off div 8 + 1)"
  have res: "mcmpAtomicBitmapNextAvaibleBit h (int off) len
      = (if ?w \<noteq> 0 then map_option (\<lambda>z. bitidx_cast (off div 8 * 8 + z)) (builtin_ctz ?w) else ?rest)"
    using True search_start [OF assms(3)] less_le_trans [OF True assms(1) [of 0]]
    by (simp add: mcmpAtomicBitmapNextAvaibleBit_def mem_simps Let_def builtin_ctz_ucast bind_Some_map)
  have rest: "\<exists>v obs. ?rest = Some v \<and> observation Not h obs \<and> v = first_hit obs (8 * (off div 8 + 1)) len"
    using True assms by (intro ascan_rest_ok) (auto simp: bit_not_iff)
  have w: "bit ?w n \<longleftrightarrow> off mod 8 \<le> n \<and> Not (bm_bit (h 0) (8 * (off div 8) + n))" if "n < 8" for n
    using that by (auto simp: bit_simps bit_int_low_mask bm_bit_def)
  show ?thesis
    using atomic_search_ok [OF True assms(2) w res rest] by (simp add: observation_def)
qed

text \<open>
  C15: Under any interference that keeps the size of the bitmap, the atomic search for a free bit returns the first
  clear bit of an observation of the bitmap, in which every bit has a value it really had during the search:
  a returned bit was free at some moment, every bit before it was taken at some moment, and -1 means that every bit was.
\<close>

theorem atomic_next_available_observes:
  assumes "\<And>t. len \<le> length (h t)" "8 * len \<le> 2 ^ 63" "off < 2 ^ 63"
  shows "\<exists>v obs. mcmpAtomicBitmapNextAvaibleBit h (int off) len = Some v
           \<and> (\<forall>j. \<exists>t. obs j \<longleftrightarrow> \<not> bm_bit (h t) j) \<and> v = first_hit obs off len"
  by (rule atomic_next_available_ok [OF assms])

lemma atomic_next_occupied_ok:
  assumes "\<And>t. len \<le> length (h t)" "8 * len \<le> 2 ^ 63" "off < 2 ^ 63"
  shows "\<exists>v obs. mcmpAtomicBitmapNextOccupiedBit h (int off) len = Some v
           \<and> (\<forall>j. \<exists>t. obs j \<longleftrightarrow> bm_bit (h t) j) \<and> v = first_hit obs off len"
proof (cases "off div 8 < len")
  case False
  then have "8 * len \<le> off" by auto
  with False show ?thesis
    using search_start [OF assms(3)]
    by (auto simp: mcmpAtomicBitmapNextOccupiedBit_def first_hit_def intro!: exI [of _ "\<lambda>j. bm_bit (h 0) j"])
next
  case True
  let ?w = "word_of_int (uint (h 0 ! (off div 8)) AND NOT (2 ^ (off mod 8) - 1)) :: byte"
  let ?rest = "ascan_rest id id id id h 1 len (off div 8 + 1)"
  have res: "mcmpAtomicBitmapNextOccupiedBit h (int off) len
      = (if ?w \<noteq> 0 then map_option (\<lambda>z. bitidx_cast (off div 8 * 8 + z)) (builtin_ctz ?w) else ?rest)"
    using True search_start [OF assms(3)] less_le_trans [OF True assms(1) [of 0]]
    by (simp add: mcmpAtomicBitmapNextOccupiedBit_def mem_simps Let_def builtin_ctz_ucast bind_Some_map)
  have rest: "\<exists>v obs. ?rest = Some v \<and> observation (\<lambda>b. b) h obs \<and> v = first_hit obs (8 * (off div 8 + 1)) len"
    using True assms by (intro ascan_rest_ok) auto
  have w: "bit ?w n \<longleftrightarrow> off mod 8 \<le> n \<and> bm_bit (h 0) (8 * (off div 8) + n)" if "n < 8" for n
    using that by (auto simp: bit_simps bit_int_low_mask bm_bit_def)
  show ?thesis
    using atomic_search_ok [OF True assms(2) w res rest] by (simp add: observation_def)
qed

text \<open>
  The atomic search for a set bit gives the same guarantee under interference: it returns the first set bit of an
  observation of the bitmap.
\<close>

lemma atomic_next_occupied_observes:
  assumes "\<And>t. len \<le> length (h t)" "8 * len \<le> 2 ^ 63" "off < 2 ^ 63"
  shows "\<exists>v obs. mcmpAtomicBitmapNextOccupiedBit h (int off) len = Some v
           \<and> (\<forall>j. \<exists>t. obs j \<longleftrightarrow> bm_bit (h t) j) \<and> v = first_hit obs off len"
  by (rule atomic_next_occupied_ok [OF assms])

text \<open>Without interference the observation is the bitmap itself.\<close>

lemma atomic_next_available_alone:
  assumes "len \<le> length bm" "8 * len \<le> 2 ^ 63" "off < 2 ^ 63"
  shows "mcmpAtomicBitmapNextAvaibleBit (\<lambda>_. bm) (int off) len = Some (next_bit_spec Not bm off len)"
proof -
  obtain v obs where "mcmpAtomicBitmapNextAvaibleBit (\<lambda>_. bm) (int off) len = Some v"
      "\<forall>j. obs j \<longleftrightarrow> \<not> bm_bit bm j" "v = first_hit obs off len"
    using atomic_next_available_ok [of len "\<lambda>_. bm" off, OF assms] by auto
  then show ?thesis
    using ext [of obs "\<lambda>j. \<not> bm_bit bm j"] by (simp add: next_bit_spec_def)
qed

lemma atomic_next_occupied_alone:
  assumes "len \<le> length bm" "8 * len \<le> 2 ^ 63" "off < 2 ^ 63"
  shows "mcmpAtomicBitmapNextOccupiedBit (\<lambda>_. bm) (int off) len = Some (next_bit_spec (\<lambda>b. b) bm off len)"
proof -
  obtain v obs where "mcmpAtomicBitmapNextOccupiedBit (\<lambda>_. bm) (int off) len = Some v"
      "\<forall>j. obs j \<longleftrightarrow> bm_bit bm j" "v = first_hit obs off len"
    using atomic_next_occupied_ok [of len "\<lambda>_. bm" off, OF assms] by auto
  then show ?thesis
    using ext [of obs "\<lambda>j. bm_bit bm j"] by (simp add: next_bit_spec_def)
qed

text \<open>A bitmap whose first byte is taken when it is read and whose second byte another thread frees later.\<close>

theorem atomic_next_available_observes_witness:
  "\<exists>v obs. mcmpAtomicBitmapNextAvaibleBit (\<lambda>t. if t = 0 then [255, 255] else [0, 254]) (int 0) 2 = Some v
     \<and> (\<forall>j. \<exists>t::nat. obs j \<longleftrightarrow> \<not> bm_bit ((if t = 0 then [255, 255] else [0, 254]) :: byte list) j)
     \<and> v = first_hit obs 0 2"
  by (rule atomic_next_available_observes) simp_all

lemma atomic_next_occupied_observes_witness:
  "\<exists>v obs. mcmpAtomicBitmapNextOccupiedBit (\<lambda>t. if t = 0 then [0, 0] else [1, 8]) (int 0) 2 = Some v
     \<and> (\<forall>j. \<exists>t::nat. obs j \<longleftrightarrow> bm_bit ((if t = 0 then [0, 0] else [1, 8]) :: byte list) j)
     \<and> v = first_hit obs 0 2"
  by (rule atomic_next_occupied_observes) simp_all

section \<open>The updates\<close>

text \<open>
  An update's program counter: about to load the byte, about to compare-and-swap it (with the
  byte it has loaded), or returned.
\<close>

datatype bitop_pc = BLoad bitidx | BCas bitidx byte | BDone mcmpst

fun bitop_result :: "bitop_pc \<Rightarrow> mcmpst option" where
  "bitop_result (BDone st) = Some st"
| "bitop_result _ = None"

text \<open>\<^verbatim>\<open>__atomic_compare_exchange_n\<close> on the byte at \<open>a\<close>: whether it swapped, and the new memory.\<close>

definition cas8 :: "byte list \<Rightarrow> int \<Rightarrow> byte \<Rightarrow> byte \<Rightarrow> (byte list \<times> bool) ub" where
  "cas8 m a expected desired = do {
     b \<leftarrow> load_at m a;
     (if b = expected then do { m' \<leftarrow> store_at m a desired; Some (m', True) } else Some (m, False)) }"

fun try_enable_step :: "byte list \<Rightarrow> bitop_pc \<Rightarrow> (byte list \<times> bitop_pc) ub" where
  "try_enable_step bitmap (BLoad idx) = do {
     m \<leftarrow> c_shl1 (u8_cast (idx smod 8));
     let mask = (word_of_int m :: byte);
     byteval \<leftarrow> load_at bitmap (idx sdiv 8);
     Some (bitmap, if byteval AND mask \<noteq> 0 then BDone MCMPST_ALROP else BCas idx byteval) }"
| "try_enable_step bitmap (BCas idx byteval) = do {
     m \<leftarrow> c_shl1 (u8_cast (idx smod 8));
     let mask = (word_of_int m :: byte);
     (bitmap', ok) \<leftarrow> cas8 bitmap (idx sdiv 8) byteval (byteval OR mask);
     Some (bitmap', BDone (if ok then MCMPST_SUCCESS else MCMPST_INVOP)) }"
| "try_enable_step bitmap (BDone st) = Some (bitmap, BDone st)"

text \<open>
  \<^verbatim>\<open>mcmpAtomicBitmapTryDisableBit\<close> tests \<^verbatim>\<open>(byteval | (1 << bitidx)) == 0\<close>, with an or where an and
  was meant.
\<close>

fun try_disable_step :: "byte list \<Rightarrow> bitop_pc \<Rightarrow> (byte list \<times> bitop_pc) ub" where
  "try_disable_step bitmap (BLoad idx) = do {
     m \<leftarrow> c_shl1 (u8_cast (idx smod 8));
     byteval \<leftarrow> load_at bitmap (idx sdiv 8);
     Some (bitmap, if uint byteval OR m = 0 then BDone MCMPST_ALROP else BCas idx byteval) }"
| "try_disable_step bitmap (BCas idx byteval) = do {
     m \<leftarrow> c_shl1 (u8_cast (idx smod 8));
     let mask = (word_of_int (NOT m) :: byte);
     (bitmap', ok) \<leftarrow> cas8 bitmap (idx sdiv 8) byteval (byteval AND mask);
     Some (bitmap', BDone (if ok then MCMPST_SUCCESS else MCMPST_INVOP)) }"
| "try_disable_step bitmap (BDone st) = Some (bitmap, BDone st)"

definition mcmpAtomicBitmapTryEnableBit :: "byte list \<Rightarrow> bitidx \<Rightarrow> (byte list \<times> mcmpst) ub" where
  "mcmpAtomicBitmapTryEnableBit bitmap idx = run_call try_enable_step bitop_result bitmap (BLoad idx)"

definition mcmpAtomicBitmapTryDisableBit :: "byte list \<Rightarrow> bitidx \<Rightarrow> (byte list \<times> mcmpst) ub" where
  "mcmpAtomicBitmapTryDisableBit bitmap idx = run_call try_disable_step bitop_result bitmap (BLoad idx)"

lemma and_exp_byte: "r < 8 \<Longrightarrow> b AND (2 ^ r) = 0 \<longleftrightarrow> \<not> bit b r" for b :: byte
  by (subst bit_eq_iff) (auto simp: bit_and_iff bit_exp_iff dest!: spec [where x = r])

lemma bit_or_exp_byte: "r < 8 \<Longrightarrow> bit (b OR 2 ^ r) n \<longleftrightarrow> (if n = r then True else bit b n)" for b :: byte
  by (auto simp: bit_or_iff bit_exp_iff)

lemma bit_and_not_exp_byte:
  "bit (b AND word_of_int (NOT (2 ^ r))) n \<longleftrightarrow> (if n = r then False else bit b n)" for b :: byte
  by (auto simp: bit_simps dest: bit_imp_le_length)

lemma cas8_nat:
  "k div 8 < length bm \<Longrightarrow> cas8 bm (int (k div 8)) e d =
     (if bm ! (k div 8) = e then Some (bm[k div 8 := d], True) else Some (bm, False))"
  by (simp add: cas8_def mem_simps)

text \<open>The steps on an index inside the bitmap.\<close>

lemma try_enable_steps:
  assumes "k < 8 * length bm"
  shows "try_enable_step bm (BLoad (int k)) =
      Some (bm, if bm_bit bm k then BDone MCMPST_ALROP else BCas (int k) (bm ! (k div 8)))"
    and "try_enable_step bm (BCas (int k) b) =
      (if bm ! (k div 8) = b
       then Some (bm[k div 8 := b OR 2 ^ (k mod 8)], BDone MCMPST_SUCCESS) else Some (bm, BDone MCMPST_INVOP))"
  using assms
  by (simp_all add: mem_simps byte_in_range and_exp_byte bm_bit_def cas8_nat Let_def)

lemma try_disable_steps:
  assumes "k < 8 * length bm"
  shows "try_disable_step bm (BLoad (int k)) = Some (bm, BCas (int k) (bm ! (k div 8)))"
    and "try_disable_step bm (BCas (int k) b) =
      (if bm ! (k div 8) = b
       then Some (bm[k div 8 := b AND word_of_int (NOT (2 ^ (k mod 8)))], BDone MCMPST_SUCCESS)
       else Some (bm, BDone MCMPST_INVOP))"
proof -
  have "uint (bm ! (k div 8)) OR 2 ^ (k mod 8) \<noteq> 0"
    using bit_or_iff [of "uint (bm ! (k div 8))" "2 ^ (k mod 8)" "k mod 8"]
    by (metis bit_0_eq bot_apply bot_bool_def bit_exp_iff possible_bit_int)
  then show "try_disable_step bm (BLoad (int k)) = Some (bm, BCas (int k) (bm ! (k div 8)))"
    using assms by (simp add: mem_simps byte_in_range)
qed (use assms in \<open>simp add: mem_simps byte_in_range cas8_nat Let_def\<close>)

lemma bm_bit_enabled:
  "k < 8 * length bm \<Longrightarrow> bm_bit (bm[k div 8 := bm ! (k div 8) OR 2 ^ (k mod 8)]) j \<longleftrightarrow> bm_bit bm j \<or> j = k"
  using bm_bit_update_one [of k bm "bm ! (k div 8) OR 2 ^ (k mod 8)" True j]
  by (auto simp: bit_or_exp_byte split: if_splits)

lemma bm_bit_disabled:
  "k < 8 * length bm \<Longrightarrow>
     bm_bit (bm[k div 8 := bm ! (k div 8) AND word_of_int (NOT (2 ^ (k mod 8)))]) j \<longleftrightarrow> bm_bit bm j \<and> j \<noteq> k"
  using bm_bit_update_one [of k bm "bm ! (k div 8) AND word_of_int (NOT (2 ^ (k mod 8)))" False j]
  by (auto simp: bit_and_not_exp_byte split: if_splits)

lemmas alone_simps = run_call_done run_call_step

lemma try_enable_ok:
  assumes "k < 8 * length bm"
  shows "\<exists>bm'. mcmpAtomicBitmapTryEnableBit bm (int k)
           = Some (bm', if bm_bit bm k then MCMPST_ALROP else MCMPST_SUCCESS)
         \<and> length bm' = length bm \<and> (\<forall>j. bm_bit bm' j \<longleftrightarrow> bm_bit bm j \<or> j = k)"
proof (cases "bm_bit bm k")
  case True
  then show ?thesis
    using try_enable_steps [OF assms]
    by (auto simp: mcmpAtomicBitmapTryEnableBit_def run_call.simps [of try_enable_step])
next
  case False
  then have "mcmpAtomicBitmapTryEnableBit bm (int k)
      = Some (bm[k div 8 := bm ! (k div 8) OR 2 ^ (k mod 8)], MCMPST_SUCCESS)"
    using try_enable_steps [OF assms]
    by (simp add: mcmpAtomicBitmapTryEnableBit_def run_call.simps [of try_enable_step])
  then show ?thesis using False bm_bit_enabled [OF assms] by simp
qed

text \<open>
  Without interference, trying to set a bit reports MCMPST_ALROP and changes nothing when the bit is set already,
  and otherwise sets exactly that bit and reports MCMPST_SUCCESS; it returns in either case.
\<close>

lemma try_enable_alone:
  assumes "k < 8 * length bm"
  shows "\<exists>bm'. mcmpAtomicBitmapTryEnableBit bm (int k)
           = Some (bm', if bm_bit bm k then MCMPST_ALROP else MCMPST_SUCCESS)
         \<and> length bm' = length bm \<and> (\<forall>j. bm_bit bm' j \<longleftrightarrow> bm_bit bm j \<or> j = k)"
  by (rule try_enable_ok [OF assms])

lemma try_disable_ok:
  assumes "k < 8 * length bm"
  shows "\<exists>bm'. mcmpAtomicBitmapTryDisableBit bm (int k) = Some (bm', MCMPST_SUCCESS)
         \<and> length bm' = length bm \<and> (\<forall>j. bm_bit bm' j \<longleftrightarrow> bm_bit bm j \<and> j \<noteq> k)"
proof -
  have "mcmpAtomicBitmapTryDisableBit bm (int k)
      = Some (bm[k div 8 := bm ! (k div 8) AND word_of_int (NOT (2 ^ (k mod 8)))], MCMPST_SUCCESS)"
    using try_disable_steps [OF assms]
    by (simp add: mcmpAtomicBitmapTryDisableBit_def run_call.simps [of try_disable_step])
  then show ?thesis using bm_bit_disabled [OF assms] by simp
qed

text \<open>
  Without interference, trying to clear a bit clears exactly that bit and reports MCMPST_SUCCESS, also when the bit
  was clear before: the status MCMPST_ALROP that its test is there for is never returned.
\<close>

lemma try_disable_alone:
  assumes "k < 8 * length bm"
  shows "\<exists>bm'. mcmpAtomicBitmapTryDisableBit bm (int k) = Some (bm', MCMPST_SUCCESS)
         \<and> length bm' = length bm \<and> (\<forall>j. bm_bit bm' j \<longleftrightarrow> bm_bit bm j \<and> j \<noteq> k)"
  by (rule try_disable_ok [OF assms])

lemma try_enable_alone_witness:
  "\<exists>bm'. mcmpAtomicBitmapTryEnableBit [0, 2] (int 10) = Some (bm', MCMPST_SUCCESS) \<and> bm_bit bm' 10"
proof -
  have "\<not> bm_bit [0, 2] 10" by (simp add: bm_bit_def)
  then show ?thesis using try_enable_alone [of 10 "[0, 2]"] by auto
qed

lemma try_disable_alone_witness:
  "\<exists>bm'. mcmpAtomicBitmapTryDisableBit [0, 2] (int 10) = Some (bm', MCMPST_SUCCESS)"
  using try_disable_alone [of 10 "[0, 2]"] by auto

end
