(* ===== verification/Bit_Lock.thy ===== *)
theory Bit_Lock
  imports Atomic_Bitmap
begin

text \<open>
  The bits of a shared bitmap as locks: what \<^verbatim>\<open>routines/src/linux/worker.c\<close> and \<^verbatim>\<open>lock.c\<close>
  build on \<^verbatim>\<open>atomicbitmap.c\<close>. Any number of threads claim bits with
  \<^verbatim>\<open>mcmpAtomicBitmapTryEnableBit\<close> and give them back with \<^verbatim>\<open>mcmpAtomicBitmapTryDisableBit\<close>,
  interleaved at every atomic access; bits of one byte interfere through the byte that both
  compare-and-swap. A thread that failed to claim gives up, one that failed to give back still
  holds the bit and may try again.
\<close>

datatype bl_thread =
    BIdle | BEnabling nat bitop_pc | BHolding nat | BDisabling nat bitop_pc

record bitlock =
  bl_bits :: "byte list"
  bl_threads :: "nat \<Rightarrow> bl_thread"

abbreviation bl_set :: "bitlock \<Rightarrow> nat \<Rightarrow> byte list \<Rightarrow> bl_thread \<Rightarrow> bitlock" where
  "bl_set s i b t \<equiv> s\<lparr>bl_bits := b, bl_threads := (bl_threads s)(i := t)\<rparr>"

inductive bitlock_move :: "nat \<Rightarrow> bitlock \<Rightarrow> bitlock \<Rightarrow> bool" for i where
  begin_enable: "bl_threads s i = BIdle \<Longrightarrow> k < 8 * length (bl_bits s) \<Longrightarrow>
     bitlock_move i s (bl_set s i (bl_bits s) (BEnabling k (BLoad (int k))))"
| run_enable: "bl_threads s i = BEnabling k p \<Longrightarrow> bitop_result p = None \<Longrightarrow>
     try_enable_step (bl_bits s) p = Some (b, p') \<Longrightarrow> bitlock_move i s (bl_set s i b (BEnabling k p'))"
| enabled: "bl_threads s i = BEnabling k (BDone MCMPST_SUCCESS) \<Longrightarrow>
     bitlock_move i s (bl_set s i (bl_bits s) (BHolding k))"
| not_enabled: "bl_threads s i = BEnabling k (BDone st) \<Longrightarrow> st \<noteq> MCMPST_SUCCESS \<Longrightarrow>
     bitlock_move i s (bl_set s i (bl_bits s) BIdle)"
| begin_disable: "bl_threads s i = BHolding k \<Longrightarrow>
     bitlock_move i s (bl_set s i (bl_bits s) (BDisabling k (BLoad (int k))))"
| run_disable: "bl_threads s i = BDisabling k p \<Longrightarrow> bitop_result p = None \<Longrightarrow>
     try_disable_step (bl_bits s) p = Some (b, p') \<Longrightarrow> bitlock_move i s (bl_set s i b (BDisabling k p'))"
| disabled: "bl_threads s i = BDisabling k (BDone MCMPST_SUCCESS) \<Longrightarrow>
     bitlock_move i s (bl_set s i (bl_bits s) BIdle)"
| not_disabled: "bl_threads s i = BDisabling k (BDone st) \<Longrightarrow> st \<noteq> MCMPST_SUCCESS \<Longrightarrow>
     bitlock_move i s (bl_set s i (bl_bits s) (BHolding k))"

definition bitlock_step :: "bitlock \<Rightarrow> bitlock \<Rightarrow> bool" where
  "bitlock_step s t \<longleftrightarrow> (\<exists>i. bitlock_move i s t)"

definition bitlock_init :: "bitlock \<Rightarrow> bool" where
  "bitlock_init s \<longleftrightarrow>
     (\<forall>k < 8 * length (bl_bits s). \<not> bm_bit (bl_bits s) k) \<and> bl_threads s = (\<lambda>_. BIdle)"

text \<open>A thread owns a bit from the swap that set it to the swap that clears it.\<close>

fun owns :: "bl_thread \<Rightarrow> nat \<Rightarrow> bool" where
  "owns BIdle k = False"
| "owns (BEnabling j p) k = (j = k \<and> p = BDone MCMPST_SUCCESS)"
| "owns (BHolding j) k = (j = k)"
| "owns (BDisabling j p) k = (j = k \<and> p \<noteq> BDone MCMPST_SUCCESS)"

fun pc_at :: "nat \<Rightarrow> bitop_pc \<Rightarrow> bool" where
  "pc_at k (BLoad x) = (x = int k)"
| "pc_at k (BCas x b) = (x = int k)"
| "pc_at k (BDone st) = True"

fun thread_ok :: "nat \<Rightarrow> bl_thread \<Rightarrow> bool" where
  "thread_ok n BIdle = True"
| "thread_ok n (BEnabling k p) =
     (k < n \<and> pc_at k p \<and> (case p of BCas _ b \<Rightarrow> \<not> bit b (k mod 8) | _ \<Rightarrow> True))"
| "thread_ok n (BHolding k) = (k < n)"
| "thread_ok n (BDisabling k p) = (k < n \<and> pc_at k p)"

definition bitlock_inv :: "bitlock \<Rightarrow> bool" where
  "bitlock_inv s \<longleftrightarrow>
     (\<forall>i. thread_ok (8 * length (bl_bits s)) (bl_threads s i)) \<and>
     (\<forall>k < 8 * length (bl_bits s). bm_bit (bl_bits s) k \<longleftrightarrow> (\<exists>i. owns (bl_threads s i) k)) \<and>
     (\<forall>i j k. owns (bl_threads s i) k \<and> owns (bl_threads s j) k \<longrightarrow> i = j)"

text \<open>
  Three ways a move keeps the invariant: it changes no ownership, it claims a bit that was clear,
  or it gives up a bit that it owned.
\<close>

lemma inv_same:
  assumes "bitlock_inv s" "thread_ok (8 * length (bl_bits s)) t"
    and "\<And>k. owns t k = owns (bl_threads s i) k"
  shows "bitlock_inv (bl_set s i (bl_bits s) t)"
  using assms unfolding bitlock_inv_def by (simp add: fun_upd_def) (metis (full_types))

lemma inv_claim:
  assumes "bitlock_inv s" "thread_ok (8 * length (bl_bits s)) t" "length b = length (bl_bits s)"
    and "k < 8 * length (bl_bits s)" "\<not> bm_bit (bl_bits s) k"
    and "\<And>j. bm_bit b j \<longleftrightarrow> bm_bit (bl_bits s) j \<or> j = k"
    and "\<And>j. owns t j \<longleftrightarrow> j = k" "\<And>j. \<not> owns (bl_threads s i) j"
  shows "bitlock_inv (bl_set s i b t)"
proof -
  have "\<not> owns (bl_threads s j) k" for j
    using assms(1,4,5) by (auto simp: bitlock_inv_def)
  then show ?thesis
    using assms unfolding bitlock_inv_def by (simp add: fun_upd_def) (metis (full_types))
qed

lemma inv_give:
  assumes "bitlock_inv s" "thread_ok (8 * length (bl_bits s)) t" "length b = length (bl_bits s)"
    and "\<And>j. bm_bit b j \<longleftrightarrow> bm_bit (bl_bits s) j \<and> j \<noteq> k"
    and "\<And>j. owns (bl_threads s i) j \<longleftrightarrow> j = k" "\<And>j. \<not> owns t j"
  shows "bitlock_inv (bl_set s i b t)"
  using assms unfolding bitlock_inv_def by (simp add: fun_upd_def) (metis (full_types))

lemma bitlock_inv_thread: "bitlock_inv s \<Longrightarrow> thread_ok (8 * length (bl_bits s)) (bl_threads s i)"
  by (simp add: bitlock_inv_def)

lemma run_enable_inv:
  assumes inv: "bitlock_inv s" and th: "bl_threads s i = BEnabling k p" and p: "bitop_result p = None"
    and step: "try_enable_step (bl_bits s) p = Some (b, p')"
  shows "bitlock_inv (bl_set s i b (BEnabling k p'))"
proof -
  note ok = bitlock_inv_thread [OF inv, of i, unfolded th]
  from ok have k: "k < 8 * length (bl_bits s)" by simp
  show ?thesis
  proof (cases p)
    case (BLoad x)
    with ok have x: "x = int k" by simp
    have b: "b = bl_bits s" and p': "p' = (if bm_bit (bl_bits s) k then BDone MCMPST_ALROP
        else BCas (int k) (bl_bits s ! (k div 8)))"
      using step BLoad x try_enable_steps(1) [OF k] by (auto simp del: try_enable_step.simps)
    have "bitlock_inv (bl_set s i (bl_bits s) (BEnabling k p'))"
      by (rule inv_same [OF inv]) (use k th BLoad in \<open>auto simp: p' bm_bit_def\<close>)
    with b show ?thesis by simp
  next
    case (BCas x e)
    with ok have x: "x = int k" and e: "\<not> bit e (k mod 8)" by simp_all
    show ?thesis
    proof (cases "bl_bits s ! (k div 8) = e")
      case True
      have b: "b = (bl_bits s)[k div 8 := bl_bits s ! (k div 8) OR 2 ^ (k mod 8)]" and p': "p' = BDone MCMPST_SUCCESS"
        using step BCas x True try_enable_steps(2) [OF k, of e] by (auto simp del: try_enable_step.simps)
      have free: "\<not> bm_bit (bl_bits s) k"
        using e True by (simp add: bm_bit_def)
      show ?thesis
        by (rule inv_claim [OF inv, where k = k])
           (use k th BCas free in \<open>auto simp: p' b bm_bit_enabled\<close>)
    next
      case False
      have b: "b = bl_bits s" and p': "p' = BDone MCMPST_INVOP"
        using step BCas x False try_enable_steps(2) [OF k, of e] by (auto simp del: try_enable_step.simps)
      have "bitlock_inv (bl_set s i (bl_bits s) (BEnabling k p'))"
        by (rule inv_same [OF inv]) (use k th BCas in \<open>auto simp: p'\<close>)
      with b show ?thesis by simp
    qed
  next
    case (BDone st)
    with p show ?thesis by simp
  qed
qed

lemma run_disable_inv:
  assumes inv: "bitlock_inv s" and th: "bl_threads s i = BDisabling k p" and p: "bitop_result p = None"
    and step: "try_disable_step (bl_bits s) p = Some (b, p')"
  shows "bitlock_inv (bl_set s i b (BDisabling k p'))"
proof -
  note ok = bitlock_inv_thread [OF inv, of i, unfolded th]
  from ok have k: "k < 8 * length (bl_bits s)" by simp
  show ?thesis
  proof (cases p)
    case (BLoad x)
    with ok have x: "x = int k" by simp
    have b: "b = bl_bits s" and p': "p' = BCas (int k) (bl_bits s ! (k div 8))"
      using step BLoad x try_disable_steps(1) [OF k] by (auto simp del: try_disable_step.simps)
    have "bitlock_inv (bl_set s i (bl_bits s) (BDisabling k p'))"
      by (rule inv_same [OF inv]) (use k th BLoad in \<open>auto simp: p'\<close>)
    with b show ?thesis by simp
  next
    case (BCas x e)
    with ok have x: "x = int k" by simp
    show ?thesis
    proof (cases "bl_bits s ! (k div 8) = e")
      case True
      have b: "b = (bl_bits s)[k div 8 := bl_bits s ! (k div 8) AND word_of_int (NOT (2 ^ (k mod 8)))]"
        and p': "p' = BDone MCMPST_SUCCESS"
        using step BCas x True try_disable_steps(2) [OF k, of e] by (auto simp del: try_disable_step.simps)
      show ?thesis
        by (rule inv_give [OF inv, where k = k]) (use k th BCas in \<open>auto simp: p' b bm_bit_disabled\<close>)
    next
      case False
      have b: "b = bl_bits s" and p': "p' = BDone MCMPST_INVOP"
        using step BCas x False try_disable_steps(2) [OF k, of e] by (auto simp del: try_disable_step.simps)
      have "bitlock_inv (bl_set s i (bl_bits s) (BDisabling k p'))"
        by (rule inv_same [OF inv]) (use k th BCas in \<open>auto simp: p'\<close>)
      with b show ?thesis by simp
    qed
  next
    case (BDone st)
    with p show ?thesis by simp
  qed
qed

lemma bitlock_move_inv: "bitlock_move i s t \<Longrightarrow> bitlock_inv s \<Longrightarrow> bitlock_inv t"
proof (induction rule: bitlock_move.induct)
  case (run_enable s k p b p')
  then show ?case by (blast intro: run_enable_inv)
next
  case (run_disable s k p b p')
  then show ?case by (blast intro: run_disable_inv)
next
  case (begin_enable s k)
  show ?case by (rule inv_same [OF begin_enable.prems]) (use begin_enable in auto)
next
  case (enabled s k)
  then show ?case using bitlock_inv_thread [of s i] by (intro inv_same) auto
next
  case (not_enabled s k st)
  then show ?case using bitlock_inv_thread [of s i] by (intro inv_same) auto
next
  case (begin_disable s k)
  then show ?case using bitlock_inv_thread [of s i] by (intro inv_same) auto
next
  case (disabled s k)
  then show ?case using bitlock_inv_thread [of s i] by (intro inv_same) auto
next
  case (not_disabled s k st)
  then show ?case using bitlock_inv_thread [of s i] by (intro inv_same) auto
qed

lemma bitlock_init_inv: "bitlock_init s \<Longrightarrow> bitlock_inv s"
  by (simp add: bitlock_init_def bitlock_inv_def)

text \<open>A thread is busy while it is inside one of the two calls.\<close>

fun bl_busy :: "bl_thread \<Rightarrow> bool" where
  "bl_busy (BEnabling k p) = True"
| "bl_busy (BDisabling k p) = True"
| "bl_busy _ = False"

lemma try_enable_defined:
  "k < 8 * length bm \<Longrightarrow> pc_at k p \<Longrightarrow> \<exists>b p'. try_enable_step bm p = Some (b, p')"
  by (cases p) (auto simp: try_enable_steps simp del: try_enable_step.simps(1,2))

lemma try_disable_defined:
  "k < 8 * length bm \<Longrightarrow> pc_at k p \<Longrightarrow> \<exists>b p'. try_disable_step bm p = Some (b, p')"
  by (cases p) (auto simp: try_disable_steps simp del: try_disable_step.simps(1,2))

lemma bitop_result_iff: "bitop_result p = Some st \<longleftrightarrow> p = BDone st"
  by (cases p) auto

lemma bitlock_busy_moves:
  assumes "bitlock_inv s" "bl_busy (bl_threads s i)"
  shows "\<exists>t. bitlock_move i s t"
proof (cases "bl_threads s i")
  case (BEnabling k p)
  then have "k < 8 * length (bl_bits s)" "pc_at k p" using bitlock_inv_thread [OF assms(1), of i] by auto
  then show ?thesis
    using try_enable_defined [of k "bl_bits s" p] BEnabling bitop_result_iff [of p]
    by (cases "bitop_result p")
       (blast intro: bitlock_move.run_enable, metis bitlock_move.enabled bitlock_move.not_enabled)
next
  case (BDisabling k p)
  then have "k < 8 * length (bl_bits s)" "pc_at k p" using bitlock_inv_thread [OF assms(1), of i] by auto
  then show ?thesis
    using try_disable_defined [of k "bl_bits s" p] BDisabling bitop_result_iff [of p]
    by (cases "bitop_result p")
       (blast intro: bitlock_move.run_disable, metis bitlock_move.disabled bitlock_move.not_disabled)
qed (use assms in auto)

interpretation bitlock: live_system bitlock_init bitlock_step bitlock_inv
    "\<lambda>s i. bl_busy (bl_threads s i)" bitlock_move
  by unfold_locales
    (auto simp: bitlock_step_def intro: bitlock_init_inv bitlock_move_inv bitlock_busy_moves)

text \<open>
  C3: However the threads that claim and release bits interleave, a bit is never owned by two threads at once, and a
  bit of the bitmap is set exactly while some thread owns it.
\<close>

theorem bitlock_mutual_exclusion:
  assumes "reachable bitlock_init bitlock_step s" "owns (bl_threads s i) k" "owns (bl_threads s j) k"
  shows "i = j \<and> bm_bit (bl_bits s) k"
proof -
  have inv: "bitlock_inv s" by (rule bitlock.reach_inv [OF assms(1)])
  have "k < 8 * length (bl_bits s)"
    using bitlock_inv_thread [OF inv, of i] assms(2) by (cases "bl_threads s i") auto
  then show ?thesis using inv assms(2,3) unfolding bitlock_inv_def by blast
qed

text \<open>
  No interleaving makes a claim or release undefined: in every reachable state a thread inside one of the calls
  can take its next step.
\<close>

lemma bitlock_never_stuck:
  assumes "reachable bitlock_init bitlock_step s" "bl_busy (bl_threads s i)"
  shows "\<exists>t. bitlock_move i s t \<and> reachable bitlock_init bitlock_step t"
  by (rule bitlock.never_stuck [OF assms])

text \<open>A run in which thread 0 has just claimed bit 3 of a bitmap of one byte.\<close>

definition bl_start :: bitlock where
  "bl_start = \<lparr>bl_bits = [0], bl_threads = \<lambda>_. BIdle\<rparr>"

definition bl_claimed :: bitlock where
  "bl_claimed = bl_set bl_start 0 [8] (BEnabling 3 (BDone MCMPST_SUCCESS))"

lemma bl_claimed_reachable: "reachable bitlock_init bitlock_step bl_claimed"
proof -
  let ?a = "bl_set bl_start 0 [0] (BEnabling 3 (BLoad (int 3)))"
  let ?b = "bl_set bl_start 0 [0] (BEnabling 3 (BCas 3 0))"
  have "bitlock_init bl_start"
    by (auto simp: bitlock_init_def bl_start_def bm_bit_def)
  moreover have "bitlock_move 0 bl_start ?a"
    using bitlock_move.begin_enable [of bl_start 0 3] by (simp add: bl_start_def)
  moreover have "bitlock_move 0 ?a ?b"
    using bitlock_move.run_enable [of ?a 0 3 "BLoad 3" "[0]" "BCas 3 0"]
    by (simp add: bl_start_def c_shl1_def u8_cast_def load_at_def load8_def)
  moreover have "bitlock_move 0 ?b bl_claimed"
    using bitlock_move.run_enable [of ?b 0 3 "BCas 3 0" "[8]" "BDone MCMPST_SUCCESS"]
    by (simp add: bl_start_def bl_claimed_def c_shl1_def u8_cast_def load_at_def load8_def cas8_def store_at_def)
  ultimately show ?thesis
    by (meson bitlock_step_def reachable.start reachable.step)
qed

theorem bitlock_mutual_exclusion_witness:
  "owns (bl_threads bl_claimed 0) 3 \<and> bm_bit (bl_bits bl_claimed) 3"
proof -
  have "owns (bl_threads bl_claimed 0) 3" by (simp add: bl_claimed_def)
  then show ?thesis using bitlock_mutual_exclusion [OF bl_claimed_reachable] by blast
qed

lemma bitlock_never_stuck_witness:
  "\<exists>t. bitlock_move 0 bl_claimed t \<and> reachable bitlock_init bitlock_step t"
  by (rule bitlock_never_stuck [OF bl_claimed_reachable]) (simp add: bl_claimed_def)

end
