(* ===== verification/Ring_Fifo.thy ===== *)
theory Ring_Fifo
  imports Status
begin

text \<open>
  What the three queues of \<^verbatim>\<open>utilities/src/common\<close> have in common. A ring of \<open>n\<close> slots with a
  head (where the next item goes) and a tail (where the oldest one is) holds the items from the
  tail on, wrapping around; one slot stays free, so that head and tail are equal only when the ring
  is empty. The locale \<open>bounded_fifo\<close> is the contract of a queue as its callers see it: a push
  appends or is refused and changes nothing, a take removes the oldest item.
\<close>

section \<open>Rings\<close>

definition ring_count :: "nat \<Rightarrow> nat \<Rightarrow> nat \<Rightarrow> nat" where
  "ring_count n head tail = (head + n - tail) mod n"

definition ring_view :: "nat \<Rightarrow> 'a list \<Rightarrow> nat \<Rightarrow> nat \<Rightarrow> 'a list" where
  "ring_view n items head tail = map (\<lambda>k. items ! (k mod n)) [tail..<tail + ring_count n head tail]"

definition ring_slots :: "nat \<Rightarrow> nat \<Rightarrow> nat \<Rightarrow> nat set" where
  "ring_slots n head tail = (\<lambda>k. k mod n) ` {tail..<tail + ring_count n head tail}"

lemma ring_count_less: "head < n \<Longrightarrow> ring_count n head tail < n"
  by (simp add: ring_count_def)

lemma ring_count_cases:
  "head < n \<Longrightarrow> tail < n \<Longrightarrow> ring_count n head tail = (if tail \<le> head then head - tail else head + n - tail)"
proof (cases "tail \<le> head")
  case True
  assume "head < n"
  have "head + n - tail = (head - tail) + n" using True by simp
  then show ?thesis using True \<open>head < n\<close> by (simp add: ring_count_def del: add_diff_assoc2)
qed (simp add: ring_count_def)

lemma ring_count_zero: "head < n \<Longrightarrow> tail < n \<Longrightarrow> ring_count n head tail = 0 \<longleftrightarrow> head = tail"
  by (auto simp: ring_count_cases)

lemma ring_count_same [simp]: "tail < n \<Longrightarrow> ring_count n tail tail = 0"
  by (simp add: ring_count_cases)

lemma ring_count_full:
  "head < n \<Longrightarrow> tail < n \<Longrightarrow> Suc head mod n = tail \<longleftrightarrow> Suc (ring_count n head tail) = n"
  by (auto simp: ring_count_cases mod_Suc)

lemma ring_full:
  assumes "head < n" "tail < n"
  shows "tail = Suc head mod n \<longleftrightarrow> \<not> Suc (ring_count n head tail) < n"
  using ring_count_full [OF assms] ring_count_less [OF assms(1), of tail] by (metis Suc_lessI less_irrefl)

lemma ring_count_push:
  "head < n \<Longrightarrow> tail < n \<Longrightarrow> Suc head mod n \<noteq> tail \<Longrightarrow>
     ring_count n (Suc head mod n) tail = Suc (ring_count n head tail)"
  by (auto simp: ring_count_cases mod_Suc split: if_splits)

lemma ring_count_take:
  "head < n \<Longrightarrow> tail < n \<Longrightarrow> head \<noteq> tail \<Longrightarrow>
     ring_count n head tail = Suc (ring_count n head (Suc tail mod n))"
  by (auto simp: ring_count_cases mod_Suc split: if_splits)

lemma ring_head: "head < n \<Longrightarrow> tail < n \<Longrightarrow> (tail + ring_count n head tail) mod n = head"
  by (auto simp: ring_count_cases)

lemma ring_count_mod:
  assumes "t \<le> h" "h < t + n"
  shows "ring_count n (h mod n) (t mod n) = h - t"
proof -
  define r where "r = t mod n"
  obtain c where c: "h = t + c" "c < n" using assms less_imp_add_positive by (metis add_less_cancel_left le_iff_add)
  have "h mod n = (r + c) mod n" and "r < n" using c by (simp_all add: r_def mod_add_left_eq)
  then have "ring_count n (h mod n) r = c"
    using c(2) by (cases "r + c < n") (simp_all add: ring_count_def mod_if [of "r + c"])
  then show ?thesis using c by (simp add: r_def)
qed

lemma length_ring_view [simp]: "length (ring_view n items head tail) = ring_count n head tail"
  by (simp add: ring_view_def)

lemma ring_view_Nil: "head < n \<Longrightarrow> tail < n \<Longrightarrow> ring_view n items head tail = [] \<longleftrightarrow> head = tail"
  using ring_count_zero [of head n tail] by (simp add: ring_view_def) linarith

lemma ring_view_same [simp]: "tail < n \<Longrightarrow> ring_view n items tail tail = []"
  by (simp add: ring_view_def)

lemma map_mod_shift:
  "map (\<lambda>k. f (k mod n)) [a mod n..<a mod n + c] = map (\<lambda>k. f (k mod n)) [a..<a + c]"
proof (induction c)
  case (Suc c)
  then show ?case by (simp add: mod_add_left_eq)
qed simp

lemma ring_view_mod:
  "t \<le> h \<Longrightarrow> h < t + n \<Longrightarrow> ring_view n items (h mod n) (t mod n) = map (\<lambda>k. items ! (k mod n)) [t..<h]"
  using map_mod_shift [of "(!) items" n t "h - t"] by (simp add: ring_view_def ring_count_mod)

lemma ring_view_take:
  assumes "head < n" "tail < n" "head \<noteq> tail"
  shows "ring_view n items head tail = items ! tail # ring_view n items head (Suc tail mod n)"
  using assms map_mod_shift [of "\<lambda>k. items ! k" n "Suc tail" "ring_count n head (Suc tail mod n)"]
  by (simp add: ring_view_def ring_count_take upt_conv_Cons del: upt_Suc)

lemma ring_slot_other:
  assumes "head < n" "tail < n" "tail \<le> k" "k < tail + ring_count n head tail"
  shows "k mod n \<noteq> head"
proof
  assume "k mod n = head"
  then have "k mod n = (tail + ring_count n head tail) mod n" using ring_head [OF assms(1,2)] by simp
  then have "k = tail + ring_count n head tail"
    using assms ring_count_less [OF assms(1), of tail]
    by (intro mod_window_inj [of k n]) auto
  with assms(4) show False by simp
qed

lemma ring_view_store:
  "head < n \<Longrightarrow> tail < n \<Longrightarrow> ring_view n (items[head := x]) head tail = ring_view n items head tail"
  unfolding ring_view_def by (rule map_cong [OF refl]) (metis atLeastLessThan_iff nth_list_update_neq
      ring_slot_other set_upt)

lemma ring_view_push:
  assumes "head < n" "tail < n" "Suc head mod n \<noteq> tail" "n \<le> length items"
  shows "ring_view n (items[head := x]) (Suc head mod n) tail = ring_view n items head tail @ [x]"
  using assms ring_view_store [OF assms(1,2), of items x] ring_head [OF assms(1,2)]
  by (simp add: ring_view_def ring_count_push)

lemma ring_slots_Nil [simp]: "tail < n \<Longrightarrow> ring_slots n tail tail = {}"
  by (simp add: ring_slots_def)

lemma ring_slots_push:
  assumes "head < n" "tail < n" "Suc head mod n \<noteq> tail"
  shows "ring_slots n (Suc head mod n) tail = insert head (ring_slots n head tail)"
  using assms ring_head [OF assms(1,2)]
  by (simp add: ring_slots_def ring_count_push atLeastLessThanSuc)

lemma mod_image_shift: "(\<lambda>k. k mod n) ` {a mod n..<a mod n + c} = (\<lambda>k. k mod n) ` {a..<a + c}"
  for a n c :: nat
  using arg_cong [OF map_mod_shift [of "\<lambda>k. k" n a c], of set] by simp

lemma ring_slots_take:
  assumes "head < n" "tail < n" "head \<noteq> tail"
  shows "ring_slots n head (Suc tail mod n) = ring_slots n head tail - {tail}"
proof -
  let ?c = "ring_count n head (Suc tail mod n)"
  have c: "Suc ?c < n"
    using ring_count_take [OF assms] ring_count_less [OF assms(1), of tail] by simp
  have next_slots: "ring_slots n head (Suc tail mod n) = (\<lambda>k. k mod n) ` {Suc tail..<Suc tail + ?c}"
    using mod_image_shift [of n "Suc tail" ?c] by (simp add: ring_slots_def)
  have "k mod n \<noteq> tail" if "Suc tail \<le> k" "k < Suc tail + ?c" for k
    using mod_window_inj [of tail n k] that c assms(2) by auto
  then have "tail \<notin> (\<lambda>k. k mod n) ` {Suc tail..<Suc tail + ?c}" by force
  moreover have "{tail..<tail + ring_count n head tail} = insert tail {Suc tail..<Suc tail + ?c}"
    by (auto simp: ring_count_take [OF assms])
  then have "ring_slots n head tail = insert tail ((\<lambda>k. k mod n) ` {Suc tail..<Suc tail + ?c})"
    using assms(2) by (simp add: ring_slots_def)
  ultimately show ?thesis using next_slots by blast
qed

lemma ring_slots_tail: "head < n \<Longrightarrow> tail < n \<Longrightarrow> tail \<in> ring_slots n head tail \<longleftrightarrow> head \<noteq> tail"
proof (cases "head = tail")
  case False
  assume "head < n" "tail < n"
  then have "tail \<in> {tail..<tail + ring_count n head tail}"
    using ring_count_zero [of head n tail] False by simp
  then have "tail mod n \<in> ring_slots n head tail" unfolding ring_slots_def by (rule imageI)
  then show ?thesis using False \<open>tail < n\<close> by simp
qed simp

section \<open>The contract of a bounded queue\<close>

datatype 'a qop = Push 'a | Take

text \<open>A sequence of calls: the items that pushes accepted, those that takes returned, the queue at the end.\<close>

fun fifo_run ::
  "('s \<Rightarrow> 'a \<Rightarrow> ('s \<times> mcmpst) ub) \<Rightarrow> ('s \<Rightarrow> ('s \<times> mcmpst \<times> 'a option) ub) \<Rightarrow> 'a qop list \<Rightarrow> 's
     \<Rightarrow> ('a list \<times> 'a list \<times> 's) ub" where
  "fifo_run pushf takef [] s = Some ([], [], s)"
| "fifo_run pushf takef (Push x # ops) s = do {
     (s', st) \<leftarrow> pushf s x;
     (ins, outs, s'') \<leftarrow> fifo_run pushf takef ops s';
     Some (if st = MCMPST_SUCCESS then x # ins else ins, outs, s'') }"
| "fifo_run pushf takef (Take # ops) s = do {
     (s', st, r) \<leftarrow> takef s;
     (ins, outs, s'') \<leftarrow> fifo_run pushf takef ops s';
     Some (ins, (case r of Some x \<Rightarrow> x # outs | None \<Rightarrow> outs), s'') }"

locale bounded_fifo =
  fixes inv :: "'s \<Rightarrow> bool"
    and view :: "'s \<Rightarrow> 'a list"
    and accepts :: "'s \<Rightarrow> 'a \<Rightarrow> bool"
    and push :: "'s \<Rightarrow> 'a \<Rightarrow> ('s \<times> mcmpst) ub"
    and take :: "'s \<Rightarrow> ('s \<times> mcmpst \<times> 'a option) ub"
  assumes push_accepts: "inv s \<Longrightarrow> accepts s x \<Longrightarrow>
      \<exists>s'. push s x = Some (s', MCMPST_SUCCESS) \<and> inv s' \<and> view s' = view s @ [x]"
    and push_refuses: "inv s \<Longrightarrow> \<not> accepts s x \<Longrightarrow> \<exists>st. push s x = Some (s, st) \<and> st \<noteq> MCMPST_SUCCESS"
    and take_empty: "inv s \<Longrightarrow> view s = [] \<Longrightarrow> \<exists>st. take s = Some (s, st, None) \<and> st \<noteq> MCMPST_SUCCESS"
    and take_first: "inv s \<Longrightarrow> view s = x # xs \<Longrightarrow>
      \<exists>s'. take s = Some (s', MCMPST_SUCCESS, Some x) \<and> inv s' \<and> view s' = xs"
begin

abbreviation "run \<equiv> fifo_run push take"

lemma run_fifo:
  "inv s \<Longrightarrow> \<exists>ins outs s'. run ops s = Some (ins, outs, s') \<and> inv s' \<and> view s @ ins = outs @ view s'"
proof (induction ops arbitrary: s)
  case Nil
  then show ?case by simp
next
  case (Cons opn ops)
  show ?case
  proof (cases opn)
    case (Push x)
    show ?thesis
    proof (cases "accepts s x")
      case True
      then obtain s1 where "push s x = Some (s1, MCMPST_SUCCESS)" "inv s1" "view s1 = view s @ [x]"
        using push_accepts Cons.prems by blast
      then show ?thesis using Cons.IH [of s1] Push by auto
    next
      case False
      then show ?thesis using push_refuses [OF Cons.prems False] Cons.IH [OF Cons.prems] Push by auto
    qed
  next
    case Take
    show ?thesis
    proof (cases "view s")
      case Nil
      then show ?thesis using take_empty [OF Cons.prems] Cons.IH [OF Cons.prems] Take by auto
    next
      case (Cons x xs)
      then obtain s1 where "take s = Some (s1, MCMPST_SUCCESS, Some x)" "inv s1" "view s1 = xs"
        using take_first Cons.prems by blast
      then show ?thesis using Cons.IH [of s1] Take Cons by auto
    qed
  qed
qed

lemma run_takes:
  "inv s \<Longrightarrow> \<exists>s'. run (replicate (length (view s)) Take) s = Some ([], view s, s') \<and> inv s' \<and> view s' = []"
proof (induction "view s" arbitrary: s)
  case Nil
  then show ?case by (intro exI [of _ s]) (metis fifo_run.simps(1) list.size(3) replicate_0)
next
  case (Cons x xs)
  then obtain s1 where s1: "take s = Some (s1, MCMPST_SUCCESS, Some x)" "inv s1" "view s1 = xs"
    using take_first [of s x xs] by metis
  with Cons.hyps(1) [of s1] show ?case by (auto simp: Cons.hyps(2) [symmetric])
qed

lemma run_append:
  "run xs s = Some (is, outs, s') \<Longrightarrow> run ys s' = Some (js, outs', s'') \<Longrightarrow>
     run (xs @ ys) s = Some (is @ js, outs @ outs', s'')"
proof (induction xs arbitrary: s "is" outs)
  case (Cons x xs)
  then show ?case by (cases x) (fastforce split: Option.bind_splits option.splits if_splits)+
qed simp

end

end
