(* ===== verification/Set_Queue.thy ===== *)
theory Set_Queue
  imports Ring_Fifo Atomic_Bitmap
begin

text \<open>
  The set queue of \<^verbatim>\<open>utilities/src/common/setqueue.c\<close>: a ring of indices below its length, with
  one bitmap that tells which values are enqueued (a value is enqueued at most once) and one that
  tells which slots hold an item that was written. Push and take are sequences of atomic accesses;
  here each is a step machine with one step for each access, and the function of the code is the
  machine run alone. \<^verbatim>\<open>Set_Queue_Conc\<close> interleaves the same machines.
\<close>

section \<open>State and creation\<close>

record setqueue =
  sq_byteslength :: nat
  sq_length :: nat
  sq_head :: nat
  sq_tail :: nat
  sq_values :: "byte list"
  sq_ready :: "byte list"
  sq_items :: "nat list"

text \<open>
  One \<^verbatim>\<open>malloc\<close> of the header (64 bytes), the two bitmaps and the items, its size computed on
  \<^verbatim>\<open>size_t\<close>. Parameters: whether the allocator grants a request, and what the fresh items hold.
  The items are what the block leaves behind the bitmaps; clearing bitmaps that the block does not
  hold is undefined.
\<close>

definition mcmpSetQueueCreate :: "(nat \<Rightarrow> bool) \<Rightarrow> (nat \<Rightarrow> nat) \<Rightarrow> nat \<Rightarrow> (mcmpst + setqueue) ub" where
  "mcmpSetQueueCreate malloc_ok junk len =
     (let byteslength = ((len + 7) mod size_max) div 8;
          bytes = (64 + byteslength * 2 + (8 * len) mod size_max) mod size_max
      in if \<not> malloc_ok bytes then Some (Inl MCMPST_OUT_OF_MEM)
         else if bytes < 64 + byteslength * 2 then None
         else Some (Inr \<lparr>sq_byteslength = byteslength, sq_length = len, sq_head = 0, sq_tail = 0,
                sq_values = replicate byteslength 0, sq_ready = replicate byteslength 0,
                sq_items = map junk [0..<(bytes - 64 - byteslength * 2) div 8]\<rparr>))"

section \<open>Push\<close>

text \<open>
  The points of \<^verbatim>\<open>mcmpSetQueuePush\<close>: about to load or swap the byte of the value's bit, to load
  the tail and the head, to test the ready bit of a ring that looks full, to give the value's bit
  back, to swap the head, to store the item, to load or swap the byte of the ready bit, returned.
\<close>

datatype push_pc =
    P_LoadSet | P_CasSet byte
  | P_LoadTail | P_LoadHead nat | P_CheckReady nat nat | P_Undo
  | P_CasHead nat nat | P_StoreItem nat | P_LoadReady nat | P_CasReady nat byte
  | P_Done mcmpst

fun push_result :: "push_pc \<Rightarrow> mcmpst option" where
  "push_result (P_Done st) = Some st"
| "push_result _ = None"

definition bitmask :: "nat \<Rightarrow> byte" where
  "bitmask i = push_bit (i mod 8) 1"

fun push_step :: "nat \<Rightarrow> setqueue \<Rightarrow> push_pc \<Rightarrow> (setqueue \<times> push_pc) ub" where
  "push_step ind sq P_LoadSet =
     (if sq_length sq \<le> ind then Some (sq, P_Done MCMPST_OVERFLOW)
      else do {
        b \<leftarrow> load8 (sq_values sq) (ind div 8);
        Some (sq, if b AND bitmask ind \<noteq> 0 then P_Done MCMPST_ALROP else P_CasSet b) })"
| "push_step ind sq (P_CasSet e) = do {
     (vs, ok) \<leftarrow> cas8 (sq_values sq) (int (ind div 8)) e (e OR bitmask ind);
     Some (sq\<lparr>sq_values := vs\<rparr>, if ok then P_LoadTail else P_Done MCMPST_RETRYOP) }"
| "push_step ind sq P_LoadTail = Some (sq, P_LoadHead (sq_tail sq))"
| "push_step ind sq (P_LoadHead tail) = do {
     nxt \<leftarrow> ring_next (sq_length sq) (sq_head sq);
     Some (sq, if nxt = tail then P_CheckReady (sq_head sq) nxt else P_CasHead (sq_head sq) nxt) }"
| "push_step ind sq (P_CheckReady index nxt) = do {
     full \<leftarrow> mcmpAtomicBitmapIsEnabledBit (sq_ready sq) (bitidx_cast nxt);
     Some (sq, if full then P_Undo else P_CasHead index nxt) }"
| "push_step ind sq P_Undo = do {
     b \<leftarrow> load8 (sq_values sq) (ind div 8);
     vs \<leftarrow> store_at (sq_values sq) (int (ind div 8)) (b AND NOT (bitmask ind));
     Some (sq\<lparr>sq_values := vs\<rparr>, P_Done MCMPST_OVERFLOW) }"
| "push_step ind sq (P_CasHead index nxt) =
     (if sq_head sq = index then Some (sq\<lparr>sq_head := nxt\<rparr>, P_StoreItem index) else Some (sq, P_LoadTail))"
| "push_step ind sq (P_StoreItem index) =
     (if index < length (sq_items sq)
      then Some (sq\<lparr>sq_items := (sq_items sq)[index := ind]\<rparr>, P_LoadReady index) else None)"
| "push_step ind sq (P_LoadReady index) = do {
     b \<leftarrow> load8 (sq_ready sq) (index div 8);
     Some (sq, P_CasReady index b) }"
| "push_step ind sq (P_CasReady index e) = do {
     (rs, ok) \<leftarrow> cas8 (sq_ready sq) (int (index div 8)) e (e OR bitmask index);
     Some (sq\<lparr>sq_ready := rs\<rparr>, if ok then P_Done MCMPST_SUCCESS else P_LoadReady index) }"
| "push_step ind sq (P_Done st) = Some (sq, P_Done st)"

definition mcmpSetQueuePush :: "setqueue \<Rightarrow> nat \<Rightarrow> (setqueue \<times> mcmpst) ub" where
  "mcmpSetQueuePush sq ind = run_call (push_step ind) push_result sq P_LoadSet"

section \<open>Take\<close>

text \<open>
  The points of \<^verbatim>\<open>mcmpSetQueueTake\<close>; the result carries the status and what was written to
  \<^verbatim>\<open>*ind\<close>, if anything was.
\<close>

datatype take_pc =
    T_LoadTail | T_LoadHead nat | T_LoadReady nat | T_CasTail nat nat | T_ReadItem nat
  | T_LoadSet nat nat | T_CasSet nat nat byte | T_LoadRdy nat nat | T_CasRdy nat nat byte
  | T_Done mcmpst "nat option"

fun take_result :: "take_pc \<Rightarrow> (mcmpst \<times> nat option) option" where
  "take_result (T_Done st r) = Some (st, r)"
| "take_result _ = None"

fun take_step :: "setqueue \<Rightarrow> take_pc \<Rightarrow> (setqueue \<times> take_pc) ub" where
  "take_step sq T_LoadTail = Some (sq, T_LoadHead (sq_tail sq))"
| "take_step sq (T_LoadHead index) =
     Some (sq, if index = sq_head sq then T_Done MCMPST_ISEMPTY None else T_LoadReady index)"
| "take_step sq (T_LoadReady index) = do {
     b \<leftarrow> load8 (sq_ready sq) (index div 8);
     (if b AND bitmask index = 0 then Some (sq, T_Done MCMPST_RETRYOP None)
      else do {
        nxt \<leftarrow> ring_next (sq_length sq) index;
        Some (sq, T_CasTail index nxt) }) }"
| "take_step sq (T_CasTail index nxt) =
     (if sq_tail sq = index then Some (sq\<lparr>sq_tail := nxt\<rparr>, T_ReadItem index) else Some (sq, T_LoadTail))"
| "take_step sq (T_ReadItem index) =
     (if index < length (sq_items sq) then Some (sq, T_LoadSet index (sq_items sq ! index)) else None)"
| "take_step sq (T_LoadSet index v) = do {
     b \<leftarrow> load8 (sq_values sq) (v div 8);
     Some (sq, T_CasSet index v b) }"
| "take_step sq (T_CasSet index v e) = do {
     (vs, ok) \<leftarrow> cas8 (sq_values sq) (int (v div 8)) e (e AND NOT (bitmask v));
     Some (sq\<lparr>sq_values := vs\<rparr>, if ok then T_LoadRdy index v else T_LoadSet index v) }"
| "take_step sq (T_LoadRdy index v) = do {
     b \<leftarrow> load8 (sq_ready sq) (index div 8);
     Some (sq, T_CasRdy index v b) }"
| "take_step sq (T_CasRdy index v e) = do {
     (rs, ok) \<leftarrow> cas8 (sq_ready sq) (int (index div 8)) e (e AND NOT (bitmask index));
     Some (sq\<lparr>sq_ready := rs\<rparr>, if ok then T_Done MCMPST_SUCCESS (Some v) else T_LoadRdy index v) }"
| "take_step sq (T_Done st r) = Some (sq, T_Done st r)"

definition mcmpSetQueueTake :: "setqueue \<Rightarrow> (setqueue \<times> mcmpst \<times> nat option) ub" where
  "mcmpSetQueueTake sq = run_call take_step take_result sq T_LoadTail"

section \<open>Bits of the two bitmaps\<close>

definition set_bit_of :: "byte list \<Rightarrow> nat \<Rightarrow> byte list" where
  "set_bit_of bm k = bm[k div 8 := bm ! (k div 8) OR bitmask k]"

definition clear_bit_of :: "byte list \<Rightarrow> nat \<Rightarrow> byte list" where
  "clear_bit_of bm k = bm[k div 8 := bm ! (k div 8) AND NOT (bitmask k)]"

lemma bitmask_exp: "bitmask k = 2 ^ (k mod 8)"
  by (simp add: bitmask_def push_bit_eq_mult)

lemma bitmask_test: "b AND bitmask k \<noteq> 0 \<longleftrightarrow> bit b (k mod 8)"
  by (simp add: bitmask_exp and_exp_byte)

lemma length_set_bit_of [simp]: "length (set_bit_of bm k) = length bm"
  by (simp add: set_bit_of_def)

lemma length_clear_bit_of [simp]: "length (clear_bit_of bm k) = length bm"
  by (simp add: clear_bit_of_def)

lemma bit_set_bit_of [bit_facts]:
  "k < 8 * length bm \<Longrightarrow> bm_bit (set_bit_of bm k) j \<longleftrightarrow> bm_bit bm j \<or> j = k"
  by (simp add: set_bit_of_def bitmask_exp bm_bit_enabled)

lemma bit_clear_bit_of [bit_facts]:
  assumes "k < 8 * length bm"
  shows "bm_bit (clear_bit_of bm k) j \<longleftrightarrow> bm_bit bm j \<and> j \<noteq> k"
proof -
  have "NOT (bitmask k) = word_of_int (NOT (2 ^ (k mod 8)))"
    by (rule bit_word_eqI) (auto simp: bitmask_exp bit_simps)
  then show ?thesis using assms by (simp add: clear_bit_of_def bm_bit_disabled)
qed

lemma clear_set_bit_of:
  assumes "k < 8 * length bm" "\<not> bm_bit bm k"
  shows "clear_bit_of (set_bit_of bm k) k = bm"
proof -
  let ?b = "bm ! (k div 8)"
  have "bit ((?b OR bitmask k) AND NOT (bitmask k)) n = bit ?b n" for n
    using assms(2) by (auto simp: bitmask_exp bit_simps bm_bit_def dest: bit_imp_le_length)
  then have "(?b OR bitmask k) AND NOT (bitmask k) = ?b" by (intro bit_eqI)
  then show ?thesis using byte_in_range [OF assms(1)] by (simp add: clear_bit_of_def set_bit_of_def)
qed

section \<open>The queue as a list\<close>

definition sq_view :: "setqueue \<Rightarrow> nat list" where
  "sq_view sq = ring_view (sq_length sq) (sq_items sq) (sq_head sq) (sq_tail sq)"

definition sq_wf :: "setqueue \<Rightarrow> bool" where
  "sq_wf sq \<longleftrightarrow> 2 \<le> sq_length sq \<and> sq_length sq < 2 ^ 63 \<and> sq_head sq < sq_length sq \<and> sq_tail sq < sq_length sq
     \<and> sq_length sq \<le> 8 * length (sq_values sq) \<and> sq_length sq \<le> 8 * length (sq_ready sq)
     \<and> sq_length sq \<le> length (sq_items sq)"

text \<open>Between two calls: a slot is ready when it is in use, a value is marked when it is enqueued.\<close>

definition sq_inv :: "setqueue \<Rightarrow> bool" where
  "sq_inv sq \<longleftrightarrow> sq_wf sq
     \<and> (\<forall>j < sq_length sq. bm_bit (sq_ready sq) j \<longleftrightarrow> j \<in> ring_slots (sq_length sq) (sq_head sq) (sq_tail sq))
     \<and> (\<forall>v < sq_length sq. bm_bit (sq_values sq) v \<longleftrightarrow> v \<in> set (sq_view sq))
     \<and> distinct (sq_view sq) \<and> set (sq_view sq) \<subseteq> {..<sq_length sq}"

definition sq_accepts :: "setqueue \<Rightarrow> nat \<Rightarrow> bool" where
  "sq_accepts sq v \<longleftrightarrow> v < sq_length sq \<and> v \<notin> set (sq_view sq) \<and> Suc (length (sq_view sq)) < sq_length sq"

text \<open>The steps of a call on a well-formed queue.\<close>

lemma cas8_bits:
  assumes "k < 8 * length bm"
  shows "cas8 bm (int (k div 8)) e (e OR bitmask k) =
      (if bm ! (k div 8) = e then Some (set_bit_of bm k, True) else Some (bm, False))"
    and "cas8 bm (int (k div 8)) e (e AND NOT (bitmask k)) =
      (if bm ! (k div 8) = e then Some (clear_bit_of bm k, True) else Some (bm, False))"
  using byte_in_range [OF assms] by (auto simp: cas8_nat set_bit_of_def clear_bit_of_def)

lemma is_enabled_ready:
  "k < 8 * length bm \<Longrightarrow> mcmpAtomicBitmapIsEnabledBit bm (int k) = Some (bm_bit bm k)"
  using byte_in_range [of k bm]
  by (simp add: mcmpAtomicBitmapIsEnabledBit_def mem_simps uint_and_shl_nonzero bm_bit_def)

lemma push_steps:
  assumes "sq_wf sq"
  shows "ind < sq_length sq \<Longrightarrow> push_step ind sq P_LoadSet =
      Some (sq, if bm_bit (sq_values sq) ind then P_Done MCMPST_ALROP else P_CasSet (sq_values sq ! (ind div 8)))"
    and "ind < sq_length sq \<Longrightarrow> push_step ind sq (P_CasSet e) =
      (if sq_values sq ! (ind div 8) = e then Some (sq\<lparr>sq_values := set_bit_of (sq_values sq) ind\<rparr>, P_LoadTail)
       else Some (sq, P_Done MCMPST_RETRYOP))"
    and "push_step ind sq (P_LoadHead tail) = Some (sq,
      let nxt = Suc (sq_head sq) mod sq_length sq
      in if nxt = tail then P_CheckReady (sq_head sq) nxt else P_CasHead (sq_head sq) nxt)"
    and "nxt < sq_length sq \<Longrightarrow> push_step ind sq (P_CheckReady index nxt) =
      Some (sq, if bm_bit (sq_ready sq) nxt then P_Undo else P_CasHead index nxt)"
    and "ind < sq_length sq \<Longrightarrow> push_step ind sq P_Undo =
      Some (sq\<lparr>sq_values := clear_bit_of (sq_values sq) ind\<rparr>, P_Done MCMPST_OVERFLOW)"
    and "index < sq_length sq \<Longrightarrow> push_step ind sq (P_StoreItem index) =
      Some (sq\<lparr>sq_items := (sq_items sq)[index := ind]\<rparr>, P_LoadReady index)"
    and "index < sq_length sq \<Longrightarrow> push_step ind sq (P_LoadReady index) =
      Some (sq, P_CasReady index (sq_ready sq ! (index div 8)))"
    and "index < sq_length sq \<Longrightarrow> push_step ind sq (P_CasReady index e) =
      (if sq_ready sq ! (index div 8) = e
       then Some (sq\<lparr>sq_ready := set_bit_of (sq_ready sq) index\<rparr>, P_Done MCMPST_SUCCESS)
       else Some (sq, P_LoadReady index))"
  using assms
  by (simp_all add: sq_wf_def mem_simps byte_in_range bitmask_test bm_bit_def cas8_bits ring_next_eq
      is_enabled_ready clear_bit_of_def Let_def)

lemma take_steps:
  assumes "sq_wf sq" "index < sq_length sq"
  shows "take_step sq (T_LoadReady index) = Some (sq,
      if bm_bit (sq_ready sq) index then T_CasTail index (Suc index mod sq_length sq)
      else T_Done MCMPST_RETRYOP None)"
    and "take_step sq (T_ReadItem index) = Some (sq, T_LoadSet index (sq_items sq ! index))"
    and "v < sq_length sq \<Longrightarrow> take_step sq (T_LoadSet index v) =
      Some (sq, T_CasSet index v (sq_values sq ! (v div 8)))"
    and "v < sq_length sq \<Longrightarrow> take_step sq (T_CasSet index v e) =
      (if sq_values sq ! (v div 8) = e
       then Some (sq\<lparr>sq_values := clear_bit_of (sq_values sq) v\<rparr>, T_LoadRdy index v)
       else Some (sq, T_LoadSet index v))"
    and "take_step sq (T_LoadRdy index v) = Some (sq, T_CasRdy index v (sq_ready sq ! (index div 8)))"
    and "take_step sq (T_CasRdy index v e) =
      (if sq_ready sq ! (index div 8) = e
       then Some (sq\<lparr>sq_ready := clear_bit_of (sq_ready sq) index\<rparr>, T_Done MCMPST_SUCCESS (Some v))
       else Some (sq, T_LoadRdy index v))"
  using assms bitmask_test [of "sq_ready sq ! (index div 8)" index]
  by (simp_all add: sq_wf_def mem_simps byte_in_range bm_bit_def cas8_bits ring_next_eq)

lemma sq_wf_update:
  assumes "sq_wf sq"
  shows "length vs = length (sq_values sq) \<Longrightarrow> sq_wf (sq\<lparr>sq_values := vs\<rparr>)"
    and "length rs = length (sq_ready sq) \<Longrightarrow> sq_wf (sq\<lparr>sq_ready := rs\<rparr>)"
    and "length xs = length (sq_items sq) \<Longrightarrow> sq_wf (sq\<lparr>sq_items := xs\<rparr>)"
    and "h < sq_length sq \<Longrightarrow> sq_wf (sq\<lparr>sq_head := h\<rparr>)"
    and "h < sq_length sq \<Longrightarrow> sq_wf (sq\<lparr>sq_tail := h\<rparr>)"
  using assms by (simp_all add: sq_wf_def)

section \<open>Calls without interference\<close>

text \<open>Unfolding a call executed alone, one step at a time.\<close>

lemmas run_push = run_call.simps [of "push_step ind" push_result _ P_LoadSet for ind]
  run_call.simps [of "push_step ind" push_result _ "P_CasSet e" for ind e]
  run_call.simps [of "push_step ind" push_result _ P_LoadTail for ind]
  run_call.simps [of "push_step ind" push_result _ "P_LoadHead t" for ind t]
  run_call.simps [of "push_step ind" push_result _ "P_CheckReady i n" for ind i n]
  run_call.simps [of "push_step ind" push_result _ P_Undo for ind]
  run_call.simps [of "push_step ind" push_result _ "P_CasHead i n" for ind i n]
  run_call.simps [of "push_step ind" push_result _ "P_StoreItem i" for ind i]
  run_call.simps [of "push_step ind" push_result _ "P_LoadReady i" for ind i]
  run_call.simps [of "push_step ind" push_result _ "P_CasReady i e" for ind i e]
  run_call.simps [of "push_step ind" push_result _ "P_Done st" for ind st]

lemmas run_take = run_call.simps [of take_step take_result _ T_LoadTail]
  run_call.simps [of take_step take_result _ "T_LoadHead i" for i]
  run_call.simps [of take_step take_result _ "T_LoadReady i" for i]
  run_call.simps [of take_step take_result _ "T_CasTail i n" for i n]
  run_call.simps [of take_step take_result _ "T_ReadItem i" for i]
  run_call.simps [of take_step take_result _ "T_LoadSet i v" for i v]
  run_call.simps [of take_step take_result _ "T_CasSet i v e" for i v e]
  run_call.simps [of take_step take_result _ "T_LoadRdy i v" for i v]
  run_call.simps [of take_step take_result _ "T_CasRdy i v e" for i v e]
  run_call.simps [of take_step take_result _ "T_Done st r" for st r]

definition sq_pushed :: "setqueue \<Rightarrow> nat \<Rightarrow> setqueue" where
  "sq_pushed sq v = sq\<lparr>sq_values := set_bit_of (sq_values sq) v,
     sq_head := Suc (sq_head sq) mod sq_length sq, sq_items := (sq_items sq)[sq_head sq := v],
     sq_ready := set_bit_of (sq_ready sq) (sq_head sq)\<rparr>"

definition sq_taken :: "setqueue \<Rightarrow> nat \<Rightarrow> setqueue" where
  "sq_taken sq v = sq\<lparr>sq_tail := Suc (sq_tail sq) mod sq_length sq,
     sq_values := clear_bit_of (sq_values sq) v, sq_ready := clear_bit_of (sq_ready sq) (sq_tail sq)\<rparr>"

lemma push_runs:
  assumes wf: "sq_wf sq" and ind: "ind < sq_length sq"
  shows "mcmpSetQueuePush sq ind =
     (if bm_bit (sq_values sq) ind then Some (sq, MCMPST_ALROP)
      else if Suc (sq_head sq) mod sq_length sq = sq_tail sq \<and> bm_bit (sq_ready sq) (sq_tail sq)
      then Some (sq, MCMPST_OVERFLOW) else Some (sq_pushed sq ind, MCMPST_SUCCESS))"
proof -
  let ?s = "sq\<lparr>sq_values := set_bit_of (sq_values sq) ind\<rparr>"
  have wf1: "sq_wf ?s" and wf2: "h < sq_length sq \<Longrightarrow> sq_wf (?s\<lparr>sq_head := h\<rparr>)"
    and wf3: "h < sq_length sq \<Longrightarrow> sq_wf (?s\<lparr>sq_head := h, sq_items := (sq_items sq)[sq_head sq := ind]\<rparr>)" for h
    using wf by (simp_all add: sq_wf_def)
  have h: "sq_head sq < sq_length sq" and t: "sq_tail sq < sq_length sq" using wf by (simp_all add: sq_wf_def)
  have undo: "\<not> bm_bit (sq_values sq) ind \<Longrightarrow> clear_bit_of (set_bit_of (sq_values sq) ind) ind = sq_values sq"
    using wf ind by (intro clear_set_bit_of) (auto simp: sq_wf_def)
  show ?thesis
    using ind h t undo
    by (simp add: mcmpSetQueuePush_def run_push push_steps [OF wf] push_steps [OF wf1]
        push_steps [OF wf2] push_steps [OF wf3] sq_pushed_def Let_def del: push_step.simps(1,2,4-6,8-10))
qed

lemma take_runs:
  assumes wf: "sq_wf sq" and v: "sq_items sq ! sq_tail sq < sq_length sq"
  shows "mcmpSetQueueTake sq =
     (if sq_tail sq = sq_head sq then Some (sq, MCMPST_ISEMPTY, None)
      else if \<not> bm_bit (sq_ready sq) (sq_tail sq) then Some (sq, MCMPST_RETRYOP, None)
      else Some (sq_taken sq (sq_items sq ! sq_tail sq), MCMPST_SUCCESS, Some (sq_items sq ! sq_tail sq)))"
proof -
  let ?v = "sq_items sq ! sq_tail sq"
  let ?s = "sq\<lparr>sq_tail := Suc (sq_tail sq) mod sq_length sq\<rparr>"
  have wf1: "sq_wf ?s" and wf2: "sq_wf (?s\<lparr>sq_values := clear_bit_of (sq_values sq) ?v\<rparr>)"
    using wf by (simp_all add: sq_wf_def)
  have t: "sq_tail sq < sq_length sq" using wf by (simp_all add: sq_wf_def)
  show ?thesis
    using v t
    by (simp add: mcmpSetQueueTake_def run_take take_steps [OF wf] take_steps [OF wf1]
        take_steps [OF wf2] sq_taken_def del: take_step.simps(3,5-9))
qed

lemma sq_wf_pushed: "sq_wf sq \<Longrightarrow> sq_wf (sq_pushed sq v)"
  by (simp add: sq_wf_def sq_pushed_def)

lemma sq_wf_taken: "sq_wf sq \<Longrightarrow> sq_wf (sq_taken sq v)"
  by (simp add: sq_wf_def sq_taken_def)

lemma sq_head_ready:
  assumes "sq_inv sq"
  shows "Suc (sq_head sq) mod sq_length sq = sq_tail sq \<and> bm_bit (sq_ready sq) (sq_tail sq) \<longleftrightarrow>
     Suc (length (sq_view sq)) = sq_length sq"
  using assms ring_count_full [of "sq_head sq" "sq_length sq" "sq_tail sq"]
    ring_slots_tail [of "sq_head sq" "sq_length sq" "sq_tail sq"]
    ring_count_zero [of "sq_head sq" "sq_length sq" "sq_tail sq"]
  by (auto simp: sq_inv_def sq_wf_def sq_view_def)

lemma sq_view_taken:
  assumes "sq_wf sq" "sq_head sq \<noteq> sq_tail sq"
  shows "sq_view sq = sq_items sq ! sq_tail sq # sq_view (sq_taken sq v)"
  using assms by (simp add: sq_wf_def sq_view_def sq_taken_def ring_view_take [symmetric])

lemma sq_view_Nil: "sq_wf sq \<Longrightarrow> sq_view sq = [] \<longleftrightarrow> sq_head sq = sq_tail sq"
  by (auto simp: sq_wf_def sq_view_def ring_view_Nil)

lemma sq_pushed_ok:
  assumes inv: "sq_inv sq" and acc: "sq_accepts sq v"
  shows "sq_inv (sq_pushed sq v)" "sq_view (sq_pushed sq v) = sq_view sq @ [v]"
proof -
  have wf: "sq_wf sq" using inv by (simp add: sq_inv_def)
  have room: "Suc (sq_head sq) mod sq_length sq \<noteq> sq_tail sq"
    using acc wf ring_count_full [of "sq_head sq" "sq_length sq" "sq_tail sq"]
    by (auto simp: sq_accepts_def sq_view_def sq_wf_def)
  show view: "sq_view (sq_pushed sq v) = sq_view sq @ [v]"
    using wf room by (simp add: sq_view_def sq_pushed_def sq_wf_def ring_view_push)
  have slots: "ring_slots (sq_length sq) (Suc (sq_head sq) mod sq_length sq) (sq_tail sq)
      = insert (sq_head sq) (ring_slots (sq_length sq) (sq_head sq) (sq_tail sq))"
    using wf room by (simp add: ring_slots_push sq_wf_def)
  have len: "sq_length (sq_pushed sq v) = sq_length sq" "sq_head (sq_pushed sq v) = Suc (sq_head sq) mod sq_length sq"
    "sq_tail (sq_pushed sq v) = sq_tail sq" "sq_ready (sq_pushed sq v) = set_bit_of (sq_ready sq) (sq_head sq)"
    "sq_values (sq_pushed sq v) = set_bit_of (sq_values sq) v"
    by (simp_all add: sq_pushed_def)
  have "sq_head sq < 8 * length (sq_ready sq)" "v < 8 * length (sq_values sq)"
    using wf acc by (auto simp: sq_wf_def sq_accepts_def)
  then show "sq_inv (sq_pushed sq v)"
    using inv acc sq_wf_pushed [OF wf, of v]
    unfolding sq_inv_def view len slots by (auto simp: sq_accepts_def bit_set_bit_of)
qed

lemma sq_taken_ok:
  assumes inv: "sq_inv sq" and ne: "sq_head sq \<noteq> sq_tail sq"
  defines "v \<equiv> sq_items sq ! sq_tail sq"
  shows "sq_inv (sq_taken sq v)" "sq_view sq = v # sq_view (sq_taken sq v)"
proof -
  have wf: "sq_wf sq" using inv by (simp add: sq_inv_def)
  show view: "sq_view sq = v # sq_view (sq_taken sq v)"
    using sq_view_taken [OF wf ne] by (simp add: v_def)
  have slots: "ring_slots (sq_length sq) (sq_head sq) (Suc (sq_tail sq) mod sq_length sq)
      = ring_slots (sq_length sq) (sq_head sq) (sq_tail sq) - {sq_tail sq}"
    using wf ne by (intro ring_slots_take) (auto simp: sq_wf_def)
  have len: "sq_length (sq_taken sq v) = sq_length sq" "sq_head (sq_taken sq v) = sq_head sq"
    "sq_tail (sq_taken sq v) = Suc (sq_tail sq) mod sq_length sq"
    "sq_ready (sq_taken sq v) = clear_bit_of (sq_ready sq) (sq_tail sq)"
    "sq_values (sq_taken sq v) = clear_bit_of (sq_values sq) v"
    by (simp_all add: sq_taken_def)
  have v: "v < sq_length sq" using inv view by (auto simp: sq_inv_def)
  then have "sq_tail sq < 8 * length (sq_ready sq)" "v < 8 * length (sq_values sq)"
    using wf by (auto simp: sq_wf_def)
  moreover have "set (sq_view (sq_taken sq v)) = set (sq_view sq) - {v}"
    using inv unfolding sq_inv_def view by auto
  moreover have "distinct (sq_view (sq_taken sq v))" using inv unfolding sq_inv_def view by auto
  ultimately show "sq_inv (sq_taken sq v)"
    using inv sq_wf_taken [OF wf, of v]
    unfolding sq_inv_def len slots by (auto simp: bit_clear_bit_of)
qed

lemma sq_push_ok:
  assumes "sq_inv sq"
  shows "sq_accepts sq v \<Longrightarrow> mcmpSetQueuePush sq v = Some (sq_pushed sq v, MCMPST_SUCCESS)"
    and "sq_length sq \<le> v \<Longrightarrow> mcmpSetQueuePush sq v = Some (sq, MCMPST_OVERFLOW)"
    and "v \<in> set (sq_view sq) \<Longrightarrow> mcmpSetQueuePush sq v = Some (sq, MCMPST_ALROP)"
    and "v < sq_length sq \<Longrightarrow> v \<notin> set (sq_view sq) \<Longrightarrow> Suc (length (sq_view sq)) = sq_length sq \<Longrightarrow>
      mcmpSetQueuePush sq v = Some (sq, MCMPST_OVERFLOW)"
proof -
  have wf: "sq_wf sq" using assms by (simp add: sq_inv_def)
  have bit: "v < sq_length sq \<Longrightarrow> bm_bit (sq_values sq) v \<longleftrightarrow> v \<in> set (sq_view sq)"
    and sub: "v \<in> set (sq_view sq) \<Longrightarrow> v < sq_length sq"
    using assms by (auto simp: sq_inv_def)
  note full = sq_head_ready [OF assms]
  show "sq_accepts sq v \<Longrightarrow> mcmpSetQueuePush sq v = Some (sq_pushed sq v, MCMPST_SUCCESS)"
    using bit full push_runs [OF wf, of v] by (auto simp: sq_accepts_def)
  show "sq_length sq \<le> v \<Longrightarrow> mcmpSetQueuePush sq v = Some (sq, MCMPST_OVERFLOW)"
    by (simp add: mcmpSetQueuePush_def run_push)
  show "v \<in> set (sq_view sq) \<Longrightarrow> mcmpSetQueuePush sq v = Some (sq, MCMPST_ALROP)"
    using bit sub push_runs [OF wf, of v] by auto
  show "v < sq_length sq \<Longrightarrow> v \<notin> set (sq_view sq) \<Longrightarrow> Suc (length (sq_view sq)) = sq_length sq \<Longrightarrow>
      mcmpSetQueuePush sq v = Some (sq, MCMPST_OVERFLOW)"
    using bit full push_runs [OF wf, of v] by auto
qed

lemma sq_take_ok:
  assumes "sq_inv sq"
  shows "sq_view sq = [] \<Longrightarrow> mcmpSetQueueTake sq = Some (sq, MCMPST_ISEMPTY, None)"
    and "sq_view sq = v # vs \<Longrightarrow> mcmpSetQueueTake sq = Some (sq_taken sq v, MCMPST_SUCCESS, Some v)
      \<and> sq_inv (sq_taken sq v) \<and> sq_view (sq_taken sq v) = vs"
proof -
  have wf: "sq_wf sq" using assms by (simp add: sq_inv_def)
  show "sq_view sq = [] \<Longrightarrow> mcmpSetQueueTake sq = Some (sq, MCMPST_ISEMPTY, None)"
    using sq_view_Nil [OF wf] by (simp add: mcmpSetQueueTake_def run_take)
  assume v: "sq_view sq = v # vs"
  then have ne: "sq_head sq \<noteq> sq_tail sq" using sq_view_Nil [OF wf] by auto
  note taken = sq_taken_ok [OF assms ne]
  with v have item: "sq_items sq ! sq_tail sq = v" by simp
  have "v < sq_length sq" using assms v by (auto simp: sq_inv_def)
  moreover have "bm_bit (sq_ready sq) (sq_tail sq)"
    using assms ne ring_slots_tail [of "sq_head sq" "sq_length sq" "sq_tail sq"] by (auto simp: sq_inv_def sq_wf_def)
  ultimately show "mcmpSetQueueTake sq = Some (sq_taken sq v, MCMPST_SUCCESS, Some v)
      \<and> sq_inv (sq_taken sq v) \<and> sq_view (sq_taken sq v) = vs"
    using take_runs [OF wf] taken v ne item by auto
qed

interpretation set_fifo: bounded_fifo sq_inv sq_view sq_accepts mcmpSetQueuePush mcmpSetQueueTake
proof
  fix sq :: setqueue and v :: nat and vs :: "nat list"
  assume inv: "sq_inv sq"
  show "sq_accepts sq v \<Longrightarrow> \<exists>s'. mcmpSetQueuePush sq v = Some (s', MCMPST_SUCCESS) \<and> sq_inv s' \<and> sq_view s' = sq_view sq @ [v]"
    using sq_push_ok(1) [OF inv, of v] sq_pushed_ok [OF inv, of v] by auto
  show "\<not> sq_accepts sq v \<Longrightarrow> \<exists>st. mcmpSetQueuePush sq v = Some (sq, st) \<and> st \<noteq> MCMPST_SUCCESS"
    using sq_push_ok(2-4) [OF inv, of v] ring_count_less [of "sq_head sq" "sq_length sq" "sq_tail sq"] inv
    unfolding sq_accepts_def sq_inv_def sq_wf_def sq_view_def length_ring_view
    by (metis Suc_lessI linorder_not_le mcmpst.distinct(3,23))
  show "sq_view sq = [] \<Longrightarrow> \<exists>st. mcmpSetQueueTake sq = Some (sq, st, None) \<and> st \<noteq> MCMPST_SUCCESS"
    using sq_take_ok(1) [OF inv] by auto
  show "sq_view sq = v # vs \<Longrightarrow> \<exists>s'. mcmpSetQueueTake sq = Some (s', MCMPST_SUCCESS, Some v) \<and> sq_inv s' \<and> sq_view s' = vs"
    using sq_take_ok(2) [OF inv, of v vs] by auto
qed

abbreviation sq_run :: "nat qop list \<Rightarrow> setqueue \<Rightarrow> (nat list \<times> nat list \<times> setqueue) ub" where
  "sq_run \<equiv> fifo_run mcmpSetQueuePush mcmpSetQueueTake"

lemma sq_fill:
  "sq_inv sq \<Longrightarrow> distinct (sq_view sq @ xs) \<Longrightarrow> set xs \<subseteq> {..<sq_length sq} \<Longrightarrow>
     length (sq_view sq @ xs) < sq_length sq \<Longrightarrow>
     \<exists>sq'. sq_run (map Push xs) sq = Some (xs, [], sq') \<and> sq_inv sq' \<and> sq_view sq' = sq_view sq @ xs
       \<and> sq_length sq' = sq_length sq"
proof (induction xs arbitrary: sq)
  case (Cons x xs)
  have acc: "sq_accepts sq x" using Cons.prems by (auto simp: sq_accepts_def)
  note pushed = sq_pushed_ok [OF Cons.prems(1) acc]
  have "sq_length (sq_pushed sq x) = sq_length sq" by (simp add: sq_pushed_def)
  then show ?case
    using Cons.IH [of "sq_pushed sq x"] Cons.prems pushed sq_push_ok(1) [OF Cons.prems(1) acc] by auto
qed simp

section \<open>Creation\<close>

lemma create_runs:
  assumes "len < 2 ^ 60" "malloc_ok (64 + ((len + 7) div 8) * 2 + 8 * len)"
  shows "mcmpSetQueueCreate malloc_ok junk len = Some (Inr
    \<lparr>sq_byteslength = (len + 7) div 8, sq_length = len, sq_head = 0, sq_tail = 0,
     sq_values = replicate ((len + 7) div 8) 0, sq_ready = replicate ((len + 7) div 8) 0,
     sq_items = map junk [0..<len]\<rparr>)"
proof -
  have "(len + 7) div 8 * 2 \<le> len + 7" by linarith
  then show ?thesis using assms by (simp add: mcmpSetQueueCreate_def Let_def)
qed

lemma sq_fresh:
  assumes "len < 2 ^ 60" "2 \<le> len" "malloc_ok (64 + ((len + 7) div 8) * 2 + 8 * len)"
  obtains sq where "mcmpSetQueueCreate malloc_ok junk len = Some (Inr sq)" "sq_inv sq" "sq_view sq = []"
    "sq_length sq = len"
proof -
  have "len \<le> 8 * ((len + 7) div 8)" by linarith
  moreover have "\<not> bm_bit (replicate ((len + 7) div 8) 0) j" if "j < len" for j
    using that by (simp add: bm_bit_def)
  ultimately show thesis
    using that create_runs [of len malloc_ok junk, OF assms(1,3)] assms(1,2)
    by (simp add: sq_inv_def sq_wf_def sq_view_def)
qed

section \<open>Properties\<close>

text \<open>
  C1: Any sequence of pushes and takes, accepted or refused, is executed without undefined behaviour and returns, and
  behaves as a first-in first-out list: what was enqueued before, followed by the accepted values in order, is what the
  takes returned in order, followed by what is still enqueued.
\<close>

theorem set_queue_fifo:
  assumes "sq_inv sq"
  shows "\<exists>ins outs sq'. sq_run ops sq = Some (ins, outs, sq') \<and> sq_inv sq' \<and> sq_view sq @ ins = outs @ sq_view sq'"
  by (rule set_fifo.run_fifo [OF assms])

text \<open>
  C14: A push reports MCMPST_OVERFLOW for a value that is not below the length and MCMPST_ALROP for one that is enqueued,
  and reports MCMPST_OVERFLOW when all slots but one are in use, each time leaving the queue as it was; in the remaining
  case it reports MCMPST_SUCCESS and appends the value.
\<close>

theorem set_queue_push:
  assumes "sq_inv sq"
  shows "if sq_length sq \<le> v then mcmpSetQueuePush sq v = Some (sq, MCMPST_OVERFLOW)
     else if v \<in> set (sq_view sq) then mcmpSetQueuePush sq v = Some (sq, MCMPST_ALROP)
     else if Suc (length (sq_view sq)) = sq_length sq then mcmpSetQueuePush sq v = Some (sq, MCMPST_OVERFLOW)
     else \<exists>sq'. mcmpSetQueuePush sq v = Some (sq', MCMPST_SUCCESS) \<and> sq_inv sq' \<and> sq_view sq' = sq_view sq @ [v]"
proof -
  have "length (sq_view sq) < sq_length sq"
    using assms by (simp add: sq_inv_def sq_wf_def sq_view_def ring_count_less)
  then show ?thesis
    using sq_push_ok [OF assms, of v] sq_pushed_ok [OF assms, of v] by (auto simp: sq_accepts_def)
qed

text \<open>
  A take reports MCMPST_ISEMPTY and changes nothing when nothing is enqueued, and otherwise reports MCMPST_SUCCESS,
  hands out the oldest value and removes it, so that the value can be enqueued again.
\<close>

lemma set_queue_take:
  assumes "sq_inv sq"
  shows "case sq_view sq of
      [] \<Rightarrow> mcmpSetQueueTake sq = Some (sq, MCMPST_ISEMPTY, None)
    | v # vs \<Rightarrow> \<exists>sq'. mcmpSetQueueTake sq = Some (sq', MCMPST_SUCCESS, Some v) \<and> sq_inv sq' \<and> sq_view sq' = vs"
  using sq_take_ok [OF assms] by (auto split: list.splits)

text \<open>
  On a queue created for \<open>len\<close> indices, any \<open>len - 1\<close> or fewer distinct indices below \<open>len\<close> can be enqueued one
  after the other and come out in the same order, after which the queue is empty.
\<close>

lemma set_queue_roundtrip:
  assumes "2 \<le> len" "len < 2 ^ 60" "malloc_ok (64 + ((len + 7) div 8) * 2 + 8 * len)"
    and "distinct xs" "set xs \<subseteq> {..<len}" "length xs < len"
  shows "\<exists>sq sq'. mcmpSetQueueCreate malloc_ok junk len = Some (Inr sq)
    \<and> sq_run (map Push xs @ replicate (length xs) Take) sq = Some (xs, xs, sq') \<and> sq_view sq' = []"
proof -
  obtain sq where sq: "mcmpSetQueueCreate malloc_ok junk len = Some (Inr sq)" "sq_inv sq" "sq_view sq = []"
      "sq_length sq = len"
    using sq_fresh [of len malloc_ok junk, OF assms(2,1,3)] by blast
  obtain s1 where s1: "sq_run (map Push xs) sq = Some (xs, [], s1)" "sq_inv s1" "sq_view s1 = xs"
    using sq_fill [OF sq(2), of xs] sq(3,4) assms(4-6) by auto
  obtain s2 where "sq_run (replicate (length xs) Take) s1 = Some ([], xs, s2)" "sq_view s2 = []"
    using set_fifo.run_takes [OF s1(2)] s1(3) by auto
  then show ?thesis using set_fifo.run_append [OF s1(1)] sq(1) by auto
qed

text \<open>
  A queue of length 1 loses its element: the push of 0 reports success, the take that follows reports that the queue
  is empty, and no later push of 0 is accepted.
\<close>

lemma set_queue_of_one_loses:
  "\<exists>sq sq'. mcmpSetQueueCreate (\<lambda>_. True) junk 1 = Some (Inr sq)
     \<and> mcmpSetQueuePush sq 0 = Some (sq', MCMPST_SUCCESS)
     \<and> mcmpSetQueueTake sq' = Some (sq', MCMPST_ISEMPTY, None)
     \<and> mcmpSetQueuePush sq' 0 = Some (sq', MCMPST_ALROP)"
proof -
  let ?sq = "\<lparr>sq_byteslength = 1, sq_length = 1, sq_head = 0, sq_tail = 0, sq_values = [0], sq_ready = [0],
     sq_items = [junk 0]\<rparr>"
  let ?sq' = "?sq\<lparr>sq_values := [1], sq_ready := [1], sq_items := [0]\<rparr>"
  have "mcmpSetQueueCreate (\<lambda>_. True) junk 1 = Some (Inr ?sq)"
    by (simp add: mcmpSetQueueCreate_def)
  moreover have "mcmpSetQueuePush ?sq 0 = Some (?sq', MCMPST_SUCCESS)"
    by (simp add: mcmpSetQueuePush_def run_push mem_simps bitmask_def ring_next_def cas8_def store_at_def
        load_at_def mcmpAtomicBitmapIsEnabledBit_def c_shl1_def u8_cast_def)
  moreover have "mcmpSetQueueTake ?sq' = Some (?sq', MCMPST_ISEMPTY, None)"
    by (simp add: mcmpSetQueueTake_def run_take)
  moreover have "mcmpSetQueuePush ?sq' 0 = Some (?sq', MCMPST_ALROP)"
    by (simp add: mcmpSetQueuePush_def run_push mem_simps bitmask_def)
  ultimately show ?thesis by blast
qed

text \<open>
  The size that a creation requests is computed modulo \<open>2 ^ 64\<close> and not checked: for \<open>2 ^ 61\<close> indices the block
  holds no item at all, the creation still succeeds, and the first push writes outside the block.
\<close>

lemma set_queue_size_wraps:
  "\<exists>sq. mcmpSetQueueCreate (\<lambda>_. True) junk (2 ^ 61) = Some (Inr sq) \<and> sq_length sq = 2 ^ 61
     \<and> mcmpSetQueuePush sq 0 = None"
proof -
  let ?n = "288230376151711744 :: nat"
  let ?sq = "\<lparr>sq_byteslength = ?n, sq_length = 2 ^ 61, sq_head = 0, sq_tail = 0,
     sq_values = replicate ?n 0, sq_ready = replicate ?n 0, sq_items = []\<rparr>"
  have "mcmpSetQueueCreate (\<lambda>_. True) junk (2 ^ 61) = Some (Inr ?sq)"
    by (simp add: mcmpSetQueueCreate_def Let_def)
  moreover have "mcmpSetQueuePush ?sq 0 = None"
    by (simp add: mcmpSetQueuePush_def run_push load8_def bitmask_def ring_next_def cas8_def store_at_def load_at_def)
  ultimately show ?thesis by (metis setqueue.select_convs(2))
qed

section \<open>Witnesses\<close>

text \<open>A queue of four indices in which 3 and then 1 wait, wrapped around the end of the ring.\<close>

definition sample_queue :: setqueue where
  "sample_queue = \<lparr>sq_byteslength = 1, sq_length = 4, sq_head = 1, sq_tail = 3, sq_values = [10],
     sq_ready = [9], sq_items = [1, 0, 2, 3]\<rparr>"

lemma sample_queue_ok: "sq_inv sample_queue" "sq_view sample_queue = [3, 1]"
proof -
  show view: "sq_view sample_queue = [3, 1]" by code_simp
  have "sq_wf sample_queue" by (simp add: sq_wf_def sample_queue_def)
  moreover have "\<forall>j < 4. bm_bit (sq_ready sample_queue) j \<longleftrightarrow> j \<in> ring_slots 4 1 3" by code_simp
  moreover have "\<forall>j < 4. bm_bit (sq_values sample_queue) j \<longleftrightarrow> j \<in> {3, 1}" by code_simp
  ultimately show "sq_inv sample_queue"
    unfolding sq_inv_def view by (simp add: sample_queue_def)
qed

theorem set_queue_fifo_witness:
  "\<exists>ins outs sq'. sq_run [Take, Push 3, Push 3, Take] sample_queue = Some (ins, outs, sq') \<and> sq_inv sq'
     \<and> [3, 1] @ ins = outs @ sq_view sq'"
  using set_queue_fifo [OF sample_queue_ok(1)] by (simp only: sample_queue_ok(2))

theorem set_queue_push_witness:
  "\<exists>sq'. mcmpSetQueuePush sample_queue 2 = Some (sq', MCMPST_SUCCESS) \<and> sq_inv sq' \<and> sq_view sq' = [3, 1, 2]"
  using set_queue_push [OF sample_queue_ok(1), of 2] sample_queue_ok(2) by (simp add: sample_queue_def)

lemma set_queue_take_witness:
  "\<exists>sq'. mcmpSetQueueTake sample_queue = Some (sq', MCMPST_SUCCESS, Some 3) \<and> sq_inv sq' \<and> sq_view sq' = [1]"
  using set_queue_take [OF sample_queue_ok(1)] by (simp add: sample_queue_ok(2))

lemma set_queue_roundtrip_witness:
  "\<exists>sq sq'. mcmpSetQueueCreate (\<lambda>bytes. bytes \<le> 4096) (\<lambda>_. 77) 4 = Some (Inr sq)
    \<and> sq_run (map Push [2, 0, 3] @ replicate 3 Take) sq = Some ([2, 0, 3], [2, 0, 3], sq') \<and> sq_view sq' = []"
  using set_queue_roundtrip [of 4 "\<lambda>bytes. bytes \<le> 4096" "[2, 0, 3]" "\<lambda>_. 77"]
  by (simp add: numeral_3_eq_3 del: replicate.simps fifo_run.simps list.map append.simps)

end
