(* ===== verification/Set_Queue_Conc.thy ===== *)
theory Set_Queue_Conc
  imports Set_Queue Transition
begin

text \<open>
  The set queue under concurrency: the step machines of \<^verbatim>\<open>mcmpSetQueuePush\<close> and
  \<^verbatim>\<open>mcmpSetQueueTake\<close> interleaved at every atomic access, in sequentially consistent memory. With one
  producer and one consumer (each makes one call after the other, the producer with any values) the
  queue is a first-in first-out channel; with more threads on one end it is not, which two explicit
  schedules show.

  Ghost state records what the threads did: \<open>sp_in\<close> the values whose slot was claimed by a swap of
  the head, \<open>sp_ack\<close> those whose push returned success, \<open>sp_claims\<close> how often the tail was swapped,
  \<open>sp_out\<close> the values that takes returned.
\<close>

section \<open>One producer and one consumer\<close>

datatype producer = PIdle | PIn nat push_pc
datatype consumer = CIdle | CIn take_pc
datatype role = Producer | Consumer

record spsc =
  sp_queue :: setqueue
  sp_prod :: producer
  sp_cons :: consumer
  sp_in :: "nat list"
  sp_ack :: "nat list"
  sp_claims :: nat
  sp_out :: "nat list"

fun publishes :: "setqueue \<Rightarrow> push_pc \<Rightarrow> bool" where
  "publishes sq (P_CasHead index nxt) = (sq_head sq = index)"
| "publishes sq _ = False"

fun claims_slot :: "setqueue \<Rightarrow> take_pc \<Rightarrow> bool" where
  "claims_slot sq (T_CasTail index nxt) = (sq_tail sq = index)"
| "claims_slot sq _ = False"

inductive spsc_move :: "role \<Rightarrow> spsc \<Rightarrow> spsc \<Rightarrow> bool" where
  call_push: "sp_prod s = PIdle \<Longrightarrow> spsc_move Producer s (s\<lparr>sp_prod := PIn v P_LoadSet\<rparr>)"
| step_push: "sp_prod s = PIn v p \<Longrightarrow> push_result p = None \<Longrightarrow> push_step v (sp_queue s) p = Some (q', p') \<Longrightarrow>
     spsc_move Producer s (s\<lparr>sp_queue := q', sp_prod := PIn v p',
       sp_in := (if publishes (sp_queue s) p then sp_in s @ [v] else sp_in s)\<rparr>)"
| return_push: "sp_prod s = PIn v (P_Done st) \<Longrightarrow>
     spsc_move Producer s (s\<lparr>sp_prod := PIdle,
       sp_ack := (if st = MCMPST_SUCCESS then sp_ack s @ [v] else sp_ack s)\<rparr>)"
| call_take: "sp_cons s = CIdle \<Longrightarrow> spsc_move Consumer s (s\<lparr>sp_cons := CIn T_LoadTail\<rparr>)"
| step_take: "sp_cons s = CIn p \<Longrightarrow> take_result p = None \<Longrightarrow> take_step (sp_queue s) p = Some (q', p') \<Longrightarrow>
     spsc_move Consumer s (s\<lparr>sp_queue := q', sp_cons := CIn p',
       sp_claims := (if claims_slot (sp_queue s) p then Suc (sp_claims s) else sp_claims s)\<rparr>)"
| return_take: "sp_cons s = CIn (T_Done st r) \<Longrightarrow>
     spsc_move Consumer s (s\<lparr>sp_cons := CIdle,
       sp_out := (case r of Some v \<Rightarrow> sp_out s @ [v] | None \<Rightarrow> sp_out s)\<rparr>)"

definition spsc_step :: "spsc \<Rightarrow> spsc \<Rightarrow> bool" where
  "spsc_step s t \<longleftrightarrow> (\<exists>r. spsc_move r s t)"

definition spsc_init :: "spsc \<Rightarrow> bool" where
  "spsc_init s \<longleftrightarrow> sq_inv (sp_queue s) \<and> sq_view (sp_queue s) = [] \<and> sq_head (sp_queue s) = 0
     \<and> sp_prod s = PIdle \<and> sp_cons s = CIdle
     \<and> sp_in s = [] \<and> sp_ack s = [] \<and> sp_claims s = 0 \<and> sp_out s = []"

section \<open>The invariant\<close>

text \<open>
  The state of the queue in terms of the ghost counters: \<open>xs\<close> are the values published so far and
  \<open>t\<close> the slots claimed by takes. Items are as published for positions from \<open>li\<close> up to \<open>hi\<close>, ready
  bits are set from \<open>lr\<close> up to \<open>hr\<close>, value bits belong to the values published from \<open>lv\<close> on and to
  the pending value of a push.
\<close>

definition queue_core ::
  "setqueue \<Rightarrow> nat list \<Rightarrow> nat \<Rightarrow> nat \<Rightarrow> nat \<Rightarrow> nat \<Rightarrow> nat \<Rightarrow> nat \<Rightarrow> nat list \<Rightarrow> bool" where
  "queue_core q xs t li hi lr hr lv pend \<longleftrightarrow>
     (let n = sq_length q in
       sq_wf q \<and> sq_head q = length xs mod n \<and> sq_tail q = t mod n
     \<and> length xs < t + n \<and> t \<le> hr \<and> hr \<le> hi \<and> hi \<le> length xs
     \<and> t \<le> Suc li \<and> t \<le> Suc lr \<and> t \<le> Suc lv \<and> lr \<le> t \<and> lv \<le> t
     \<and> (\<forall>k. li \<le> k \<and> k < hi \<longrightarrow> sq_items q ! (k mod n) = xs ! k)
     \<and> (\<forall>j < n. bm_bit (sq_ready q) j \<longleftrightarrow> (\<exists>k. lr \<le> k \<and> k < hr \<and> j = k mod n))
     \<and> (\<forall>u < n. bm_bit (sq_values q) u \<longleftrightarrow> u \<in> set (drop lv xs @ pend))
     \<and> distinct (drop lv xs @ pend) \<and> set (xs @ pend) \<subseteq> {..<n})"

lemma core_facts:
  assumes "queue_core q xs t li hi lr hr lv pend"
  shows "sq_wf q" "sq_head q = length xs mod sq_length q" "sq_tail q = t mod sq_length q"
    "length xs < t + sq_length q" "t \<le> length xs" "t \<le> hr" "2 \<le> sq_length q"
    "\<And>k. k mod sq_length q < sq_length q" "set (drop lv xs @ pend) \<subseteq> {..<sq_length q}"
    "\<And>k. k < length xs \<Longrightarrow> xs ! k < sq_length q"
proof -
  have all: "sq_wf q" "set xs \<subseteq> {..<sq_length q}" "set pend \<subseteq> {..<sq_length q}"
    using assms by (simp_all add: queue_core_def Let_def)
  then show "set (drop lv xs @ pend) \<subseteq> {..<sq_length q}"
    using set_drop_subset [of lv xs] by auto
  show "xs ! k < sq_length q" if "k < length xs" for k
    using all(2) nth_mem [OF that] by blast
  show "k mod sq_length q < sq_length q" for k using all(1) by (simp add: sq_wf_def)
qed (use assms in \<open>simp_all add: queue_core_def Let_def sq_wf_def\<close>)

lemma core_bytes:
  assumes "queue_core q xs t li hi lr hr lv pend"
  shows "k mod sq_length q < 8 * length (sq_ready q)" "k mod sq_length q < length (sq_items q)"
    "v < sq_length q \<Longrightarrow> v < 8 * length (sq_values q)"
  using core_facts(1) [OF assms] core_facts(8) [OF assms, of k] unfolding sq_wf_def by linarith+

lemma core_mark:
  assumes core: "queue_core q xs t li hi lr hr lv []" and v: "v < sq_length q" "\<not> bm_bit (sq_values q) v"
  shows "queue_core (q\<lparr>sq_values := set_bit_of (sq_values q) v\<rparr>) xs t li hi lr hr lv [v]"
proof -
  have "v < 8 * length (sq_values q)" using core_bytes(3) [OF core] v by simp
  moreover have "v \<notin> set (drop lv xs)" using core v by (auto simp: queue_core_def Let_def)
  ultimately show ?thesis
    using core v(1) sq_wf_update(1) [of q "set_bit_of (sq_values q) v"]
    by (simp add: queue_core_def Let_def bit_set_bit_of) blast
qed

lemma core_unmark_pending:
  assumes core: "queue_core q xs t li hi lr hr lv [v]"
  shows "queue_core (q\<lparr>sq_values := clear_bit_of (sq_values q) v\<rparr>) xs t li hi lr hr lv []"
proof -
  have "v < 8 * length (sq_values q)" using core_bytes(3) [OF core] core_facts(9) [OF core] by simp
  moreover have "v \<notin> set (drop lv xs)" using core by (auto simp: queue_core_def Let_def)
  ultimately show ?thesis
    using core sq_wf_update(1) [of q "clear_bit_of (sq_values q) v"]
    by (simp add: queue_core_def Let_def bit_clear_bit_of) blast
qed

lemma core_publish:
  assumes core: "queue_core q xs t li (length xs) lr (length xs) lv [v]" and room: "Suc (length xs) < t + sq_length q"
  shows "queue_core (q\<lparr>sq_head := Suc (length xs) mod sq_length q\<rparr>) (xs @ [v]) t li (length xs) lr (length xs) lv []"
proof -
  have "lv \<le> length xs" using core by (simp add: queue_core_def Let_def)
  then show ?thesis
    using core room sq_wf_update(4) [of q "Suc (length xs) mod sq_length q"] core_facts(8) [OF core]
    by (simp add: queue_core_def Let_def nth_append)
qed

lemma core_store:
  assumes core: "queue_core q (xs @ [v]) t li (length xs) lr (length xs) lv []"
  shows "queue_core (q\<lparr>sq_items := (sq_items q)[length xs mod sq_length q := v]\<rparr>)
    (xs @ [v]) t li (Suc (length xs)) lr (length xs) lv []"
proof -
  let ?n = "sq_length q"
  have li: "length xs < li + ?n" using core by (auto simp: queue_core_def Let_def)
  note slot = core_bytes(2) [OF core, of "length xs"]
  have "(sq_items q)[length xs mod ?n := v] ! (k mod ?n) = (xs @ [v]) ! k" if "li \<le> k" "k < Suc (length xs)" for k
  proof (cases "k = length xs")
    case True
    then show ?thesis using slot by simp
  next
    case False
    then have "k mod ?n \<noteq> length xs mod ?n"
      using that li mod_window_inj [of k ?n "length xs"] by auto
    then show ?thesis using core that False by (auto simp: queue_core_def Let_def nth_append)
  qed
  moreover have "lv \<le> length xs" using core by (simp add: queue_core_def Let_def)
  ultimately show ?thesis
    using core sq_wf_update(3) [of q "(sq_items q)[length xs mod ?n := v]"]
    by (simp add: queue_core_def Let_def)
qed

lemma core_ready:
  assumes core: "queue_core q (xs @ [v]) t li (Suc (length xs)) lr (length xs) lv []"
  shows "queue_core (q\<lparr>sq_ready := set_bit_of (sq_ready q) (length xs mod sq_length q)\<rparr>)
    (xs @ [v]) t li (Suc (length xs)) lr (Suc (length xs)) lv []"
proof -
  let ?n = "sq_length q" let ?h = "length xs"
  have bits: "\<forall>j < ?n. bm_bit (sq_ready q) j \<longleftrightarrow> (\<exists>k. lr \<le> k \<and> k < ?h \<and> j = k mod ?n)" and lr: "lr \<le> ?h"
    using core by (simp_all add: queue_core_def Let_def)
  have "bm_bit (set_bit_of (sq_ready q) (?h mod ?n)) j \<longleftrightarrow> (\<exists>k. lr \<le> k \<and> k < Suc ?h \<and> j = k mod ?n)"
    if "j < ?n" for j
    using bits that lr core_bytes(1) [OF core, of ?h] by (auto simp: bit_set_bit_of less_Suc_eq)
  moreover have "lv \<le> length xs" using core by (simp add: queue_core_def Let_def)
  ultimately show ?thesis
    using core sq_wf_update(2) [of q "set_bit_of (sq_ready q) (?h mod ?n)"]
    by (simp add: queue_core_def Let_def)
qed

lemma core_claim:
  assumes core: "queue_core q xs t t hi t hr t pend" and t: "t < hr"
  shows "queue_core (q\<lparr>sq_tail := Suc t mod sq_length q\<rparr>) xs (Suc t) t hi t hr t pend"
  using core t sq_wf_update(5) [of q "Suc t mod sq_length q"] core_facts(8) [OF core]
  by (simp add: queue_core_def Let_def)

lemma core_read:
  assumes core: "queue_core q xs (Suc t) t hi lr hr lv pend"
  shows "queue_core q xs (Suc t) (Suc t) hi lr hr lv pend" "sq_items q ! (t mod sq_length q) = xs ! t"
    "xs ! t < sq_length q"
  using core core_facts(10) [OF core, of t] by (auto simp: queue_core_def Let_def)

lemma core_unmark:
  assumes core: "queue_core q xs (Suc t) li hi lr hr t pend"
  shows "queue_core (q\<lparr>sq_values := clear_bit_of (sq_values q) (xs ! t)\<rparr>) xs (Suc t) li hi lr hr (Suc t) pend"
proof -
  have t: "t < length xs" using core_facts(5) [OF core] by simp
  then have d: "drop t xs = xs ! t # drop (Suc t) xs" by (simp add: Cons_nth_drop_Suc)
  have "xs ! t < 8 * length (sq_values q)" using core_bytes(3) [OF core] core_facts(10) [OF core t] by simp
  moreover have "xs ! t \<notin> set (drop (Suc t) xs @ pend)" using core by (auto simp: queue_core_def Let_def d)
  ultimately show ?thesis
    using core sq_wf_update(1) [of q "clear_bit_of (sq_values q) (xs ! t)"]
    by (simp add: queue_core_def Let_def bit_clear_bit_of d) blast
qed

lemma core_unready:
  assumes core: "queue_core q xs (Suc t) li hi t hr lv pend"
  shows "queue_core (q\<lparr>sq_ready := clear_bit_of (sq_ready q) (t mod sq_length q)\<rparr>) xs (Suc t) li hi (Suc t) hr lv pend"
proof -
  let ?n = "sq_length q"
  have bits: "\<forall>j < ?n. bm_bit (sq_ready q) j \<longleftrightarrow> (\<exists>k. t \<le> k \<and> k < hr \<and> j = k mod ?n)" and hr: "hr \<le> t + ?n"
    using core by (auto simp: queue_core_def Let_def)
  have "t mod ?n \<noteq> k mod ?n" if "Suc t \<le> k" "k < hr" for k
    using that hr mod_window_inj [of t ?n k] by auto
  then have "(\<exists>k. t \<le> k \<and> k < hr \<and> j = k mod ?n) \<and> j \<noteq> t mod ?n \<longleftrightarrow> (\<exists>k. Suc t \<le> k \<and> k < hr \<and> j = k mod ?n)" for j
    by (metis Suc_leD Suc_leI le_neq_implies_less)
  then have "bm_bit (clear_bit_of (sq_ready q) (t mod ?n)) j \<longleftrightarrow> (\<exists>k. Suc t \<le> k \<and> k < hr \<and> j = k mod ?n)"
    if "j < ?n" for j
    using bits that by (simp add: bit_clear_bit_of core_bytes(1) [OF core])
  then show ?thesis
    using core sq_wf_update(2) [of q "clear_bit_of (sq_ready q) (t mod ?n)"]
    by (simp add: queue_core_def Let_def)
qed

lemma core_ready_bit:
  assumes core: "queue_core q xs t li hi t hr lv pend"
  shows "bm_bit (sq_ready q) (t mod sq_length q) \<longleftrightarrow> t < hr"
proof -
  let ?n = "sq_length q"
  have bits: "\<forall>j < ?n. bm_bit (sq_ready q) j \<longleftrightarrow> (\<exists>k. t \<le> k \<and> k < hr \<and> j = k mod ?n)" and hr: "hr \<le> t + ?n"
    using core by (auto simp: queue_core_def Let_def)
  have "bm_bit (sq_ready q) (t mod ?n) \<longleftrightarrow> (\<exists>k. t \<le> k \<and> k < hr \<and> t mod ?n = k mod ?n)"
    using bits core_facts(8) [OF core, of t] by simp
  then show ?thesis using hr mod_window_inj [of t ?n] by auto
qed

text \<open>What the program counters owe to the queue.\<close>

fun pending :: "producer \<Rightarrow> nat list" where
  "pending (PIn v P_LoadTail) = [v]"
| "pending (PIn v (P_LoadHead w)) = [v]"
| "pending (PIn v (P_CheckReady i n)) = [v]"
| "pending (PIn v P_Undo) = [v]"
| "pending (PIn v (P_CasHead i n)) = [v]"
| "pending _ = []"

fun unstored :: "producer \<Rightarrow> bool" where
  "unstored (PIn v (P_StoreItem i)) = True"
| "unstored _ = False"

fun unready :: "producer \<Rightarrow> bool" where
  "unready (PIn v (P_StoreItem i)) = True"
| "unready (PIn v (P_LoadReady i)) = True"
| "unready (PIn v (P_CasReady i e)) = True"
| "unready _ = False"

fun unacked :: "producer \<Rightarrow> bool" where
  "unacked (PIn v (P_Done st)) = (st = MCMPST_SUCCESS)"
| "unacked p = unready p"

fun unread :: "consumer \<Rightarrow> bool" where
  "unread (CIn (T_ReadItem i)) = True"
| "unread _ = False"

fun marked :: "consumer \<Rightarrow> bool" where
  "marked (CIn (T_ReadItem i)) = True"
| "marked (CIn (T_LoadSet i v)) = True"
| "marked (CIn (T_CasSet i v e)) = True"
| "marked _ = False"

fun uncleared :: "consumer \<Rightarrow> bool" where
  "uncleared (CIn (T_LoadRdy i v)) = True"
| "uncleared (CIn (T_CasRdy i v e)) = True"
| "uncleared c = marked c"

fun unreturned :: "consumer \<Rightarrow> bool" where
  "unreturned (CIn (T_Done st r)) = (st = MCMPST_SUCCESS)"
| "unreturned c = uncleared c"

text \<open>What the program counters know.\<close>

fun prod_ok :: "nat \<Rightarrow> nat list \<Rightarrow> nat \<Rightarrow> producer \<Rightarrow> bool" where
  "prod_ok n xs t (PIn v (P_CasSet e)) = (v < n \<and> \<not> bit e (v mod 8))"
| "prod_ok n xs t (PIn v (P_LoadHead w)) = (\<exists>t1 \<le> t. w = t1 mod n \<and> length xs < t1 + n)"
| "prod_ok n xs t (PIn v (P_CheckReady i nxt)) =
     (i = length xs mod n \<and> nxt = Suc (length xs) mod n \<and> (\<exists>t1 \<le> t. Suc (length xs) = t1 + n))"
| "prod_ok n xs t (PIn v (P_CasHead i nxt)) =
     (i = length xs mod n \<and> nxt = Suc (length xs) mod n \<and> Suc (length xs) < t + n)"
| "prod_ok n xs t (PIn v (P_StoreItem i)) = (\<exists>ys. xs = ys @ [v] \<and> i = length ys mod n)"
| "prod_ok n xs t (PIn v (P_LoadReady i)) = (\<exists>ys. xs = ys @ [v] \<and> i = length ys mod n)"
| "prod_ok n xs t (PIn v (P_CasReady i e)) = (\<exists>ys. xs = ys @ [v] \<and> i = length ys mod n)"
| "prod_ok n xs t (PIn v (P_Done st)) = (st = MCMPST_SUCCESS \<longrightarrow> (\<exists>ys. xs = ys @ [v]))"
| "prod_ok n xs t _ = True"

fun cons_ok :: "nat \<Rightarrow> nat list \<Rightarrow> nat \<Rightarrow> nat \<Rightarrow> consumer \<Rightarrow> bool" where
  "cons_ok n xs t hr (CIn (T_LoadHead i)) = (i = t mod n)"
| "cons_ok n xs t hr (CIn (T_LoadReady i)) = (i = t mod n)"
| "cons_ok n xs t hr (CIn (T_CasTail i nxt)) = (i = t mod n \<and> nxt = Suc t mod n \<and> t < hr)"
| "cons_ok n xs t hr (CIn (T_ReadItem i)) = (\<exists>u. t = Suc u \<and> i = u mod n)"
| "cons_ok n xs t hr (CIn (T_LoadSet i v)) = (\<exists>u. t = Suc u \<and> i = u mod n \<and> v = xs ! u)"
| "cons_ok n xs t hr (CIn (T_CasSet i v e)) = (\<exists>u. t = Suc u \<and> i = u mod n \<and> v = xs ! u)"
| "cons_ok n xs t hr (CIn (T_LoadRdy i v)) = (\<exists>u. t = Suc u \<and> i = u mod n \<and> v = xs ! u)"
| "cons_ok n xs t hr (CIn (T_CasRdy i v e)) = (\<exists>u. t = Suc u \<and> i = u mod n \<and> v = xs ! u)"
| "cons_ok n xs t hr (CIn (T_Done st r)) =
     (if st = MCMPST_SUCCESS then \<exists>u. t = Suc u \<and> r = Some (xs ! u) else r = None)"
| "cons_ok n xs t hr _ = True"

abbreviation stored :: "nat list \<Rightarrow> producer \<Rightarrow> nat" where
  "stored xs p \<equiv> length xs - of_bool (unstored p)"

abbreviation readied :: "nat list \<Rightarrow> producer \<Rightarrow> nat" where
  "readied xs p \<equiv> length xs - of_bool (unready p)"

definition spsc_inv :: "spsc \<Rightarrow> bool" where
  "spsc_inv s \<longleftrightarrow>
     (let q = sp_queue s; xs = sp_in s; t = sp_claims s; p = sp_prod s; c = sp_cons s in
       queue_core q xs t (t - of_bool (unread c)) (stored xs p) (t - of_bool (uncleared c)) (readied xs p)
         (t - of_bool (marked c)) (pending p)
     \<and> prod_ok (sq_length q) xs t p \<and> cons_ok (sq_length q) xs t (readied xs p) c
     \<and> sp_out s = take (t - of_bool (unreturned c)) xs \<and> sp_ack s = take (length xs - of_bool (unacked p)) xs)"

lemma cons_ok_mono:
  assumes "cons_ok n xs t hr c" "t \<le> length xs" "hr \<le> hr'"
  shows "cons_ok n (xs @ ys) t hr' c"
proof (cases c)
  case (CIn p)
  show ?thesis
  proof (cases t)
    case 0
    then show ?thesis using assms CIn by (cases p) (simp_all split: if_splits)
  next
    case (Suc u)
    then have "(xs @ ys) ! u = xs ! u" using assms(2) by (simp add: nth_append)
    then show ?thesis using assms CIn Suc by (cases p) (simp_all split: if_splits)
  qed
qed simp

lemma prod_ok_mono: "prod_ok n xs t p \<Longrightarrow> prod_ok n xs (Suc t) p"
proof (cases p)
  case (PIn v pc)
  then show "prod_ok n xs t p \<Longrightarrow> ?thesis" by (cases pc) (auto intro: le_SucI)
qed simp

section \<open>Each step keeps the invariant\<close>

text \<open>A step of the producer, whatever the consumer owes to the queue.\<close>

definition prod_keeps :: "setqueue \<Rightarrow> nat list \<Rightarrow> nat \<Rightarrow> nat \<Rightarrow> nat \<Rightarrow> nat \<Rightarrow> producer \<Rightarrow> bool" where
  "prod_keeps q xs t li lr lv p \<longleftrightarrow>
     queue_core q xs t li (stored xs p) lr (readied xs p) lv (pending p) \<and> prod_ok (sq_length q) xs t p"

lemma push_step_keeps:
  assumes inv: "prod_keeps q xs t li lr lv (PIn v pc)" and step: "push_step v q pc = Some (q', pc')"
    and none: "push_result pc = None" and xs': "xs' = (if publishes q pc then xs @ [v] else xs)"
  shows "prod_keeps q' xs' t li lr lv (PIn v pc') \<and> sq_length q' = sq_length q
    \<and> readied xs (PIn v pc) \<le> readied xs' (PIn v pc')
    \<and> take (length xs' - of_bool (unacked (PIn v pc'))) xs' = take (length xs - of_bool (unacked (PIn v pc))) xs"
proof -
  let ?n = "sq_length q"
  have core: "queue_core q xs t li (stored xs (PIn v pc)) lr (readied xs (PIn v pc)) lv (pending (PIn v pc))"
    and ok: "prod_ok ?n xs t (PIn v pc)"
    using inv by (simp_all add: prod_keeps_def)
  note wf = core_facts(1) [OF core] and head = core_facts(2) [OF core] and n2 = core_facts(7) [OF core]
    and pos = core_facts(8) [OF core] and tail = core_facts(3) [OF core]
  show ?thesis
  proof (cases pc)
    case P_LoadSet
    show ?thesis
    proof (cases "v < ?n")
      case True
      then show ?thesis using core step push_steps(1) [OF wf True] P_LoadSet xs'
        by (auto simp: prod_keeps_def bm_bit_def simp del: push_step.simps split: if_splits)
    next
      case False
      then show ?thesis using core step P_LoadSet xs' by (auto simp: prod_keeps_def)
    qed
  next
    case (P_CasSet e)
    then have v: "v < ?n" and e: "\<not> bit e (v mod 8)" using ok by auto
    show ?thesis
    proof (cases "sq_values q ! (v div 8) = e")
      case True
      then have "\<not> bm_bit (sq_values q) v" using e by (simp add: bm_bit_def)
      then show ?thesis
        using core_mark [of q xs t li _ lr _ lv v] core v step push_steps(2) [OF wf v, of e] True P_CasSet xs'
        by (auto simp: prod_keeps_def simp del: push_step.simps)
    next
      case False
      then show ?thesis using core step push_steps(2) [OF wf v, of e] P_CasSet xs'
        by (auto simp: prod_keeps_def simp del: push_step.simps)
    qed
  next
    case P_LoadTail
    then show ?thesis using core step xs' core_facts(4) [OF core] tail by (auto simp: prod_keeps_def)
  next
    case (P_LoadHead w)
    then obtain t1 where t1: "t1 \<le> t" "w = t1 mod ?n" "length xs < t1 + ?n" using ok by auto
    let ?h = "length xs"
    have nxt: "Suc (sq_head q) mod ?n = Suc ?h mod ?n" by (simp add: head mod_Suc_eq)
    have full: "Suc ?h mod ?n = w \<longleftrightarrow> Suc ?h = t1 + ?n"
    proof
      assume "Suc ?h mod ?n = w"
      then have "Suc ?h mod ?n = (t1 + ?n) mod ?n" using t1 by simp
      then show "Suc ?h = t1 + ?n"
        using mod_window_inj [of "Suc ?h" ?n "t1 + ?n"] t1 core_facts(5) [OF core] by auto
    qed (simp add: t1)
    have "Suc ?h < t + ?n" if "Suc ?h \<noteq> t1 + ?n" using t1 that by linarith
    then show ?thesis
      using core step push_steps(3) [OF wf, of v w] P_LoadHead xs' head nxt full t1
      by (auto simp: prod_keeps_def Let_def simp del: push_step.simps)
  next
    case (P_CheckReady i nxt)
    then obtain t1 where t1: "t1 \<le> t" "Suc (length xs) = t1 + ?n"
        and i: "i = length xs mod ?n" and nxt: "nxt = Suc (length xs) mod ?n" using ok by auto
    have core': "queue_core q xs t li (length xs) lr (length xs) lv [v]" using core P_CheckReady by simp
    have "Suc (length xs) < t + ?n" if free: "\<not> bm_bit (sq_ready q) nxt"
    proof (rule ccontr)
      assume "\<not> Suc (length xs) < t + ?n"
      then have "t = t1" using t1 by simp
      then have "nxt = t mod ?n" using nxt t1 by simp
      moreover have "lr \<le> t" "t < length xs" using core' t1 \<open>t = t1\<close> n2 by (auto simp: queue_core_def Let_def)
      ultimately show False using core' free pos [of t] by (auto simp: queue_core_def Let_def)
    qed
    then show ?thesis
      using core step push_steps(4) [OF wf, of nxt v i] P_CheckReady xs' i nxt pos [of "Suc (length xs)"]
      by (auto simp: prod_keeps_def simp del: push_step.simps)
  next
    case P_Undo
    then have core': "queue_core q xs t li (length xs) lr (length xs) lv [v]" using core by simp
    then have v: "v < ?n" using core_facts(9) [OF core'] by auto
    show ?thesis
      using core_unmark_pending [OF core'] step push_steps(5) [OF wf v] P_Undo xs'
      by (auto simp: prod_keeps_def simp del: push_step.simps)
  next
    case (P_CasHead i nxt)
    then have core': "queue_core q xs t li (length xs) lr (length xs) lv [v]" using core by simp
    have "Suc (length xs) < t + ?n" using ok P_CasHead by simp
    note pub = core_publish [OF core' this]
    show ?thesis using pub ok step P_CasHead xs' head by (auto simp: prod_keeps_def)
  next
    case (P_StoreItem i)
    then obtain ys where ys: "xs = ys @ [v]" "i = length ys mod ?n" using ok by auto
    then have core': "queue_core q (ys @ [v]) t li (length ys) lr (length ys) lv []" using core P_StoreItem by simp
    show ?thesis
      using core_store [OF core'] step push_steps(6) [OF wf, of i v] P_StoreItem xs' ys pos [of "length ys"]
      by (auto simp: prod_keeps_def simp del: push_step.simps)
  next
    case (P_LoadReady i)
    then show ?thesis using core ok step push_steps(7) [OF wf, of i v] xs' pos
      by (auto simp: prod_keeps_def simp del: push_step.simps)
  next
    case (P_CasReady i e)
    then obtain ys where ys: "xs = ys @ [v]" "i = length ys mod ?n" using ok by auto
    then have core': "queue_core q (ys @ [v]) t li (Suc (length ys)) lr (length ys) lv []"
      using core P_CasReady by simp
    show ?thesis
      using core_ready [OF core'] core ok step push_steps(8) [OF wf, of i v e] P_CasReady xs' ys pos [of "length ys"]
      by (auto simp: prod_keeps_def simp del: push_step.simps split: if_splits)
  next
    case (P_Done st)
    then show ?thesis using none by simp
  qed
qed

text \<open>A step of the consumer, whatever the producer owes to the queue.\<close>

definition cons_keeps :: "setqueue \<Rightarrow> nat list \<Rightarrow> nat \<Rightarrow> nat \<Rightarrow> nat \<Rightarrow> nat list \<Rightarrow> consumer \<Rightarrow> bool" where
  "cons_keeps q xs t hi hr pend c \<longleftrightarrow>
     queue_core q xs t (t - of_bool (unread c)) hi (t - of_bool (uncleared c)) hr (t - of_bool (marked c)) pend
     \<and> cons_ok (sq_length q) xs t hr c"

lemma take_step_keeps:
  assumes inv: "cons_keeps q xs t hi hr pend (CIn pc)" and step: "take_step q pc = Some (q', pc')"
    and none: "take_result pc = None" and t': "t' = (if claims_slot q pc then Suc t else t)"
  shows "cons_keeps q' xs t' hi hr pend (CIn pc') \<and> sq_length q' = sq_length q
    \<and> t' - of_bool (unreturned (CIn pc')) = t - of_bool (unreturned (CIn pc))"
proof -
  let ?n = "sq_length q"
  let ?c = "CIn pc"
  have core: "queue_core q xs t (t - of_bool (unread ?c)) hi (t - of_bool (uncleared ?c)) hr (t - of_bool (marked ?c)) pend"
    and ok: "cons_ok ?n xs t hr ?c"
    using inv by (simp_all add: cons_keeps_def)
  note wf = core_facts(1) [OF core] and tail = core_facts(3) [OF core] and pos = core_facts(8) [OF core]
  have next_t: "Suc (t mod ?n) mod ?n = Suc t mod ?n" by (simp add: mod_Suc_eq)
  show ?thesis
  proof (cases pc)
    case T_LoadTail
    then show ?thesis using core step t' tail by (auto simp: cons_keeps_def)
  next
    case (T_LoadHead i)
    then show ?thesis using core ok step t' by (auto simp: cons_keeps_def split: if_splits)
  next
    case (T_LoadReady i)
    then have core': "queue_core q xs t t hi t hr t pend" using core by simp
    show ?thesis
      using core ok step t' take_steps(1) [OF wf, of i] core_ready_bit [OF core'] pos [of t] next_t T_LoadReady
      by (auto simp: cons_keeps_def simp del: take_step.simps split: if_splits)
  next
    case (T_CasTail i nxt)
    then have core': "queue_core q xs t t hi t hr t pend" and ok': "i = t mod ?n" "nxt = Suc t mod ?n" "t < hr"
      using core ok by simp_all
    show ?thesis
      using core_claim [OF core' ok'(3)] ok' step t' tail T_CasTail by (auto simp: cons_keeps_def)
  next
    case (T_ReadItem i)
    then obtain u where u: "t = Suc u" "i = u mod ?n" using ok by auto
    with T_ReadItem have core': "queue_core q xs (Suc u) u hi u hr u pend" using core by simp
    show ?thesis
      using core_read [OF core'] u step t' take_steps(2) [OF wf, of i] pos [of u] T_ReadItem
      by (auto simp: cons_keeps_def simp del: take_step.simps)
  next
    case (T_LoadSet i v)
    then obtain u where u: "t = Suc u" "i = u mod ?n" "v = xs ! u" using ok by auto
    then have "v < ?n" using core_facts(5,10) [OF core] by auto
    then show ?thesis
      using core u step t' take_steps(3) [OF wf, of i v] pos [of u] T_LoadSet
      by (auto simp: cons_keeps_def simp del: take_step.simps)
  next
    case (T_CasSet i v e)
    then obtain u where u: "t = Suc u" "i = u mod ?n" "v = xs ! u" using ok by auto
    then have v: "v < ?n" using core_facts(5,10) [OF core] by auto
    have core': "queue_core q xs (Suc u) (Suc u) hi u hr u pend" using core u T_CasSet by simp
    show ?thesis
      using core_unmark [OF core'] core u v step t' take_steps(4) [OF wf, of i v e] pos [of u] T_CasSet
      by (auto simp: cons_keeps_def simp del: take_step.simps split: if_splits)
  next
    case (T_LoadRdy i v)
    then show ?thesis
      using core ok step t' take_steps(5) [OF wf, of i v] pos
      by (auto simp: cons_keeps_def simp del: take_step.simps)
  next
    case (T_CasRdy i v e)
    then obtain u where u: "t = Suc u" "i = u mod ?n" "v = xs ! u" using ok by auto
    have core': "queue_core q xs (Suc u) (Suc u) hi u hr (Suc u) pend" using core u T_CasRdy by simp
    show ?thesis
      using core_unready [OF core'] core u step t' take_steps(6) [OF wf, of i v e] pos [of u] T_CasRdy
      by (auto simp: cons_keeps_def simp del: take_step.simps split: if_splits)
  next
    case (T_Done st r)
    then show ?thesis using none by simp
  qed
qed

text \<open>The invariant as the two halves.\<close>

lemma spsc_inv_prod:
  "spsc_inv s \<longleftrightarrow>
     (let c = sp_cons s; t = sp_claims s; xs = sp_in s; p = sp_prod s in
       prod_keeps (sp_queue s) xs t (t - of_bool (unread c)) (t - of_bool (uncleared c)) (t - of_bool (marked c)) p
     \<and> cons_ok (sq_length (sp_queue s)) xs t (readied xs p) c
     \<and> sp_out s = take (t - of_bool (unreturned c)) xs \<and> sp_ack s = take (length xs - of_bool (unacked p)) xs)"
  by (auto simp: spsc_inv_def prod_keeps_def Let_def)

lemma spsc_inv_cons:
  "spsc_inv s \<longleftrightarrow>
     (let c = sp_cons s; t = sp_claims s; xs = sp_in s; p = sp_prod s in
       cons_keeps (sp_queue s) xs t (stored xs p) (readied xs p) (pending p) c
     \<and> prod_ok (sq_length (sp_queue s)) xs t p
     \<and> sp_out s = take (t - of_bool (unreturned c)) xs \<and> sp_ack s = take (length xs - of_bool (unacked p)) xs)"
  by (auto simp: spsc_inv_def cons_keeps_def Let_def)

lemma step_push_inv:
  assumes inv: "spsc_inv s" and p: "sp_prod s = PIn v pc" "push_result pc = None"
    and step: "push_step v (sp_queue s) pc = Some (q', pc')"
  shows "spsc_inv (s\<lparr>sp_queue := q', sp_prod := PIn v pc',
    sp_in := (if publishes (sp_queue s) pc then sp_in s @ [v] else sp_in s)\<rparr>)"
proof -
  let ?c = "sp_cons s" let ?t = "sp_claims s"
  let ?xs' = "if publishes (sp_queue s) pc then sp_in s @ [v] else sp_in s"
  have pk: "prod_keeps (sp_queue s) (sp_in s) ?t (?t - of_bool (unread ?c)) (?t - of_bool (uncleared ?c))
      (?t - of_bool (marked ?c)) (PIn v pc)"
    and co: "cons_ok (sq_length (sp_queue s)) (sp_in s) ?t (readied (sp_in s) (PIn v pc)) ?c"
    and outs: "sp_out s = take (?t - of_bool (unreturned ?c)) (sp_in s)"
      "sp_ack s = take (length (sp_in s) - of_bool (unacked (PIn v pc))) (sp_in s)"
    using inv p(1) by (simp_all add: spsc_inv_prod Let_def)
  note keeps = push_step_keeps [OF pk step p(2) refl]
  note t = core_facts(5) [OF conjunct1 [OF pk [unfolded prod_keeps_def]]]
  have ext: "?xs' = sp_in s @ (if publishes (sp_queue s) pc then [v] else [])" by simp
  have "cons_ok (sq_length (sp_queue s)) ?xs' ?t (readied ?xs' (PIn v pc')) ?c"
    using cons_ok_mono [OF co t conjunct1 [OF conjunct2 [OF conjunct2 [OF keeps]]]] unfolding ext .
  then have "cons_ok (sq_length q') ?xs' ?t (readied ?xs' (PIn v pc')) ?c"
    using conjunct1 [OF conjunct2 [OF keeps]] by (simp only:)
  moreover have "take (?t - of_bool (unreturned ?c)) ?xs' = sp_out s"
    using t by (simp add: ext outs(1) del: if_split)
  ultimately show ?thesis
    using keeps outs(2) by (simp add: spsc_inv_prod Let_def)
qed

lemma step_take_inv:
  assumes inv: "spsc_inv s" and c: "sp_cons s = CIn pc" "take_result pc = None"
    and step: "take_step (sp_queue s) pc = Some (q', pc')"
  shows "spsc_inv (s\<lparr>sp_queue := q', sp_cons := CIn pc',
    sp_claims := (if claims_slot (sp_queue s) pc then Suc (sp_claims s) else sp_claims s)\<rparr>)"
proof -
  let ?p = "sp_prod s" let ?xs = "sp_in s"
  have ck: "cons_keeps (sp_queue s) ?xs (sp_claims s) (stored ?xs ?p) (readied ?xs ?p) (pending ?p) (CIn pc)"
    and po: "prod_ok (sq_length (sp_queue s)) ?xs (sp_claims s) ?p"
    and outs: "sp_out s = take (sp_claims s - of_bool (unreturned (CIn pc))) ?xs"
      "sp_ack s = take (length ?xs - of_bool (unacked ?p)) ?xs"
    using inv c(1) by (simp_all add: spsc_inv_cons Let_def)
  note keeps = take_step_keeps [OF ck step c(2) refl]
  then show ?thesis
    using po prod_ok_mono [OF po] outs by (simp add: spsc_inv_cons Let_def)
qed

lemma return_push_inv:
  assumes "spsc_inv s" "sp_prod s = PIn v (P_Done st)"
  shows "spsc_inv (s\<lparr>sp_prod := PIdle, sp_ack := (if st = MCMPST_SUCCESS then sp_ack s @ [v] else sp_ack s)\<rparr>)"
  using assms by (cases "st = MCMPST_SUCCESS") (auto simp: spsc_inv_def Let_def)

lemma return_take_inv:
  assumes inv: "spsc_inv s" and c: "sp_cons s = CIn (T_Done st r)"
  shows "spsc_inv (s\<lparr>sp_cons := CIdle, sp_out := (case r of Some v \<Rightarrow> sp_out s @ [v] | None \<Rightarrow> sp_out s)\<rparr>)"
proof (cases "st = MCMPST_SUCCESS")
  case True
  then obtain u where u: "sp_claims s = Suc u" "r = Some (sp_in s ! u)"
    using inv c by (auto simp: spsc_inv_def Let_def)
  have "sp_claims s \<le> length (sp_in s)"
    by (rule core_facts(5) [OF conjunct1 [OF inv [unfolded spsc_inv_def Let_def]]])
  then show ?thesis using inv c True u by (simp add: spsc_inv_def Let_def take_Suc_conv_app_nth)
next
  case False
  then show ?thesis using inv c by (simp add: spsc_inv_def Let_def)
qed

lemma spsc_move_inv: "spsc_move r s s' \<Longrightarrow> spsc_inv s \<Longrightarrow> spsc_inv s'"
proof (induction rule: spsc_move.induct)
  case (step_push s v p q' p')
  then show ?case by (blast intro: step_push_inv)
next
  case (return_push s v st)
  then show ?case by (blast intro: return_push_inv)
next
  case (step_take s p q' p')
  then show ?case by (blast intro: step_take_inv)
next
  case (return_take s st r)
  then show ?case by (blast intro: return_take_inv)
qed (simp_all add: spsc_inv_def Let_def)

lemma spsc_init_inv: "spsc_init s \<Longrightarrow> spsc_inv s"
proof -
  assume init: "spsc_init s"
  let ?q = "sp_queue s"
  have inv: "sq_inv ?q" and view: "sq_view ?q = []" and h: "sq_head ?q = 0" using init by (simp_all add: spsc_init_def)
  then have wf: "sq_wf ?q" and t: "sq_tail ?q = 0" using sq_view_Nil [of ?q] by (auto simp: sq_inv_def)
  then have "queue_core ?q [] 0 0 0 0 0 0 []"
    using inv view h by (auto simp: queue_core_def Let_def sq_inv_def sq_wf_def)
  then show ?thesis using init by (simp add: spsc_inv_def spsc_init_def)
qed

section \<open>Progress\<close>

fun spsc_busy :: "spsc \<Rightarrow> role \<Rightarrow> bool" where
  "spsc_busy s Producer = (sp_prod s \<noteq> PIdle)"
| "spsc_busy s Consumer = (sp_cons s \<noteq> CIdle)"

lemma push_step_defined:
  assumes "prod_keeps q xs t li lr lv (PIn v pc)"
  shows "\<exists>q' pc'. push_step v q pc = Some (q', pc')"
proof -
  have core: "queue_core q xs t li (stored xs (PIn v pc)) lr (readied xs (PIn v pc)) lv (pending (PIn v pc))"
    and ok: "prod_ok (sq_length q) xs t (PIn v pc)"
    using assms by (simp_all add: prod_keeps_def)
  note wf = core_facts(1) [OF core] and pos = core_facts(8) [OF core] and pend = core_facts(9) [OF core]
  show ?thesis
  proof (cases pc)
    case P_LoadSet
    then show ?thesis using push_steps(1) [OF wf, of v] by (cases "v < sq_length q") simp_all
  next
    case (P_CasSet e)
    then show ?thesis using ok push_steps(2) [OF wf, of v e] by (auto simp del: push_step.simps)
  next
    case P_Undo
    then have "v < sq_length q" using pend by auto
    then show ?thesis using push_steps(5) [OF wf, of v] P_Undo by (auto simp del: push_step.simps)
  qed (use ok push_steps(3,4,6-8) [OF wf] pos in \<open>auto simp del: push_step.simps(4,5,8-10)\<close>)
qed

lemma take_step_defined:
  assumes "cons_keeps q xs t hi hr pend (CIn pc)"
  shows "\<exists>q' pc'. take_step q pc = Some (q', pc')"
proof -
  let ?n = "sq_length q"
  note core = conjunct1 [OF assms [unfolded cons_keeps_def]] and ok = conjunct2 [OF assms [unfolded cons_keeps_def]]
  note wf = core_facts(1) [OF core] and t = core_facts(5) [OF core]
    and pos = core_facts(8) [OF core] and val = core_facts(10) [OF core]
  show ?thesis
  proof (cases pc)
    case (T_LoadReady i)
    then show ?thesis using ok take_steps(1) [OF wf, of i] pos by (auto simp del: take_step.simps)
  next
    case (T_ReadItem i)
    then show ?thesis using ok take_steps(2) [OF wf, of i] pos by (auto simp del: take_step.simps)
  next
    case (T_LoadSet i v)
    then show ?thesis using ok t val take_steps(3) [OF wf, of i v] pos by (auto simp del: take_step.simps)
  next
    case (T_CasSet i v e)
    then show ?thesis using ok t val take_steps(4) [OF wf, of i v e] pos by (auto simp del: take_step.simps)
  next
    case (T_LoadRdy i v)
    then show ?thesis using ok take_steps(5) [OF wf, of i v] pos by (auto simp del: take_step.simps)
  next
    case (T_CasRdy i v e)
    then show ?thesis using ok take_steps(6) [OF wf, of i v e] pos by (auto simp del: take_step.simps)
  qed auto
qed

lemma push_result_iff: "push_result p = Some st \<longleftrightarrow> p = P_Done st"
  by (cases p) auto

lemma take_result_iff: "take_result p = Some (st, r) \<longleftrightarrow> p = T_Done st r"
  by (cases p) auto

lemma spsc_busy_moves:
  assumes inv: "spsc_inv s" and busy: "spsc_busy s r"
  shows "\<exists>s'. spsc_move r s s'"
proof (cases r)
  case Producer
  then obtain v pc where p: "sp_prod s = PIn v pc" using busy by (cases "sp_prod s") auto
  show ?thesis
  proof (cases "push_result pc")
    case None
    then show ?thesis
      using spsc_move.step_push [OF p None] push_step_defined inv p Producer
      unfolding spsc_inv_prod Let_def by metis
  next
    case (Some st)
    then show ?thesis using spsc_move.return_push [of s v st] p Producer push_result_iff [of pc st] by auto
  qed
next
  case Consumer
  then obtain pc where c: "sp_cons s = CIn pc" using busy by (cases "sp_cons s") auto
  show ?thesis
  proof (cases "take_result pc")
    case None
    then show ?thesis
      using spsc_move.step_take [OF c None] take_step_defined inv c Consumer
      unfolding spsc_inv_cons Let_def by metis
  next
    case (Some x)
    then show ?thesis
      using spsc_move.return_take [of s "fst x" "snd x"] c Consumer take_result_iff [of pc "fst x" "snd x"] by auto
  qed
qed

interpretation channel: live_system spsc_init spsc_step spsc_inv spsc_busy spsc_move
  by unfold_locales (auto simp: spsc_step_def intro: spsc_init_inv spsc_move_inv spsc_busy_moves)

lemma idle_view:
  assumes inv: "spsc_inv s" and idle: "sp_prod s = PIdle" "sp_cons s = CIdle"
  shows "sp_in s = sp_out s @ sq_view (sp_queue s)" "sp_ack s = sp_in s"
proof -
  let ?q = "sp_queue s" let ?t = "sp_claims s" let ?xs = "sp_in s"
  have core: "queue_core ?q ?xs ?t ?t (length ?xs) ?t (length ?xs) ?t []"
    and out: "sp_out s = take ?t ?xs" and ack: "sp_ack s = ?xs"
    using inv idle by (simp_all add: spsc_inv_def Let_def)
  have "sq_view ?q = map (\<lambda>k. sq_items ?q ! (k mod sq_length ?q)) [?t..<length ?xs]"
    using core_facts(2-5) [OF core] by (simp add: sq_view_def ring_view_mod)
  also have "\<dots> = map ((!) ?xs) [?t..<length ?xs]"
    using core by (auto simp: queue_core_def Let_def)
  also have "\<dots> = drop ?t ?xs" by (rule nth_equalityI) simp_all
  finally show "?xs = sp_out s @ sq_view ?q" using out by simp
  show "sp_ack s = ?xs" by (rule ack)
qed

text \<open>
  C4: With one producer and one consumer, whatever their interleaving, the values that takes returned are, in order, the
  first of those that were pushed, every push that reported success is among the pushed ones in its place, and when both
  threads are between calls the queue holds exactly the values that were pushed with success and not yet taken, in order.
\<close>

theorem set_queue_channel:
  assumes "reachable spsc_init spsc_step s"
  shows "(\<exists>zs. sp_in s = sp_out s @ zs) \<and> (\<exists>zs. sp_in s = sp_ack s @ zs \<and> length zs \<le> 1)
    \<and> (sp_prod s = PIdle \<and> sp_cons s = CIdle \<longrightarrow> sp_ack s = sp_out s @ sq_view (sp_queue s))"
proof -
  have inv: "spsc_inv s" by (rule channel.reach_inv [OF assms])
  let ?xs = "sp_in s" and ?k = "length (sp_in s) - of_bool (unacked (sp_prod s))"
  have "?xs = sp_out s @ drop (sp_claims s - of_bool (unreturned (sp_cons s))) ?xs"
    using inv by (simp add: spsc_inv_def Let_def)
  moreover have "?xs = sp_ack s @ drop ?k ?xs" using inv by (simp add: spsc_inv_def Let_def)
  moreover have "length (drop ?k ?xs) \<le> 1" by (cases "sp_in s") simp_all
  ultimately show ?thesis using idle_view [OF inv] by metis
qed

text \<open>
  With one producer and one consumer no interleaving makes a call undefined or blocks it: a thread inside a call can
  always take its next step.
\<close>

lemma set_queue_channel_never_stuck:
  assumes "reachable spsc_init spsc_step s" "spsc_busy s r"
  shows "\<exists>s'. spsc_move r s s' \<and> reachable spsc_init spsc_step s'"
  by (rule channel.never_stuck [OF assms])

text \<open>A run: the producer is inside a push of 2, the consumer inside a take.\<close>

definition fresh_queue :: "nat \<Rightarrow> setqueue" where
  "fresh_queue n = \<lparr>sq_byteslength = 1, sq_length = n, sq_head = 0, sq_tail = 0, sq_values = [0], sq_ready = [0],
     sq_items = replicate n 0\<rparr>"

definition channel_start :: spsc where
  "channel_start = \<lparr>sp_queue = fresh_queue 4, sp_prod = PIdle, sp_cons = CIdle, sp_in = [], sp_ack = [],
     sp_claims = 0, sp_out = []\<rparr>"

definition channel_run :: spsc where
  "channel_run = channel_start\<lparr>sp_prod := PIn 2 (P_CasSet 0), sp_cons := CIn (T_LoadHead 0)\<rparr>"

lemma channel_start_init: "spsc_init channel_start"
proof -
  have "sq_inv (fresh_queue 4)" "sq_view (fresh_queue 4) = []"
    by (simp_all add: sq_inv_def sq_wf_def sq_view_def fresh_queue_def bm_bit_def)
  then show ?thesis by (simp add: spsc_init_def channel_start_def) (simp add: fresh_queue_def)
qed

lemma channel_run_reachable: "reachable spsc_init spsc_step channel_run"
proof -
  let ?a = "channel_start\<lparr>sp_prod := PIn 2 P_LoadSet\<rparr>"
  let ?b = "channel_start\<lparr>sp_prod := PIn 2 (P_CasSet 0)\<rparr>"
  let ?c = "?b\<lparr>sp_cons := CIn T_LoadTail\<rparr>"
  have "spsc_move Producer channel_start ?a"
    by (rule spsc_move.call_push) (simp add: channel_start_def)
  moreover have "spsc_move Producer ?a ?b"
    using spsc_move.step_push [of ?a 2 P_LoadSet "fresh_queue 4" "P_CasSet 0"]
    by (simp add: channel_start_def fresh_queue_def load8_def)
  moreover have "spsc_move Consumer ?b ?c"
    by (rule spsc_move.call_take) (simp add: channel_start_def)
  moreover have "spsc_move Consumer ?c channel_run"
    using spsc_move.step_take [of ?c T_LoadTail "fresh_queue 4" "T_LoadHead 0"]
    by (simp add: channel_start_def channel_run_def fresh_queue_def)
  ultimately show ?thesis
    using channel_start_init by (meson spsc_step_def reachable.start reachable.step)
qed

theorem set_queue_channel_witness:
  "\<exists>zs. sp_in channel_run = sp_ack channel_run @ zs \<and> length zs \<le> 1"
  using set_queue_channel [OF channel_run_reachable] by simp

lemma set_queue_channel_never_stuck_witness:
  "(\<exists>s'. spsc_move Producer channel_run s' \<and> reachable spsc_init spsc_step s')
     \<and> sp_prod channel_run = PIn 2 (P_CasSet 0)"
proof -
  have p: "sp_prod channel_run = PIn 2 (P_CasSet 0)" by (simp add: channel_run_def)
  then show ?thesis using set_queue_channel_never_stuck [OF channel_run_reachable, of Producer] by simp
qed

section \<open>More threads on one end\<close>

text \<open>
  A number of calls in progress and a schedule that says which of them makes its next atomic
  access. Calls scheduled one after the other can be those of one thread.
\<close>

record calls =
  cl_queue :: setqueue
  cl_pushes :: "(nat \<times> push_pc) list"
  cl_takes :: "take_pc list"

datatype turn = PushTurn nat | TakeTurn nat

fun turn_step :: "turn \<Rightarrow> calls \<Rightarrow> calls ub" where
  "turn_step (PushTurn i) s =
     (case cl_pushes s ! i of (v, p) \<Rightarrow> do {
        (q', p') \<leftarrow> push_step v (cl_queue s) p;
        Some (s\<lparr>cl_queue := q', cl_pushes := (cl_pushes s)[i := (v, p')]\<rparr>) })"
| "turn_step (TakeTurn i) s = do {
     (q', p') \<leftarrow> take_step (cl_queue s) (cl_takes s ! i);
     Some (s\<lparr>cl_queue := q', cl_takes := (cl_takes s)[i := p']\<rparr>) }"

fun turns :: "turn list \<Rightarrow> calls \<Rightarrow> calls ub" where
  "turns [] s = Some s"
| "turns (w # ws) s = do { s' \<leftarrow> turn_step w s; turns ws s' }"

text \<open>A push alone makes eight accesses, a take alone nine.\<close>

abbreviation "whole_push i \<equiv> replicate 8 (PushTurn i)"
abbreviation "whole_take i \<equiv> replicate 9 (TakeTurn i)"

definition two_takers :: "turn list" where
  "two_takers = whole_push 0 @ whole_push 1 @ replicate 4 (TakeTurn 0) @ whole_take 1
     @ whole_push 2 @ whole_push 3 @ replicate 5 (TakeTurn 0)"

definition two_pushers :: "turn list" where
  "two_pushers = replicate 5 (PushTurn 0) @ replicate 9 (PushTurn 1) @ replicate 3 (PushTurn 0)"

definition two_takers_start :: calls where
  "two_takers_start = \<lparr>cl_queue = fresh_queue 3, cl_pushes = map (\<lambda>v. (v, P_LoadSet)) [0, 1, 2, 1],
     cl_takes = [T_LoadTail, T_LoadTail]\<rparr>"

definition two_takers_end :: setqueue where
  "two_takers_end = \<lparr>sq_byteslength = 1, sq_length = 3, sq_head = 1, sq_tail = 2, sq_values = [5], sq_ready = [4],
     sq_items = [1, 1, 2]\<rparr>"

definition two_pushers_start :: calls where
  "two_pushers_start = \<lparr>cl_queue = fresh_queue 2, cl_pushes = [(0, P_LoadSet), (1, P_LoadSet)], cl_takes = []\<rparr>"

definition two_pushers_end :: setqueue where
  "two_pushers_end = \<lparr>sq_byteslength = 1, sq_length = 2, sq_head = 0, sq_tail = 0, sq_values = [3], sq_ready = [3],
     sq_items = [0, 1]\<rparr>"

lemma replicate_numeral: "replicate (numeral w) x = x # replicate (pred_numeral w) x"
  by (simp add: numeral_eq_Suc)

lemma list_update_numeral: "(x # xs)[numeral w := y] = x # xs[pred_numeral w := y]"
  by (simp add: numeral_eq_Suc)

lemmas turn_simps = fresh_queue_def bitmask_def load8_def cas8_def store_at_def load_at_def ring_next_def
  mcmpAtomicBitmapIsEnabledBit_def c_shl1_def u8_cast_def replicate_numeral list_update_numeral

text \<open>
  Two takers lose a value: on a queue of three indices, a producer pushes 0, 1, 2 and 1 again, each with success,
  while a slow take that has claimed the slot of 0 is overtaken; both takes return 1, the value 0 is neither returned
  nor in the queue, and it can never be enqueued again.
\<close>

lemma set_queue_two_takers:
  "\<exists>s. turns two_takers two_takers_start = Some s
     \<and> map snd (cl_pushes s) = replicate 4 (P_Done MCMPST_SUCCESS)
     \<and> cl_takes s = replicate 2 (T_Done MCMPST_SUCCESS (Some 1))
     \<and> 0 \<notin> set (sq_view (cl_queue s)) \<and> mcmpSetQueuePush (cl_queue s) 0 = Some (cl_queue s, MCMPST_ALROP)"
proof -
  have "turns two_takers two_takers_start = Some \<lparr>cl_queue = two_takers_end,
      cl_pushes = map (\<lambda>v. (v, P_Done MCMPST_SUCCESS)) [0, 1, 2, 1],
      cl_takes = replicate 2 (T_Done MCMPST_SUCCESS (Some 1))\<rparr>"
    by (simp add: two_takers_def two_takers_start_def two_takers_end_def turn_simps)
  moreover have "0 \<notin> set (sq_view two_takers_end)" by code_simp
  moreover have "mcmpSetQueuePush two_takers_end 0 = Some (two_takers_end, MCMPST_ALROP)"
    by (simp add: mcmpSetQueuePush_def run_push two_takers_end_def bitmask_def load8_def)
  ultimately show ?thesis by (simp add: replicate_numeral)
qed

text \<open>
  Two pushers lose two values: on a queue of two indices, the push of 1 overtakes a push of 0 that has swapped the
  head and not yet stored its item; both report success, the take that follows reports that the queue is empty, and
  neither value can be enqueued again.
\<close>

lemma set_queue_two_pushers:
  "\<exists>s. turns two_pushers two_pushers_start = Some s
     \<and> map snd (cl_pushes s) = replicate 2 (P_Done MCMPST_SUCCESS)
     \<and> mcmpSetQueueTake (cl_queue s) = Some (cl_queue s, MCMPST_ISEMPTY, None)
     \<and> mcmpSetQueuePush (cl_queue s) 0 = Some (cl_queue s, MCMPST_ALROP)
     \<and> mcmpSetQueuePush (cl_queue s) 1 = Some (cl_queue s, MCMPST_ALROP)"
proof -
  have "turns two_pushers two_pushers_start = Some \<lparr>cl_queue = two_pushers_end,
      cl_pushes = [(0, P_Done MCMPST_SUCCESS), (1, P_Done MCMPST_SUCCESS)], cl_takes = []\<rparr>"
    by (simp add: two_pushers_def two_pushers_start_def two_pushers_end_def turn_simps)
  moreover have "mcmpSetQueueTake two_pushers_end = Some (two_pushers_end, MCMPST_ISEMPTY, None)"
    by (simp add: mcmpSetQueueTake_def run_take two_pushers_end_def)
  moreover have "mcmpSetQueuePush two_pushers_end 0 = Some (two_pushers_end, MCMPST_ALROP)"
    "mcmpSetQueuePush two_pushers_end 1 = Some (two_pushers_end, MCMPST_ALROP)"
    by (simp_all add: mcmpSetQueuePush_def run_push two_pushers_end_def bitmask_def load8_def)
  ultimately show ?thesis by (simp add: replicate_numeral)
qed

end
