(* ===== verification/Typed_Calls.thy ===== *)
theory Typed_Calls
  imports Transition
begin

text \<open>
  Any number of threads that call the operations of one shared object, each a machine of atomic steps. A judgement
  says which points of a call fit a state of the object. The contract of an object (\<open>typed_calls\<close>) is that a step from a point that
  fits is defined and keeps the judgement, for its own call and, through the relation \<open>grows\<close> between the states before and after, for
  those of all other threads. What follows for all interleavings is proved here once.
\<close>

record ('s, 'p) calls_sys =
  cy_state :: 's
  cy_call :: "nat \<Rightarrow> 'p option"

text \<open>Thread \<open>i\<close> begins a call, takes a step of it, or returns from it.\<close>

inductive cy_move ::
  "('s \<Rightarrow> 'p \<Rightarrow> ('s \<times> 'p) option) \<Rightarrow> ('p \<Rightarrow> 'r option) \<Rightarrow> ('p \<Rightarrow> bool) \<Rightarrow> nat \<Rightarrow> ('s, 'p) calls_sys \<Rightarrow> ('s, 'p) calls_sys \<Rightarrow> bool"
  for step result entry i where
  enter: "cy_call s i = None \<Longrightarrow> entry p \<Longrightarrow> cy_move step result entry i s (s\<lparr>cy_call := (cy_call s)(i := Some p)\<rparr>)"
| internal: "cy_call s i = Some p \<Longrightarrow> result p = None \<Longrightarrow> step (cy_state s) p = Some (q, p') \<Longrightarrow>
     cy_move step result entry i s (s\<lparr>cy_state := q, cy_call := (cy_call s)(i := Some p')\<rparr>)"
| leave: "cy_call s i = Some p \<Longrightarrow> result p = Some r \<Longrightarrow> cy_move step result entry i s (s\<lparr>cy_call := (cy_call s)(i := None)\<rparr>)"

definition cy_step where
  "cy_step step result entry s s' \<longleftrightarrow> (\<exists>i. cy_move step result entry i s s')"

definition cy_init :: "'s \<Rightarrow> ('s, 'p) calls_sys \<Rightarrow> bool" where
  "cy_init q s \<longleftrightarrow> cy_state s = q \<and> (\<forall>i. cy_call s i = None)"

definition cy_busy :: "('s, 'p) calls_sys \<Rightarrow> nat \<Rightarrow> bool" where
  "cy_busy s i \<longleftrightarrow> cy_call s i \<noteq> None"

locale typed_calls =
  fixes step :: "'s \<Rightarrow> 'p \<Rightarrow> ('s \<times> 'p) option"
    and result :: "'p \<Rightarrow> 'r option"
    and entry :: "'p \<Rightarrow> bool"
    and ok :: "'s \<Rightarrow> bool"
    and typed :: "'s \<Rightarrow> 'p \<Rightarrow> bool"
    and grows :: "'s \<Rightarrow> 's \<Rightarrow> bool"
  assumes step_typed: "ok q \<Longrightarrow> typed q p \<Longrightarrow> \<exists>q' p'. step q p = Some (q', p') \<and> ok q' \<and> grows q q' \<and> typed q' p'"
    and typed_grows: "grows q q' \<Longrightarrow> typed q p \<Longrightarrow> typed q' p"
    and entry_typed: "entry p \<Longrightarrow> ok q \<Longrightarrow> typed q p"
begin

definition all_typed :: "('s, 'p) calls_sys \<Rightarrow> bool" where
  "all_typed s \<longleftrightarrow> ok (cy_state s) \<and> (\<forall>i p. cy_call s i = Some p \<longrightarrow> typed (cy_state s) p)"

lemma move_typed:
  assumes "all_typed s" "cy_move step result entry i s s'"
  shows "all_typed s'"
  using assms(2)
proof cases
  case (internal p q p')
  then have "ok q" "grows (cy_state s) q" "typed q p'"
    using assms(1) step_typed [of "cy_state s" p] by (auto simp: all_typed_def)
  then show ?thesis using assms(1) internal(1) by (auto simp: all_typed_def intro: typed_grows)
qed (use assms(1) in \<open>auto simp: all_typed_def intro: entry_typed\<close>)

lemma busy_can_move: "all_typed s \<Longrightarrow> cy_busy s i \<Longrightarrow> \<exists>s'. cy_move step result entry i s s'"
  unfolding cy_busy_def all_typed_def
  by (metis cy_move.internal cy_move.leave not_None_eq step_typed)

sublocale threads: live_system "\<lambda>s. \<exists>q. ok q \<and> cy_init q s" "cy_step step result entry" all_typed cy_busy "cy_move step result entry"
proof unfold_locales
  show "all_typed s" if "\<exists>q. ok q \<and> cy_init q s" for s using that by (auto simp: all_typed_def cy_init_def)
  show "all_typed t" if "all_typed s" "cy_step step result entry s t" for s t
    using that move_typed by (auto simp: cy_step_def)
  show "\<exists>t. cy_move step result entry i s t" if "all_typed s" "cy_busy s i" for s i by (rule busy_can_move [OF that])
  show "cy_step step result entry s t" if "cy_move step result entry i s t" for i s t using that by (auto simp: cy_step_def)
qed

lemma reach_typed:
  assumes "ok q" "reachable (cy_init q) (cy_step step result entry) s" "cy_call s i = Some p"
  shows "ok (cy_state s)" "typed (cy_state s) p" "\<exists>q' p'. step (cy_state s) p = Some (q', p')"
proof -
  have "reachable (\<lambda>s. \<exists>q. ok q \<and> cy_init q s) (cy_step step result entry) s"
    using assms(2) by (induction rule: reachable.induct) (use assms(1) in \<open>auto intro: reachable.intros\<close>)
  then have "all_typed s" by (rule threads.reach_inv)
  then show "ok (cy_state s)" "typed (cy_state s) p" using assms(3) by (auto simp: all_typed_def)
  then show "\<exists>q' p'. step (cy_state s) p = Some (q', p')" using step_typed by blast
qed

end

end
