(* ===== verification/Set_Queue_Types.thy ===== *)
theory Set_Queue_Types
  imports Set_Queue Typed_Calls
begin

text \<open>
  The set queue under any number of threads that push and take at any time, each step of
  \<^verbatim>\<open>mcmpSetQueuePush\<close> and \<^verbatim>\<open>mcmpSetQueueTake\<close> interleaved with the steps of all others. With so many the
  queue is no first-in first-out channel (\<^verbatim>\<open>Set_Queue_Conc\<close>), but its accesses stay typed: a judgement says
  which program counters fit a queue, every step keeps it for the thread that takes it and for all others, and a
  thread whose program counter fits can take its next step.
\<close>

section \<open>The judgement\<close>

text \<open>An index of the ring, and a slot that holds an index; a fresh block holds anything.\<close>

definition slot_of :: "setqueue \<Rightarrow> nat \<Rightarrow> bool" where
  "slot_of sq k \<longleftrightarrow> k < sq_length sq"

definition written :: "setqueue \<Rightarrow> nat \<Rightarrow> bool" where
  "written sq k \<longleftrightarrow> k < sq_length sq \<and> sq_items sq ! k < sq_length sq"

definition sq_typed :: "setqueue \<Rightarrow> bool" where
  "sq_typed sq \<longleftrightarrow> sq_wf sq \<and> (\<forall>k < sq_length sq. bm_bit (sq_ready sq) k \<longrightarrow> written sq k)"

fun push_typed :: "setqueue \<Rightarrow> nat \<Rightarrow> push_pc \<Rightarrow> bool" where
  "push_typed sq v P_LoadSet = True"
| "push_typed sq v (P_CheckReady index nxt) = (slot_of sq v \<and> slot_of sq index \<and> slot_of sq nxt)"
| "push_typed sq v (P_CasHead index nxt) = (slot_of sq v \<and> slot_of sq index \<and> slot_of sq nxt)"
| "push_typed sq v (P_StoreItem index) = (slot_of sq v \<and> slot_of sq index)"
| "push_typed sq v (P_LoadReady index) = (slot_of sq v \<and> written sq index)"
| "push_typed sq v (P_CasReady index _) = (slot_of sq v \<and> written sq index)"
| "push_typed sq v (P_Done st) = (st \<in> {MCMPST_SUCCESS, MCMPST_OVERFLOW, MCMPST_ALROP, MCMPST_RETRYOP}
     \<and> (st = MCMPST_SUCCESS \<longrightarrow> slot_of sq v))"
| "push_typed sq v _ = slot_of sq v"

fun take_typed :: "setqueue \<Rightarrow> take_pc \<Rightarrow> bool" where
  "take_typed sq T_LoadTail = True"
| "take_typed sq (T_LoadHead index) = slot_of sq index"
| "take_typed sq (T_LoadReady index) = slot_of sq index"
| "take_typed sq (T_CasTail index nxt) = (written sq index \<and> slot_of sq nxt)"
| "take_typed sq (T_ReadItem index) = written sq index"
| "take_typed sq (T_LoadSet index v) = (slot_of sq index \<and> slot_of sq v)"
| "take_typed sq (T_CasSet index v _) = (slot_of sq index \<and> slot_of sq v)"
| "take_typed sq (T_LoadRdy index v) = (slot_of sq index \<and> slot_of sq v)"
| "take_typed sq (T_CasRdy index v _) = (slot_of sq index \<and> slot_of sq v)"
| "take_typed sq (T_Done st r) = (case r of None \<Rightarrow> st = MCMPST_ISEMPTY \<or> st = MCMPST_RETRYOP
     | Some v \<Rightarrow> st = MCMPST_SUCCESS \<and> slot_of sq v)"

section \<open>Every step keeps it\<close>

text \<open>What a step of one thread may do to the others: slots stay slots, and one that was written stays so.\<close>

definition sq_grows :: "setqueue \<Rightarrow> setqueue \<Rightarrow> bool" where
  "sq_grows sq sq' \<longleftrightarrow> sq_length sq' = sq_length sq \<and> (\<forall>k. written sq k \<longrightarrow> written sq' k)"

lemma push_typed_grows: "sq_grows sq sq' \<Longrightarrow> push_typed sq v p \<Longrightarrow> push_typed sq' v p"
  by (cases p) (auto simp: sq_grows_def slot_of_def)

lemma take_typed_grows: "sq_grows sq sq' \<Longrightarrow> take_typed sq p \<Longrightarrow> take_typed sq' p"
  by (cases p) (auto simp: sq_grows_def slot_of_def split: option.splits)

lemma ring_next_slot: "sq_wf sq \<Longrightarrow> Suc k mod sq_length sq < sq_length sq"
  by (simp add: sq_wf_def)

lemma push_keeps_types:
  assumes "sq_typed sq" "push_typed sq v p"
  shows "\<exists>sq' p'. push_step v sq p = Some (sq', p') \<and> sq_typed sq' \<and> sq_grows sq sq' \<and> push_typed sq' v p'"
proof -
  have wf: "sq_wf sq" and ready: "k < sq_length sq \<Longrightarrow> bm_bit (sq_ready sq) k \<Longrightarrow> written sq k" for k
    using assms(1) by (auto simp: sq_typed_def)
  note steps = push_steps [OF wf] and upd = sq_wf_update [OF wf]
  have head: "sq_head sq < sq_length sq" and bits: "k < sq_length sq \<Longrightarrow> k < 8 * length (sq_ready sq)"
      "k < sq_length sq \<Longrightarrow> k < length (sq_items sq)" for k
    using wf by (auto simp: sq_wf_def)
  show ?thesis
  proof (cases p)
    case P_LoadSet
    then show ?thesis using assms steps(1) by (cases "v < sq_length sq") (auto simp: sq_grows_def slot_of_def)
  next
    case (P_StoreItem index)
    then show ?thesis using assms steps(6) upd(3) ready bits
      by (auto simp: sq_typed_def sq_grows_def slot_of_def written_def nth_list_update)
  next
    case (P_CasReady index e)
    then show ?thesis using assms steps(8) upd(2) ready bits
      by (auto simp: sq_typed_def sq_grows_def slot_of_def written_def bit_facts)
  next
    case (P_LoadHead tail)
    then show ?thesis using assms steps(3) head ring_next_slot [OF wf]
      by (auto simp: sq_grows_def slot_of_def Let_def)
  qed (use assms steps upd head in \<open>auto simp: sq_typed_def sq_grows_def slot_of_def written_def\<close>)
qed

lemma take_keeps_types:
  assumes "sq_typed sq" "take_typed sq p"
  shows "\<exists>sq' p'. take_step sq p = Some (sq', p') \<and> sq_typed sq' \<and> sq_grows sq sq' \<and> take_typed sq' p'"
proof -
  have wf: "sq_wf sq" and ready: "k < sq_length sq \<Longrightarrow> bm_bit (sq_ready sq) k \<Longrightarrow> written sq k" for k
    using assms(1) by (auto simp: sq_typed_def)
  note steps = take_steps [OF wf] and upd = sq_wf_update [OF wf]
  have tail: "sq_tail sq < sq_length sq" and bits: "k < sq_length sq \<Longrightarrow> k < 8 * length (sq_ready sq)" for k
    using wf by (auto simp: sq_wf_def)
  show ?thesis
  proof (cases p)
    case (T_LoadReady index)
    then show ?thesis using assms steps(1) ready ring_next_slot [OF wf]
      by (auto simp: sq_grows_def slot_of_def)
  next
    case (T_CasRdy index v e)
    then show ?thesis using assms steps(6) upd(2) ready bits
      by (auto simp: sq_typed_def sq_grows_def slot_of_def written_def bit_facts)
  qed (use assms steps upd tail in \<open>auto simp: sq_typed_def sq_grows_def slot_of_def written_def split: option.splits\<close>)
qed

section \<open>Any number of threads\<close>

datatype sq_call = Pushing nat push_pc | Taking take_pc

fun sq_call_step :: "setqueue \<Rightarrow> sq_call \<Rightarrow> (setqueue \<times> sq_call) ub" where
  "sq_call_step sq (Pushing v p) = do { (sq', p') \<leftarrow> push_step v sq p; Some (sq', Pushing v p') }"
| "sq_call_step sq (Taking p) = do { (sq', p') \<leftarrow> take_step sq p; Some (sq', Taking p') }"

fun sq_call_result :: "sq_call \<Rightarrow> (mcmpst \<times> nat option) option" where
  "sq_call_result (Pushing v p) = map_option (\<lambda>st. (st, None)) (push_result p)"
| "sq_call_result (Taking p) = take_result p"

definition sq_call_entry :: "sq_call \<Rightarrow> bool" where
  "sq_call_entry c \<longleftrightarrow> (\<exists>v. c = Pushing v P_LoadSet) \<or> c = Taking T_LoadTail"

fun call_typed :: "setqueue \<Rightarrow> sq_call \<Rightarrow> bool" where
  "call_typed sq (Pushing v p) = push_typed sq v p"
| "call_typed sq (Taking p) = take_typed sq p"

lemma call_keeps_types:
  assumes "sq_typed sq" "call_typed sq c"
  shows "\<exists>sq' c'. sq_call_step sq c = Some (sq', c') \<and> sq_typed sq' \<and> sq_grows sq sq' \<and> call_typed sq' c'"
proof (cases c)
  case (Pushing v p)
  then show ?thesis using push_keeps_types [OF assms(1), of v p] assms(2) by auto
next
  case (Taking p)
  then show ?thesis using take_keeps_types [OF assms(1), of p] assms(2) by auto
qed

interpretation many: typed_calls sq_call_step sq_call_result sq_call_entry "\<lambda>sq. sq_typed sq \<and> sq_length sq = len" call_typed sq_grows
  for len
proof unfold_locales
  show "\<exists>q' p'. sq_call_step q p = Some (q', p') \<and> (sq_typed q' \<and> sq_length q' = len) \<and> sq_grows q q' \<and> call_typed q' p'"
    if "sq_typed q \<and> sq_length q = len" "call_typed q p" for q p
    using call_keeps_types [of q p] that by (auto simp: sq_grows_def)
  show "call_typed q' p" if "sq_grows q q'" "call_typed q p" for q q' p
    using that by (cases p) (auto intro: push_typed_grows take_typed_grows)
  show "call_typed q p" if "sq_call_entry p" for q p using that by (auto simp: sq_call_entry_def)
qed

lemma sq_created_typed:
  assumes "mcmpSetQueueCreate malloc_ok junk len = Some (Inr sq)" "2 \<le> len" "len < 2 ^ 60"
  shows "sq_typed sq \<and> sq_length sq = len"
proof -
  have "(len + 7) div 8 * 2 \<le> len + 7" by linarith
  then have "malloc_ok (64 + ((len + 7) div 8) * 2 + 8 * len)"
    using assms(1,3) by (simp add: mcmpSetQueueCreate_def Let_def split: if_splits)
  then have "sq_inv sq" "sq_view sq = []" "sq_length sq = len"
    using sq_fresh [of len malloc_ok junk, OF assms(3,2)] assms(1) by auto
  then show ?thesis by (auto simp: sq_typed_def sq_inv_def sq_view_def ring_slots_def ring_view_def)
qed

text \<open>
  C5: The calls of a set queue are type safe whatever runs beside them: on a queue of at least two indices, as created, any number of threads
  push any values and take, their accesses interleaved in any way, and no access is ever undefined (no
  index leaves the ring, the bitmaps or the items, and none is read from an item that was never written); a push
  returns one of its four statuses, and a take returns either an index of the queue with
  MCMPST_SUCCESS or none with MCMPST_ISEMPTY or MCMPST_RETRYOP.
\<close>
theorem set_queue_typed:
  assumes "mcmpSetQueueCreate malloc_ok junk len = Some (Inr sq)" "2 \<le> len" "len < 2 ^ 60"
    and "reachable (cy_init sq) (cy_step sq_call_step sq_call_result sq_call_entry) s" "cy_call s i = Some c"
  shows "(\<exists>q c'. sq_call_step (cy_state s) c = Some (q, c'))
    \<and> (case c of
         Pushing v p \<Rightarrow> (case push_result p of None \<Rightarrow> True
           | Some st \<Rightarrow> st \<in> {MCMPST_SUCCESS, MCMPST_OVERFLOW, MCMPST_ALROP, MCMPST_RETRYOP})
       | Taking p \<Rightarrow> (case take_result p of None \<Rightarrow> True
           | Some (st, None) \<Rightarrow> st \<in> {MCMPST_ISEMPTY, MCMPST_RETRYOP}
           | Some (st, Some v) \<Rightarrow> st = MCMPST_SUCCESS \<and> v < len))"
proof -
  note typed = many.reach_typed [OF sq_created_typed [OF assms(1-3)] assms(4,5)]
  have "case c of
         Pushing v p \<Rightarrow> (case push_result p of None \<Rightarrow> True
           | Some st \<Rightarrow> st \<in> {MCMPST_SUCCESS, MCMPST_OVERFLOW, MCMPST_ALROP, MCMPST_RETRYOP})
       | Taking p \<Rightarrow> (case take_result p of None \<Rightarrow> True
           | Some (st, None) \<Rightarrow> st \<in> {MCMPST_ISEMPTY, MCMPST_RETRYOP}
           | Some (st, Some v) \<Rightarrow> st = MCMPST_SUCCESS \<and> v < len)"
  proof (cases c)
    case (Pushing v p)
    then show ?thesis using typed(2) by (cases p) auto
  next
    case (Taking p)
    then show ?thesis using typed(1,2) by (cases p) (auto simp: slot_of_def split: option.splits)
  qed
  with typed(3) show ?thesis by blast
qed

text \<open>Two threads that push the same value and one that takes.\<close>

theorem set_queue_typed_witness:
  "\<exists>sq s. mcmpSetQueueCreate (\<lambda>_. True) (\<lambda>_. 99) 5 = Some (Inr sq)
     \<and> reachable (cy_init sq) (cy_step sq_call_step sq_call_result sq_call_entry) s
     \<and> cy_call s 0 = Some (Pushing 3 P_LoadSet) \<and> cy_call s 1 = Some (Taking T_LoadTail) \<and> cy_call s 2 = Some (Pushing 3 P_LoadSet)
     \<and> (\<exists>q c'. sq_call_step (cy_state s) (Pushing 3 P_LoadSet) = Some (q, c'))"
proof -
  obtain sq where sq: "mcmpSetQueueCreate (\<lambda>_. True) (\<lambda>_. 99) 5 = Some (Inr sq)"
    using create_runs [of 5 "\<lambda>_. True" "\<lambda>_. 99"] by simp
  let ?step = "cy_step sq_call_step sq_call_result sq_call_entry"
  let ?s = "\<lambda>c. \<lparr>cy_state = sq, cy_call = c\<rparr>"
  let ?none = "\<lambda>_ :: nat. None :: sq_call option"
  let ?one = "?none(0 := Some (Pushing 3 P_LoadSet))"
  let ?two = "?one(1 := Some (Taking T_LoadTail))"
  let ?three = "?two(2 := Some (Pushing 3 P_LoadSet))"
  have enter: "?step (?s c) (?s (c(i := Some p)))" if "c i = None" "sq_call_entry p" for c i p
    using cy_move.enter [of "?s c" i sq_call_entry p sq_call_step sq_call_result] that
    by (auto simp: cy_step_def intro!: exI [of _ i])
  have "reachable (cy_init sq) ?step (?s ?none)" by (rule reachable.start) (simp add: cy_init_def)
  moreover have "?step (?s ?none) (?s ?one)" "?step (?s ?one) (?s ?two)" "?step (?s ?two) (?s ?three)"
    by (rule enter; simp add: sq_call_entry_def)+
  ultimately have reach: "reachable (cy_init sq) ?step (?s ?three)" by (meson reachable.step)
  show ?thesis
    using set_queue_typed [OF sq _ _ reach, of 0] sq reach by (intro exI [of _ sq] exI [of _ "?s ?three"]) simp
qed

end
