(* ===== verification/Set_Queue_Test.thy ===== *)
theory Set_Queue_Test
  imports Set_Queue
begin

text \<open>
  The test program of the set queue, \<^verbatim>\<open>utilities/test/test_setqueue.c\<close>: it pushes six values, prints both bitmaps, and
  takes until head and tail meet, printing the value and the bitmaps after each take. What it prints is a list of bits
  for a bitmap; the statuses of its calls are not looked at.
\<close>

section \<open>The program\<close>

definition print_bits :: "byte list \<Rightarrow> bool list ub" where
  "print_bits bitmap = those (map (\<lambda>idx. mcmpBitmapIsEnabledBit bitmap (int idx)) [0..<16])"

definition print_bitmaps :: "setqueue \<Rightarrow> (bool list \<times> bool list) ub" where
  "print_bitmaps squ = do {
     ready \<leftarrow> print_bits (sq_ready squ);
     values \<leftarrow> print_bits (sq_values squ);
     Some (ready, values) }"

text \<open>
  The loop. \<open>ind\<close> is \<open>None\<close> while it has not been assigned, and keeps its value when a take fails.
\<close>

partial_function (option) drain_loop ::
  "nat option \<Rightarrow> setqueue \<Rightarrow> (setqueue \<times> (nat \<times> bool list \<times> bool list) list) option" where
  "drain_loop ind squ =
     (if sq_head squ = sq_tail squ then Some (squ, [])
      else Option.bind (mcmpSetQueueTake squ) (\<lambda>(squ', st, got).
        Option.bind (if got = None then ind else got) (\<lambda>v.
        Option.bind (print_bitmaps squ') (\<lambda>bits.
        Option.bind (drain_loop (Some v) squ') (\<lambda>(squ'', printed). Some (squ'', (v, bits) # printed))))))"

definition test_values :: "nat list" where
  "test_values = [0, 2, 5, 7, 15, 13]"

text \<open>The exit code, and what a run that creates its queue prints.\<close>

definition setqueue_test :: "(nat \<Rightarrow> bool) \<Rightarrow> (nat \<Rightarrow> nat) \<Rightarrow>
    (int \<times> ((bool list \<times> bool list) \<times> (nat \<times> bool list \<times> bool list) list) option) ub" where
  "setqueue_test malloc_ok junk = do {
     created \<leftarrow> mcmpSetQueueCreate malloc_ok junk 16;
     (case created of
        Inl _ \<Rightarrow> Some (1, None)
      | Inr queue \<Rightarrow> do {
          (_, _, queue) \<leftarrow> sq_run (map Push test_values) queue;
          bits \<leftarrow> print_bitmaps queue;
          (_, printed) \<leftarrow> drain_loop None queue;
          Some (0, Some (bits, printed)) }) }"

section \<open>What it prints\<close>

text \<open>Of a queue of 16, the slots between tail and head, and the values enqueued.\<close>

definition shown_bits :: "setqueue \<Rightarrow> bool list \<times> bool list" where
  "shown_bits squ = (map (\<lambda>j. j \<in> ring_slots 16 (sq_head squ) (sq_tail squ)) [0..<16], map (\<lambda>v. v \<in> set (sq_view squ)) [0..<16])"

lemma those_Some: "those (map (\<lambda>x. Some (f x)) xs) = Some (map f xs)"
  by (induction xs) simp_all

lemma print_bits_ok:
  assumes "16 \<le> 8 * length bitmap"
  shows "print_bits bitmap = Some (map (bm_bit bitmap) [0..<16])"
proof -
  have "map (\<lambda>idx. mcmpBitmapIsEnabledBit bitmap (int idx)) [0..<16] = map (\<lambda>idx. Some (bm_bit bitmap idx)) [0..<16]"
    using assms by (intro map_cong) (auto intro: is_enabled_bit)
  then show ?thesis by (simp only: print_bits_def those_Some)
qed

lemma print_bitmaps_ok:
  assumes "sq_inv squ" "sq_length squ = 16"
  shows "print_bitmaps squ = Some (shown_bits squ)"
proof -
  have "16 \<le> 8 * length (sq_ready squ)" "16 \<le> 8 * length (sq_values squ)"
    using assms by (auto simp: sq_inv_def sq_wf_def)
  then show ?thesis using assms
    by (auto simp: print_bitmaps_def print_bits_ok shown_bits_def sq_inv_def intro!: map_cong)
qed

text \<open>The loop ends and takes the values in the order of the queue, each bitmap shown as the queue then is.\<close>

lemma drain_loop_ends:
  assumes "sq_inv squ" "sq_length squ = 16"
  shows "\<exists>squ' printed. drain_loop ind squ = Some (squ', printed) \<and> sq_view squ' = [] \<and> map fst printed = sq_view squ
     \<and> map (snd \<circ> snd) printed = map (\<lambda>k. map (\<lambda>v. v \<in> set (drop (Suc k) (sq_view squ))) [0..<16]) [0..<length (sq_view squ)]"
  using assms
proof (induction "sq_view squ" arbitrary: ind squ)
  case Nil
  then show ?case using sq_view_Nil [of squ] by (simp add: drain_loop.simps sq_inv_def)
next
  case (Cons v vs)
  note view = Cons.hyps(2) [symmetric]
  have ne: "sq_head squ \<noteq> sq_tail squ" using sq_view_Nil [of squ] view Cons.prems(1) by (auto simp: sq_inv_def)
  note took = sq_take_ok(2) [OF Cons.prems(1) view]
  have len: "sq_length (sq_taken squ v) = 16" using Cons.prems(2) by (simp add: sq_taken_def)
  obtain squ' printed where IH: "drain_loop (Some v) (sq_taken squ v) = Some (squ', printed)" "sq_view squ' = []" "map fst printed = vs"
      "map (snd \<circ> snd) printed = map (\<lambda>k. map (\<lambda>v. v \<in> set (drop (Suc k) vs)) [0..<16]) [0..<length vs]"
    using Cons.hyps(1) [of "sq_taken squ v" "Some v"] took len by auto
  have "drain_loop ind squ = Some (squ', (v, shown_bits (sq_taken squ v)) # printed)"
    using ne took IH(1) print_bitmaps_ok [OF _ len] by (subst drain_loop.simps) simp
  moreover have "snd (shown_bits (sq_taken squ v)) = map (\<lambda>x. x \<in> set vs) [0..<16]" using took by (simp add: shown_bits_def)
  ultimately show ?case using IH view by (simp add: upt_conv_Cons map_Suc_upt [symmetric] del: upt_Suc)
qed

text \<open>The program ends with 0 and prints its values in the order in which it pushed them, or with 1 when it has no memory.\<close>

lemma setqueue_test_prints:
  assumes "malloc_ok 196"
  shows "\<exists>bits printed. setqueue_test malloc_ok junk = Some (0, Some (bits, printed))
     \<and> snd bits = map (\<lambda>v. v \<in> set test_values) [0..<16] \<and> map fst printed = test_values
     \<and> snd (snd (last printed)) = replicate 16 False"
proof -
  obtain q where q: "mcmpSetQueueCreate malloc_ok junk 16 = Some (Inr q)" "sq_inv q" "sq_view q = []" "sq_length q = 16"
    by (rule sq_fresh [of 16 malloc_ok junk]) (use assms in simp_all)
  obtain q' where q': "sq_run (map Push test_values) q = Some (test_values, [], q')" "sq_inv q'" "sq_view q' = test_values" "sq_length q' = 16"
    using sq_fill [OF q(2), of test_values] q(3,4) by (auto simp: test_values_def)
  obtain end_q printed where p: "drain_loop None q' = Some (end_q, printed)" "map fst printed = test_values"
      "map (snd \<circ> snd) printed = map (\<lambda>k. map (\<lambda>v. v \<in> set (drop (Suc k) test_values)) [0..<16]) [0..<length test_values]"
    using drain_loop_ends [OF q'(2,4), of None] q'(3) by auto
  have "printed \<noteq> []" using p(2) by (auto simp: test_values_def)
  then have "snd (snd (last printed)) = last (map (snd \<circ> snd) printed)" by (simp add: last_map)
  also have "\<dots> = replicate 16 False" by (simp add: p(3) test_values_def numeral_eq_Suc)
  finally show ?thesis
    using q(1) q'(1) p(1,2) print_bitmaps_ok [OF q'(2,4)] q'(3) by (auto simp: setqueue_test_def shown_bits_def)
qed

lemma setqueue_test_no_memory: "\<not> malloc_ok 196 \<Longrightarrow> setqueue_test malloc_ok junk = Some (1, None)"
  by (simp add: setqueue_test_def mcmpSetQueueCreate_def)

end
