(* ===== verification/Chunked_Queue.thy ===== *)
theory Chunked_Queue
  imports Ring_Fifo
begin

text \<open>
  The chunked queue of \<^verbatim>\<open>utilities/src/common/chunkedqueue.c\<close>: one block with a header and a number
  of chunks, each a ring of \<open>alignment\<close> machine words with a head and a tail of its own. Push and
  take are step machines with one step for each atomic access. Their compare-and-swap is the weak
  one, which may fail without reason; a program counter carries how often it still will.
\<close>

section \<open>State and creation\<close>

record chunk =
  ck_head :: nat
  ck_tail :: nat
  ck_items :: "nat list"

record chunkedqueue =
  cq_alignment :: nat
  cq_length :: nat
  cq_chunksize :: nat
  cq_chunks :: "chunk list"

text \<open>
  All sizes are \<^verbatim>\<open>size_t\<close>. Undefined: a division by an alignment of 0, and writing the header or the
  first fields of a chunk outside the block. The items of a chunk are the words between its first
  two fields and the next chunk.
\<close>

definition mcmpChunkedQueueCreate ::
  "(nat \<Rightarrow> bool) \<Rightarrow> (nat \<Rightarrow> nat) \<Rightarrow> nat \<Rightarrow> nat \<Rightarrow> (mcmpst + chunkedqueue) ub" where
  "mcmpChunkedQueueCreate malloc_ok junk len alignment =
     (if alignment = 0 then None
      else let totalchunks = ((len + (alignment - 1)) mod size_max) div alignment;
               normalized = (totalchunks * alignment) mod size_max;
               chunksize = (16 + (alignment * 8) mod size_max) mod size_max;
               bytes = (64 + (totalchunks * chunksize) mod size_max) mod size_max
           in if \<not> malloc_ok bytes then Some (Inl MCMPST_OUT_OF_MEM)
              else if bytes < 24 \<or> 0 < totalchunks \<and> bytes < 64 + (totalchunks - 1) * chunksize + 16 then None
              else Some (Inr \<lparr>cq_alignment = alignment, cq_length = normalized, cq_chunksize = chunksize,
                     cq_chunks = replicate totalchunks
                       \<lparr>ck_head = 0, ck_tail = 0, ck_items = map junk [0..<(chunksize - 16) div 8]\<rparr>\<rparr>))"

section \<open>Push and take\<close>

datatype cq_push_pc = CP_LoadHead nat | CP_LoadTail nat nat | CP_Cas nat nat nat | CP_Copy nat | CP_Done mcmpst

datatype cq_take_pc =
    CT_LoadTail nat | CT_LoadHead nat nat | CT_Cas nat nat nat | CT_Copy nat | CT_Done mcmpst "nat option"

fun cq_push_result :: "cq_push_pc \<Rightarrow> mcmpst option" where
  "cq_push_result (CP_Done st) = Some st"
| "cq_push_result _ = None"

fun cq_take_result :: "cq_take_pc \<Rightarrow> (mcmpst \<times> nat option) option" where
  "cq_take_result (CT_Done st r) = Some (st, r)"
| "cq_take_result _ = None"

definition cq_chunk :: "chunkedqueue \<Rightarrow> nat \<Rightarrow> chunk ub" where
  "cq_chunk cq i = (if i < length (cq_chunks cq) then Some (cq_chunks cq ! i) else None)"

definition cq_set :: "chunkedqueue \<Rightarrow> nat \<Rightarrow> chunk \<Rightarrow> chunkedqueue" where
  "cq_set cq i ck = cq\<lparr>cq_chunks := (cq_chunks cq)[i := ck]\<rparr>"

fun cq_push_step :: "nat \<Rightarrow> nat \<Rightarrow> chunkedqueue \<Rightarrow> cq_push_pc \<Rightarrow> (chunkedqueue \<times> cq_push_pc) ub" where
  "cq_push_step chunkidx item cq (CP_LoadHead fails) = do {
     ck \<leftarrow> cq_chunk cq chunkidx;
     Some (cq, CP_LoadTail fails (ck_head ck)) }"
| "cq_push_step chunkidx item cq (CP_LoadTail fails index) = do {
     ck \<leftarrow> cq_chunk cq chunkidx;
     nxt \<leftarrow> ring_next (cq_alignment cq) index;
     Some (cq, if ck_tail ck = nxt then CP_Done MCMPST_OVERFLOW else CP_Cas fails index nxt) }"
| "cq_push_step chunkidx item cq (CP_Cas fails index nxt) = do {
     ck \<leftarrow> cq_chunk cq chunkidx;
     Some (if ck_head ck \<noteq> index then (cq, CP_LoadHead fails)
           else if 0 < fails then (cq, CP_LoadHead (fails - 1))
           else (cq_set cq chunkidx (ck\<lparr>ck_head := nxt\<rparr>), CP_Copy index)) }"
| "cq_push_step chunkidx item cq (CP_Copy index) = do {
     ck \<leftarrow> cq_chunk cq chunkidx;
     (if index < length (ck_items ck)
      then Some (cq_set cq chunkidx (ck\<lparr>ck_items := (ck_items ck)[index := item]\<rparr>), CP_Done MCMPST_SUCCESS)
      else None) }"
| "cq_push_step chunkidx item cq (CP_Done st) = Some (cq, CP_Done st)"

fun cq_take_step :: "nat \<Rightarrow> chunkedqueue \<Rightarrow> cq_take_pc \<Rightarrow> (chunkedqueue \<times> cq_take_pc) ub" where
  "cq_take_step chunkidx cq (CT_LoadTail fails) = do {
     ck \<leftarrow> cq_chunk cq chunkidx;
     Some (cq, CT_LoadHead fails (ck_tail ck)) }"
| "cq_take_step chunkidx cq (CT_LoadHead fails index) = do {
     ck \<leftarrow> cq_chunk cq chunkidx;
     nxt \<leftarrow> ring_next (cq_alignment cq) index;
     Some (cq, if ck_head ck = index then CT_Done MCMPST_OVERFLOW None else CT_Cas fails index nxt) }"
| "cq_take_step chunkidx cq (CT_Cas fails index nxt) = do {
     ck \<leftarrow> cq_chunk cq chunkidx;
     Some (if ck_tail ck \<noteq> index then (cq, CT_LoadTail fails)
           else if 0 < fails then (cq, CT_LoadTail (fails - 1))
           else (cq_set cq chunkidx (ck\<lparr>ck_tail := nxt\<rparr>), CT_Copy index)) }"
| "cq_take_step chunkidx cq (CT_Copy index) = do {
     ck \<leftarrow> cq_chunk cq chunkidx;
     (if index < length (ck_items ck) then Some (cq, CT_Done MCMPST_SUCCESS (Some (ck_items ck ! index))) else None) }"
| "cq_take_step chunkidx cq (CT_Done st r) = Some (cq, CT_Done st r)"

definition mcmpChunkedQueuePush :: "nat \<Rightarrow> nat \<Rightarrow> chunkedqueue \<Rightarrow> nat \<Rightarrow> (chunkedqueue \<times> mcmpst) ub" where
  "mcmpChunkedQueuePush fails chunkidx cq item =
     run_call (cq_push_step chunkidx item) cq_push_result cq (CP_LoadHead fails)"

definition mcmpChunkedQueueTake :: "nat \<Rightarrow> nat \<Rightarrow> chunkedqueue \<Rightarrow> (chunkedqueue \<times> mcmpst \<times> nat option) ub" where
  "mcmpChunkedQueueTake fails chunkidx cq = run_call (cq_take_step chunkidx) cq_take_result cq (CT_LoadTail fails)"

section \<open>A chunk as a list\<close>

definition cq_view :: "nat \<Rightarrow> chunkedqueue \<Rightarrow> nat list" where
  "cq_view i cq = (let ck = cq_chunks cq ! i in ring_view (cq_alignment cq) (ck_items ck) (ck_head ck) (ck_tail ck))"

definition ck_wf :: "nat \<Rightarrow> chunk \<Rightarrow> bool" where
  "ck_wf n ck \<longleftrightarrow> ck_head ck < n \<and> ck_tail ck < n \<and> n \<le> length (ck_items ck)"

definition cq_inv :: "nat \<Rightarrow> chunkedqueue \<Rightarrow> bool" where
  "cq_inv i cq \<longleftrightarrow> cq_alignment cq < size_max \<and> i < length (cq_chunks cq)
     \<and> (\<forall>ck \<in> set (cq_chunks cq). ck_wf (cq_alignment cq) ck)"

definition cq_accepts :: "nat \<Rightarrow> chunkedqueue \<Rightarrow> nat \<Rightarrow> bool" where
  "cq_accepts i cq item \<longleftrightarrow> Suc (length (cq_view i cq)) < cq_alignment cq"

definition cq_pushed :: "nat \<Rightarrow> chunkedqueue \<Rightarrow> nat \<Rightarrow> chunkedqueue" where
  "cq_pushed i cq item =
     (let ck = cq_chunks cq ! i
      in cq_set cq i (ck\<lparr>ck_head := Suc (ck_head ck) mod cq_alignment cq, ck_items := (ck_items ck)[ck_head ck := item]\<rparr>))"

definition cq_taken :: "nat \<Rightarrow> chunkedqueue \<Rightarrow> chunkedqueue" where
  "cq_taken i cq =
     (let ck = cq_chunks cq ! i in cq_set cq i (ck\<lparr>ck_tail := Suc (ck_tail ck) mod cq_alignment cq\<rparr>))"

lemma cq_inv_chunk: "cq_inv i cq \<Longrightarrow> ck_wf (cq_alignment cq) (cq_chunks cq ! i)"
  by (simp add: cq_inv_def)

lemma cq_inv_set: "cq_inv i cq \<Longrightarrow> ck_wf (cq_alignment cq) ck \<Longrightarrow> cq_inv i (cq_set cq i ck)"
  using set_update_subset_insert [of "cq_chunks cq" i ck] by (auto simp: cq_inv_def cq_set_def)

lemma cq_set_simps [simp]:
  "cq_alignment (cq_set cq i ck) = cq_alignment cq"
  "length (cq_chunks (cq_set cq i ck)) = length (cq_chunks cq)"
  "i < length (cq_chunks cq) \<Longrightarrow> cq_chunks (cq_set cq i ck) ! i = ck"
  "cq_set (cq_set cq i ck) i ck' = cq_set cq i ck'"
  by (simp_all add: cq_set_def)

lemma cq_push_runs:
  assumes "cq_inv i cq"
  shows "mcmpChunkedQueuePush fails i cq item =
     (if cq_accepts i cq item then Some (cq_pushed i cq item, MCMPST_SUCCESS) else Some (cq, MCMPST_OVERFLOW))"
proof -
  let ?ck = "cq_chunks cq ! i" let ?n = "cq_alignment cq"
  have i: "i < length (cq_chunks cq)" and wf: "ck_wf ?n ?ck" and n: "?n < size_max"
    using assms by (auto simp: cq_inv_def)
  then have next_ok: "ring_next ?n (ck_head ?ck) = Some (Suc (ck_head ?ck) mod ?n)"
    by (simp add: ring_next_eq ck_wf_def)
  have full: "ck_tail ?ck = Suc (ck_head ?ck) mod ?n \<longleftrightarrow> \<not> cq_accepts i cq item"
    using wf ring_full [of "ck_head ?ck" ?n "ck_tail ?ck"] by (simp add: cq_accepts_def cq_view_def Let_def ck_wf_def)
  note run = run_call.simps [of "cq_push_step i item" cq_push_result _ "CP_LoadHead f" for f]
    run_call.simps [of "cq_push_step i item" cq_push_result _ "CP_LoadTail f x" for f x]
    run_call.simps [of "cq_push_step i item" cq_push_result _ "CP_Cas f x y" for f x y]
    run_call.simps [of "cq_push_step i item" cq_push_result _ "CP_Copy x" for x]
    run_call.simps [of "cq_push_step i item" cq_push_result _ "CP_Done x" for x]
  have item: "ck_head ?ck < length (ck_items ?ck)" using wf by (auto simp: ck_wf_def)
  show ?thesis
  proof (induction fails)
    case 0
    show ?case using i next_ok full item
      by (simp add: mcmpChunkedQueuePush_def run cq_chunk_def cq_pushed_def Let_def)
  next
    case (Suc f)
    then show ?case using i next_ok full
      by (simp add: mcmpChunkedQueuePush_def run(1) [of _ "Suc f"] run(2,3,5) cq_chunk_def)
  qed
qed

lemma cq_take_runs:
  assumes "cq_inv i cq"
  shows "mcmpChunkedQueueTake fails i cq =
     (let ck = cq_chunks cq ! i
      in if ck_head ck = ck_tail ck then Some (cq, MCMPST_OVERFLOW, None)
         else Some (cq_taken i cq, MCMPST_SUCCESS, Some (ck_items ck ! ck_tail ck)))"
proof -
  let ?ck = "cq_chunks cq ! i" let ?n = "cq_alignment cq"
  have i: "i < length (cq_chunks cq)" and wf: "ck_wf ?n ?ck" and n: "?n < size_max"
    using assms by (auto simp: cq_inv_def)
  then have next_ok: "ring_next ?n (ck_tail ?ck) = Some (Suc (ck_tail ?ck) mod ?n)"
    by (simp add: ring_next_eq ck_wf_def)
  note run = run_call.simps [of "cq_take_step i" cq_take_result _ "CT_LoadTail f" for f]
    run_call.simps [of "cq_take_step i" cq_take_result _ "CT_LoadHead f x" for f x]
    run_call.simps [of "cq_take_step i" cq_take_result _ "CT_Cas f x y" for f x y]
    run_call.simps [of "cq_take_step i" cq_take_result _ "CT_Copy x" for x]
    run_call.simps [of "cq_take_step i" cq_take_result _ "CT_Done x y" for x y]
  have item: "ck_tail ?ck < length (ck_items ?ck)" using wf by (auto simp: ck_wf_def)
  show ?thesis
  proof (induction fails)
    case 0
    show ?case using i next_ok item
      by (simp add: mcmpChunkedQueueTake_def run cq_chunk_def cq_taken_def Let_def)
  next
    case (Suc f)
    then show ?case using i next_ok
      by (simp add: mcmpChunkedQueueTake_def run(1) [of _ "Suc f"] run(2,3,5) cq_chunk_def)
  qed
qed

lemma cq_pushed_ok:
  assumes inv: "cq_inv i cq" and acc: "cq_accepts i cq item"
  shows "cq_inv i (cq_pushed i cq item)" "cq_view i (cq_pushed i cq item) = cq_view i cq @ [item]"
proof -
  let ?ck = "cq_chunks cq ! i" let ?n = "cq_alignment cq"
  have i: "i < length (cq_chunks cq)" and wf: "ck_wf ?n ?ck" using inv by (auto simp: cq_inv_def)
  have room: "Suc (ck_head ?ck) mod ?n \<noteq> ck_tail ?ck"
    using acc wf ring_full [of "ck_head ?ck" ?n "ck_tail ?ck"] by (auto simp: cq_accepts_def cq_view_def Let_def ck_wf_def)
  show "cq_inv i (cq_pushed i cq item)"
    using wf unfolding cq_pushed_def Let_def by (intro cq_inv_set [OF inv]) (auto simp: ck_wf_def)
  show "cq_view i (cq_pushed i cq item) = cq_view i cq @ [item]"
    using i wf room by (simp add: cq_view_def cq_pushed_def Let_def ring_view_push ck_wf_def)
qed

lemma cq_taken_ok:
  assumes inv: "cq_inv i cq" and ne: "ck_head (cq_chunks cq ! i) \<noteq> ck_tail (cq_chunks cq ! i)"
  shows "cq_inv i (cq_taken i cq)"
    "cq_view i cq = ck_items (cq_chunks cq ! i) ! ck_tail (cq_chunks cq ! i) # cq_view i (cq_taken i cq)"
proof -
  let ?ck = "cq_chunks cq ! i" let ?n = "cq_alignment cq"
  have i: "i < length (cq_chunks cq)" and wf: "ck_wf ?n ?ck" using inv by (auto simp: cq_inv_def)
  show "cq_inv i (cq_taken i cq)"
    using wf unfolding cq_taken_def Let_def by (intro cq_inv_set [OF inv]) (auto simp: ck_wf_def)
  show "cq_view i cq = ck_items ?ck ! ck_tail ?ck # cq_view i (cq_taken i cq)"
    using i wf ne by (simp add: cq_view_def cq_taken_def Let_def ring_view_take ck_wf_def)
qed

lemma cq_view_Nil:
  "cq_inv i cq \<Longrightarrow> cq_view i cq = [] \<longleftrightarrow> ck_head (cq_chunks cq ! i) = ck_tail (cq_chunks cq ! i)"
  using cq_inv_chunk [of i cq] by (simp add: cq_view_def Let_def ck_wf_def ring_view_Nil)

interpretation chunk_fifo: bounded_fifo "cq_inv i" "cq_view i" "cq_accepts i"
    "mcmpChunkedQueuePush fails i" "mcmpChunkedQueueTake fails i" for i fails
proof
  fix cq :: chunkedqueue and x :: nat and xs :: "nat list"
  assume inv: "cq_inv i cq"
  show "cq_accepts i cq x \<Longrightarrow>
      \<exists>s'. mcmpChunkedQueuePush fails i cq x = Some (s', MCMPST_SUCCESS) \<and> cq_inv i s' \<and> cq_view i s' = cq_view i cq @ [x]"
    using cq_pushed_ok [OF inv, of x] by (simp add: cq_push_runs [OF inv])
  show "\<not> cq_accepts i cq x \<Longrightarrow> \<exists>st. mcmpChunkedQueuePush fails i cq x = Some (cq, st) \<and> st \<noteq> MCMPST_SUCCESS"
    by (simp add: cq_push_runs [OF inv])
  show "cq_view i cq = [] \<Longrightarrow> \<exists>st. mcmpChunkedQueueTake fails i cq = Some (cq, st, None) \<and> st \<noteq> MCMPST_SUCCESS"
    using cq_view_Nil [OF inv] by (simp add: cq_take_runs [OF inv] Let_def)
  assume view: "cq_view i cq = x # xs"
  then have "ck_head (cq_chunks cq ! i) \<noteq> ck_tail (cq_chunks cq ! i)" using cq_view_Nil [OF inv] by auto
  then show "\<exists>s'. mcmpChunkedQueueTake fails i cq = Some (s', MCMPST_SUCCESS, Some x) \<and> cq_inv i s' \<and> cq_view i s' = xs"
    using cq_taken_ok [OF inv] view by (simp add: cq_take_runs [OF inv] Let_def)
qed

section \<open>Properties\<close>

text \<open>
  Any sequence of pushes and takes on one chunk, with any number of spurious failures of the weak compare-and-swap
  in each call, returns without undefined behaviour and behaves as a first-in first-out list.
\<close>

lemma chunk_is_fifo:
  assumes "cq_inv i cq"
  shows "\<exists>ins outs cq'. fifo_run (mcmpChunkedQueuePush fails i) (mcmpChunkedQueueTake fails i) ops cq = Some (ins, outs, cq')
    \<and> cq_inv i cq' \<and> cq_view i cq @ ins = outs @ cq_view i cq'"
  by (rule chunk_fifo.run_fifo [OF assms])

text \<open>
  On a chunk in a well-formed queue, a push reports MCMPST_OVERFLOW exactly when \<open>alignment - 1\<close> items wait in the
  chunk, a take reports MCMPST_OVERFLOW exactly when none waits, and neither touches any other chunk or changes anything
  when it reports MCMPST_OVERFLOW.
\<close>

lemma chunk_calls:
  assumes "cq_inv i cq" "j \<noteq> i"
  shows "(\<exists>cq' st. mcmpChunkedQueuePush fails i cq item = Some (cq', st) \<and> cq_chunks cq' ! j = cq_chunks cq ! j
      \<and> (if Suc (length (cq_view i cq)) = cq_alignment cq then st = MCMPST_OVERFLOW \<and> cq' = cq else st = MCMPST_SUCCESS))
    \<and> (\<exists>cq' st r. mcmpChunkedQueueTake fails i cq = Some (cq', st, r) \<and> cq_chunks cq' ! j = cq_chunks cq ! j
      \<and> (if cq_view i cq = [] then st = MCMPST_OVERFLOW \<and> r = None \<and> cq' = cq
          else st = MCMPST_SUCCESS \<and> r = Some (hd (cq_view i cq))))"
proof
  have wf: "ck_wf (cq_alignment cq) (cq_chunks cq ! i)" by (rule cq_inv_chunk [OF assms(1)])
  then have "length (cq_view i cq) < cq_alignment cq"
    by (simp add: cq_view_def Let_def ring_count_less ck_wf_def)
  then have acc: "cq_accepts i cq item \<longleftrightarrow> Suc (length (cq_view i cq)) \<noteq> cq_alignment cq"
    unfolding cq_accepts_def by linarith
  show "\<exists>cq' st. mcmpChunkedQueuePush fails i cq item = Some (cq', st) \<and> cq_chunks cq' ! j = cq_chunks cq ! j
      \<and> (if Suc (length (cq_view i cq)) = cq_alignment cq then st = MCMPST_OVERFLOW \<and> cq' = cq else st = MCMPST_SUCCESS)"
    using assms(2) by (simp add: cq_push_runs [OF assms(1)] acc cq_pushed_def cq_set_def Let_def)
  show "\<exists>cq' st r. mcmpChunkedQueueTake fails i cq = Some (cq', st, r) \<and> cq_chunks cq' ! j = cq_chunks cq ! j
      \<and> (if cq_view i cq = [] then st = MCMPST_OVERFLOW \<and> r = None \<and> cq' = cq
          else st = MCMPST_SUCCESS \<and> r = Some (hd (cq_view i cq)))"
    using assms(2) cq_view_Nil [OF assms(1)] cq_taken_ok(2) [OF assms(1)]
    by (simp add: cq_take_runs [OF assms(1)] cq_taken_def cq_set_def Let_def)
qed

lemma chunked_created:
  assumes "0 < alignment" "len + alignment < 2 ^ 58"
    and "malloc_ok (64 + (len + (alignment - 1)) div alignment * (16 + 8 * alignment))"
  shows "\<exists>cq. mcmpChunkedQueueCreate malloc_ok junk len alignment = Some (Inr cq) \<and> cq_alignment cq = alignment
    \<and> length (cq_chunks cq) = (len + (alignment - 1)) div alignment
    \<and> cq_length cq = length (cq_chunks cq) * alignment \<and> len \<le> cq_length cq \<and> cq_length cq < len + alignment
    \<and> (\<forall>i < length (cq_chunks cq). cq_inv i cq \<and> cq_view i cq = [])"
proof -
  define tc where "tc = (len + (alignment - 1)) div alignment"
  define a where "a = len + (alignment - 1)"
  have "tc * alignment + a mod alignment = a" "a mod alignment < alignment"
    unfolding tc_def a_def [symmetric] using assms(1) by simp_all
  then have tc: "tc * alignment \<le> len + (alignment - 1)" "len \<le> tc * alignment"
    using a_def assms(1) by linarith+
  define p where "p = tc * alignment"
  have "tc \<le> p" "p \<le> len + (alignment - 1)" using assms(1) tc(1) by (simp_all add: p_def)
  moreover have "64 + tc * (16 + 8 * alignment) = 64 + 16 * tc + 8 * p" by (simp add: p_def algebra_simps)
  ultimately have bytes: "64 + tc * (16 + 8 * alignment) < size_max" using assms(2) by simp
  have fits: "0 < tc \<Longrightarrow> 64 + (tc - 1) * (16 + 8 * alignment) + 16 \<le> 64 + tc * (16 + 8 * alignment)"
    by (cases tc) simp_all
  have tcmod: "((len + (alignment - 1)) mod size_max) div alignment = tc"
    unfolding tc_def using assms(2) by (subst mod_less) simp_all
  have small: "tc * alignment < size_max" by (rule le_less_trans [OF tc(1)]) (use assms(2) in simp)
  note granted = assms(3) [folded tc_def]
  have "mcmpChunkedQueueCreate malloc_ok junk len alignment = Some (Inr
      \<lparr>cq_alignment = alignment, cq_length = tc * alignment, cq_chunksize = 16 + 8 * alignment,
       cq_chunks = replicate tc \<lparr>ck_head = 0, ck_tail = 0, ck_items = map junk [0..<alignment]\<rparr>\<rparr>)"
    unfolding mcmpChunkedQueueCreate_def Let_def tcmod
    using assms(1,2) granted bytes fits small
    by (cases "tc = 0") (simp_all add: mult.commute [of alignment 8] not_less)
  moreover have "len \<le> tc * alignment" "tc * alignment < len + alignment" using tc assms(1) by linarith+
  ultimately show ?thesis
    using assms(1,2) by (simp add: cq_inv_def ck_wf_def cq_view_def tc_def)
qed

text \<open>
  Creating a queue for \<open>len\<close> items in chunks of \<open>alignment\<close> rounds the length up to whole chunks, and every chunk is
  well-formed and empty; the sizes computed on size_t are the exact ones while \<open>len + alignment\<close> is below \<open>2 ^ 58\<close>.
\<close>

lemma chunked_create:
  assumes "0 < alignment" "len + alignment < 2 ^ 58"
    and "malloc_ok (64 + (len + (alignment - 1)) div alignment * (16 + 8 * alignment))"
  shows "\<exists>cq. mcmpChunkedQueueCreate malloc_ok junk len alignment = Some (Inr cq)
    \<and> cq_length cq = length (cq_chunks cq) * alignment \<and> len \<le> cq_length cq \<and> cq_length cq < len + alignment
    \<and> (\<forall>i < length (cq_chunks cq). cq_inv i cq \<and> cq_view i cq = [])"
  using chunked_created [of alignment len malloc_ok junk] assms by blast

text \<open>
  Even one producer and one consumer are not safe: the push publishes the new head before it copies the item, and a
  take in between returns with success whatever the slot held before, while the push reports success as well.
\<close>

lemma chunk_stale_take:
  "do { (q1, p1) \<leftarrow> run_steps (cq_push_step 0 item) 3
          \<lparr>cq_alignment = 2, cq_length = 2, cq_chunksize = 32,
           cq_chunks = [\<lparr>ck_head = 0, ck_tail = 0, ck_items = [old, old']\<rparr>]\<rparr> (CP_LoadHead 0);
        (q2, p2) \<leftarrow> run_steps (cq_take_step 0) 4 q1 (CT_LoadTail 0);
        (q3, p3) \<leftarrow> cq_push_step 0 item q2 p1;
        Some (cq_push_result p3, cq_take_result p2) }
   = Some (Some MCMPST_SUCCESS, Some (MCMPST_SUCCESS, Some old))"
  by (simp add: cq_chunk_def cq_set_def ring_next_def)

section \<open>Witnesses\<close>

definition sample_chunks :: chunkedqueue where
  "sample_chunks = \<lparr>cq_alignment = 3, cq_length = 6, cq_chunksize = 40,
     cq_chunks = [\<lparr>ck_head = 0, ck_tail = 2, ck_items = [5, 6, 7]\<rparr>, \<lparr>ck_head = 1, ck_tail = 2, ck_items = [10, 20, 30]\<rparr>]\<rparr>"

lemma sample_chunks_ok: "cq_inv 1 sample_chunks" "cq_view 1 sample_chunks = [30, 10]"
  by (simp_all add: cq_inv_def ck_wf_def sample_chunks_def) code_simp

lemma chunk_is_fifo_witness:
  "\<exists>ins outs cq'. fifo_run (mcmpChunkedQueuePush 2 1) (mcmpChunkedQueueTake 2 1) [Push 40, Take, Push 50] sample_chunks
      = Some (ins, outs, cq') \<and> cq_inv 1 cq' \<and> [30, 10] @ ins = outs @ cq_view 1 cq'"
  using chunk_is_fifo [OF sample_chunks_ok(1), of 2 "[Push 40, Take, Push 50]"] by (simp only: sample_chunks_ok(2))

lemma chunk_calls_witness:
  "(\<exists>cq' st. mcmpChunkedQueuePush 0 1 sample_chunks 9 = Some (cq', st) \<and> st = MCMPST_OVERFLOW)
    \<and> (\<exists>cq' r. mcmpChunkedQueueTake 0 1 sample_chunks = Some (cq', MCMPST_SUCCESS, r) \<and> r = Some 30)"
  using chunk_calls [OF sample_chunks_ok(1), of 0 0 9] sample_chunks_ok(2) by (auto simp: sample_chunks_def)

lemma chunked_create_witness:
  "\<exists>cq. mcmpChunkedQueueCreate (\<lambda>bytes. bytes \<le> 4096) (\<lambda>_. 1) 10 4 = Some (Inr cq) \<and> cq_length cq < 14"
  using chunked_create [of 4 10 "\<lambda>bytes. bytes \<le> 4096" "\<lambda>_. 1"] by auto

end
