(* ===== verification/Chunked_Types.thy ===== *)
theory Chunked_Types
  imports Chunked_Queue Typed_Calls
begin

text \<open>
  The chunked queue under any number of threads that push to and take from any of its chunks. The order in a chunk
  is lost (\<open>chunk_stale_take\<close> in \<^verbatim>\<open>Chunked_Queue\<close>), the bounds are not: the judgement keeps the indices of each call inside its chunk.
\<close>

definition chunk_slot :: "chunkedqueue \<Rightarrow> nat \<Rightarrow> bool" where
  "chunk_slot cq k \<longleftrightarrow> k < cq_alignment cq"

definition cq_typed :: "nat \<Rightarrow> chunkedqueue \<Rightarrow> bool" where
  "cq_typed chunks cq \<longleftrightarrow> length (cq_chunks cq) = chunks \<and> 0 < cq_alignment cq \<and> cq_alignment cq < size_max
     \<and> (\<forall>ck \<in> set (cq_chunks cq). ck_wf (cq_alignment cq) ck)"

fun cq_push_typed :: "chunkedqueue \<Rightarrow> cq_push_pc \<Rightarrow> bool" where
  "cq_push_typed cq (CP_LoadHead fails) = True"
| "cq_push_typed cq (CP_LoadTail fails index) = chunk_slot cq index"
| "cq_push_typed cq (CP_Cas fails index nxt) = (chunk_slot cq index \<and> chunk_slot cq nxt)"
| "cq_push_typed cq (CP_Copy index) = chunk_slot cq index"
| "cq_push_typed cq (CP_Done st) = (st = MCMPST_SUCCESS \<or> st = MCMPST_OVERFLOW)"

fun cq_take_typed :: "chunkedqueue \<Rightarrow> cq_take_pc \<Rightarrow> bool" where
  "cq_take_typed cq (CT_LoadTail fails) = True"
| "cq_take_typed cq (CT_LoadHead fails index) = chunk_slot cq index"
| "cq_take_typed cq (CT_Cas fails index nxt) = (chunk_slot cq index \<and> chunk_slot cq nxt)"
| "cq_take_typed cq (CT_Copy index) = chunk_slot cq index"
| "cq_take_typed cq (CT_Done st r) = (st = (case r of None \<Rightarrow> MCMPST_OVERFLOW | Some _ \<Rightarrow> MCMPST_SUCCESS))"

text \<open>A call: the chunk, the item of a push, and the point it is at.\<close>

datatype chunk_pc = Chunk_Push nat nat cq_push_pc | Chunk_Take nat cq_take_pc

fun chunk_step :: "chunkedqueue \<Rightarrow> chunk_pc \<Rightarrow> (chunkedqueue \<times> chunk_pc) ub" where
  "chunk_step cq (Chunk_Push i x p) = do { (cq', p') \<leftarrow> cq_push_step i x cq p; Some (cq', Chunk_Push i x p') }"
| "chunk_step cq (Chunk_Take i p) = do { (cq', p') \<leftarrow> cq_take_step i cq p; Some (cq', Chunk_Take i p') }"

fun chunk_result :: "chunk_pc \<Rightarrow> (mcmpst \<times> nat option) option" where
  "chunk_result (Chunk_Push i x p) = map_option (\<lambda>st. (st, None)) (cq_push_result p)"
| "chunk_result (Chunk_Take i p) = cq_take_result p"

definition chunk_entry :: "nat \<Rightarrow> chunk_pc \<Rightarrow> bool" where
  "chunk_entry chunks c \<longleftrightarrow> (\<exists>i < chunks. \<exists>fails. (\<exists>x. c = Chunk_Push i x (CP_LoadHead fails)) \<or> c = Chunk_Take i (CT_LoadTail fails))"

fun chunk_typed :: "chunkedqueue \<Rightarrow> chunk_pc \<Rightarrow> bool" where
  "chunk_typed cq (Chunk_Push i x p) = (i < length (cq_chunks cq) \<and> cq_push_typed cq p)"
| "chunk_typed cq (Chunk_Take i p) = (i < length (cq_chunks cq) \<and> cq_take_typed cq p)"

definition cq_same :: "chunkedqueue \<Rightarrow> chunkedqueue \<Rightarrow> bool" where
  "cq_same cq cq' \<longleftrightarrow> cq_alignment cq' = cq_alignment cq \<and> length (cq_chunks cq') = length (cq_chunks cq)"

lemma cq_push_typed_same: "cq_same cq cq' \<Longrightarrow> cq_push_typed cq p \<Longrightarrow> cq_push_typed cq' p"
  by (cases p) (auto simp: cq_same_def chunk_slot_def)

lemma cq_take_typed_same: "cq_same cq cq' \<Longrightarrow> cq_take_typed cq p \<Longrightarrow> cq_take_typed cq' p"
  by (cases p) (auto simp: cq_same_def chunk_slot_def)

lemma cq_typed_set:
  assumes "cq_typed chunks cq" "ck_wf (cq_alignment cq) ck"
  shows "cq_typed chunks (cq_set cq i ck)"
  using assms set_update_subset_insert [of "cq_chunks cq" i ck] by (auto simp: cq_typed_def cq_set_def)

lemma chunk_found:
  assumes "cq_typed chunks cq" "i < length (cq_chunks cq)"
  shows "cq_chunk cq i = Some (cq_chunks cq ! i)" "ck_wf (cq_alignment cq) (cq_chunks cq ! i)"
  using assms by (auto simp: cq_chunk_def cq_typed_def)

lemma chunk_room: "cq_typed chunks cq \<Longrightarrow> i < length (cq_chunks cq) \<Longrightarrow> k < cq_alignment cq \<Longrightarrow> k < length (ck_items (cq_chunks cq ! i))"
  using chunk_found(2) [of chunks cq i] by (simp add: ck_wf_def)

lemma cq_push_keeps:
  assumes "cq_typed chunks cq" "i < length (cq_chunks cq)" "cq_push_typed cq p"
  shows "\<exists>cq' p'. cq_push_step i x cq p = Some (cq', p') \<and> cq_typed chunks cq' \<and> cq_same cq cq' \<and> cq_push_typed cq' p'"
  using assms chunk_found [OF assms(1,2)] cq_typed_set [OF assms(1)] chunk_room [OF assms(1,2)]
  by (cases p) (auto simp: cq_same_def chunk_slot_def ck_wf_def ring_next_eq cq_typed_def [of _ cq])

lemma cq_take_keeps:
  assumes "cq_typed chunks cq" "i < length (cq_chunks cq)" "cq_take_typed cq p"
  shows "\<exists>cq' p'. cq_take_step i cq p = Some (cq', p') \<and> cq_typed chunks cq' \<and> cq_same cq cq' \<and> cq_take_typed cq' p'"
  using assms chunk_found [OF assms(1,2)] cq_typed_set [OF assms(1)] chunk_room [OF assms(1,2)]
  by (cases p) (auto simp: cq_same_def chunk_slot_def ck_wf_def ring_next_eq cq_typed_def [of _ cq])

interpretation chunks: typed_calls chunk_step chunk_result "chunk_entry chunks" "cq_typed chunks" chunk_typed cq_same for chunks
proof unfold_locales
  show "\<exists>q' p'. chunk_step q p = Some (q', p') \<and> cq_typed chunks q' \<and> cq_same q q' \<and> chunk_typed q' p'"
    if "cq_typed chunks q" "chunk_typed q p" for q p
  proof (cases p)
    case (Chunk_Push i x c)
    then show ?thesis using cq_push_keeps [OF that(1), of i c x] that(2) by (auto simp: cq_same_def)
  next
    case (Chunk_Take i c)
    then show ?thesis using cq_take_keeps [OF that(1), of i c] that(2) by (auto simp: cq_same_def)
  qed
  show "chunk_typed q' p" if "cq_same q q'" "chunk_typed q p" for q q' p
    using that by (cases p) (auto intro: cq_push_typed_same cq_take_typed_same simp: cq_same_def)
  show "chunk_typed q p" if "chunk_entry chunks p" "cq_typed chunks q" for q p
    using that by (auto simp: chunk_entry_def cq_typed_def)
qed

lemma cq_created_typed:
  assumes "0 < alignment" "len + alignment < 2 ^ 58" "mcmpChunkedQueueCreate malloc_ok junk len alignment = Some (Inr cq)"
    and "malloc_ok (64 + (len + (alignment - 1)) div alignment * (16 + 8 * alignment))"
  shows "cq_typed (length (cq_chunks cq)) cq"
proof -
  have cq: "cq_alignment cq = alignment" "\<forall>i < length (cq_chunks cq). cq_inv i cq"
    using chunked_created [of alignment len malloc_ok junk] assms by auto
  then show ?thesis using assms(1,2) by (auto simp: cq_typed_def in_set_conv_nth cq_inv_def)
qed

text \<open>
  C29: The calls of a chunked queue stay inside their chunks whatever runs beside them: on a queue as created, any number of threads push to and take from any of
  its chunks, their accesses interleaved in any way and their weak compare-and-swaps failing any number of times, and no access is ever
  undefined; a push returns MCMPST_SUCCESS or MCMPST_OVERFLOW, and a take an item with the one or none with the other.
\<close>
theorem chunked_queue_typed:
  assumes "0 < alignment" "len + alignment < 2 ^ 58" "mcmpChunkedQueueCreate malloc_ok junk len alignment = Some (Inr cq)"
    and "malloc_ok (64 + (len + (alignment - 1)) div alignment * (16 + 8 * alignment))"
    and "reachable (cy_init cq) (cy_step chunk_step chunk_result (chunk_entry (length (cq_chunks cq)))) s" "cy_call s i = Some c"
  shows "(\<exists>q c'. chunk_step (cy_state s) c = Some (q, c'))
    \<and> (case chunk_result c of None \<Rightarrow> True
       | Some (st, None) \<Rightarrow> st = MCMPST_OVERFLOW \<or> st = MCMPST_SUCCESS \<and> (\<exists>j x p. c = Chunk_Push j x p)
       | Some (st, Some v) \<Rightarrow> st = MCMPST_SUCCESS)"
proof -
  note typed = chunks.reach_typed [OF cq_created_typed [OF assms(1-4)] assms(5,6)]
  have "case chunk_result c of None \<Rightarrow> True
       | Some (st, None) \<Rightarrow> st = MCMPST_OVERFLOW \<or> st = MCMPST_SUCCESS \<and> (\<exists>j x p. c = Chunk_Push j x p)
       | Some (st, Some v) \<Rightarrow> st = MCMPST_SUCCESS"
  proof (cases c)
    case (Chunk_Push j x p)
    then show ?thesis using typed(2) by (cases p) auto
  next
    case (Chunk_Take j p)
    then show ?thesis using typed(2) by (cases p) (auto split: option.splits)
  qed
  with typed(3) show ?thesis by blast
qed

theorem chunked_queue_typed_witness:
  "\<exists>cq s. mcmpChunkedQueueCreate (\<lambda>_. True) (\<lambda>_. 99) 96 6 = Some (Inr cq)
     \<and> reachable (cy_init cq) (cy_step chunk_step chunk_result (chunk_entry (length (cq_chunks cq)))) s
     \<and> cy_call s 4 = Some (Chunk_Push 15 16 (CP_LoadHead 2))
     \<and> (\<exists>q c'. chunk_step (cy_state s) (Chunk_Push 15 16 (CP_LoadHead 2)) = Some (q, c'))"
proof -
  obtain cq where cq: "mcmpChunkedQueueCreate (\<lambda>_. True) (\<lambda>_. 99) 96 6 = Some (Inr cq)" "length (cq_chunks cq) = 16"
    using chunked_created [of 6 96 "\<lambda>_. True" "\<lambda>_. 99"] by auto
  let ?step = "cy_step chunk_step chunk_result (chunk_entry (length (cq_chunks cq)))"
  let ?p = "Chunk_Push 15 16 (CP_LoadHead 2)"
  let ?s = "\<lparr>cy_state = cq, cy_call = \<lambda>_. None\<rparr>" and ?t = "\<lparr>cy_state = cq, cy_call = (\<lambda>_. None)(4 := Some ?p)\<rparr>"
  have "chunk_entry (length (cq_chunks cq)) ?p" using cq(2) by (simp add: chunk_entry_def)
  then have "?step ?s ?t"
    using cy_move.enter [of ?s 4 "chunk_entry (length (cq_chunks cq))" ?p chunk_step chunk_result]
    by (auto simp: cy_step_def intro!: exI [of _ 4])
  moreover have "reachable (cy_init cq) ?step ?s" by (rule reachable.start) (simp add: cy_init_def)
  ultimately have reach: "reachable (cy_init cq) ?step ?t" by (meson reachable.step)
  then show ?thesis
    using chunked_queue_typed [OF _ _ cq(1) _ reach, of 4 ?p] cq(1) by (intro exI [of _ cq] exI [of _ ?t]) simp
qed

end
