(* ===== verification/Chunked_Runs.thy ===== *)
theory Chunked_Runs
  imports Chunked_Queue
begin

text \<open>
  Sequences of calls on all chunks of a chunked queue. The abstract queue is an array of bounded lists; the calls of
  \<^verbatim>\<open>utilities/src/common/chunkedqueue.c\<close> simulate it, whatever number of spurious failures each call meets. The program
  \<^verbatim>\<open>cli/src/linux/test.c\<close> is such a sequence.
\<close>

section \<open>The abstract queue\<close>

text \<open>A call with the spurious failures it meets, the chunk and the item; its result is its status and what a take copied.\<close>

datatype chunk_call = CPush nat nat nat | CTake nat nat

type_synonym cq_result = "mcmpst \<times> nat option"

fun fifo_call :: "nat \<Rightarrow> chunk_call \<Rightarrow> (nat \<Rightarrow> nat list) \<Rightarrow> (nat \<Rightarrow> nat list) \<times> cq_result" where
  "fifo_call n (CPush fails i x) V =
     (if Suc (length (V i)) < n then (V(i := V i @ [x]), MCMPST_SUCCESS, None) else (V, MCMPST_OVERFLOW, None))"
| "fifo_call n (CTake fails i) V =
     (case V i of [] \<Rightarrow> (V, MCMPST_OVERFLOW, None) | x # xs \<Rightarrow> (V(i := xs), MCMPST_SUCCESS, Some x))"

fun fifo_calls :: "nat \<Rightarrow> chunk_call list \<Rightarrow> (nat \<Rightarrow> nat list) \<Rightarrow> (nat \<Rightarrow> nat list) \<times> cq_result list" where
  "fifo_calls n [] V = (V, [])"
| "fifo_calls n (c # cs) V =
     (let (V', r) = fifo_call n c V; (V'', rs) = fifo_calls n cs V' in (V'', r # rs))"

section \<open>The queue of the code\<close>

fun cq_call :: "chunk_call \<Rightarrow> chunkedqueue \<Rightarrow> (chunkedqueue \<times> cq_result) ub" where
  "cq_call (CPush fails i x) cq = do { (cq', st) \<leftarrow> mcmpChunkedQueuePush fails i cq x; Some (cq', st, None) }"
| "cq_call (CTake fails i) cq = mcmpChunkedQueueTake fails i cq"

fun cq_calls :: "chunk_call list \<Rightarrow> chunkedqueue \<Rightarrow> (chunkedqueue \<times> cq_result list) ub" where
  "cq_calls [] cq = Some (cq, [])"
| "cq_calls (c # cs) cq = do {
     (cq', r) \<leftarrow> cq_call c cq;
     (cq'', rs) \<leftarrow> cq_calls cs cq';
     Some (cq'', r # rs) }"

fun call_chunk :: "chunk_call \<Rightarrow> nat" where
  "call_chunk (CPush fails i x) = i"
| "call_chunk (CTake fails i) = i"

definition cq_ok :: "chunkedqueue \<Rightarrow> bool" where
  "cq_ok cq \<longleftrightarrow> (\<forall>i < length (cq_chunks cq). cq_inv i cq)"

abbreviation cq_views :: "chunkedqueue \<Rightarrow> nat \<Rightarrow> nat list" where
  "cq_views cq \<equiv> (\<lambda>i. cq_view i cq)"

text \<open>The invariant of one chunk speaks of all; it is the same for each.\<close>

lemma cq_inv_any: "cq_inv i cq \<Longrightarrow> cq_ok cq"
  by (simp add: cq_ok_def cq_inv_def)

lemma cq_view_set: "j \<noteq> i \<Longrightarrow> cq_view j (cq_set cq i ck) = cq_view j cq"
  by (simp add: cq_view_def cq_set_def Let_def)

lemma cq_pushed_views:
  "cq_inv i cq \<Longrightarrow> cq_accepts i cq x \<Longrightarrow> cq_views (cq_pushed i cq x) = (cq_views cq)(i := cq_view i cq @ [x])"
  using cq_pushed_ok(2) [of i cq x] by (auto simp: fun_eq_iff cq_pushed_def Let_def cq_view_set)

lemma cq_taken_views:
  "cq_inv i cq \<Longrightarrow> ck_head (cq_chunks cq ! i) \<noteq> ck_tail (cq_chunks cq ! i) \<Longrightarrow>
     cq_views (cq_taken i cq) = (cq_views cq)(i := tl (cq_view i cq))"
  using cq_taken_ok(2) [of i cq] by (auto simp: fun_eq_iff cq_taken_def Let_def cq_view_set)

lemma cq_changed_sizes:
  "length (cq_chunks (cq_pushed i cq x)) = length (cq_chunks cq)" "cq_alignment (cq_pushed i cq x) = cq_alignment cq"
  "length (cq_chunks (cq_taken i cq)) = length (cq_chunks cq)" "cq_alignment (cq_taken i cq) = cq_alignment cq"
  by (simp_all add: cq_pushed_def cq_taken_def Let_def)

lemma cq_call_simulates:
  assumes "cq_ok cq" "call_chunk c < length (cq_chunks cq)" "fifo_call (cq_alignment cq) c (cq_views cq) = (V, r)"
  shows "\<exists>cq'. cq_call c cq = Some (cq', r) \<and> cq_ok cq' \<and> cq_views cq' = V
    \<and> cq_alignment cq' = cq_alignment cq \<and> length (cq_chunks cq') = length (cq_chunks cq)"
proof (cases c)
  case (CPush fails i x)
  then have inv: "cq_inv i cq" using assms(1,2) by (simp add: cq_ok_def)
  show ?thesis
  proof (cases "cq_accepts i cq x")
    case True
    then show ?thesis
      using CPush assms(3) cq_push_runs [OF inv, of fails x] cq_pushed_views [OF inv True]
        cq_inv_any [OF cq_pushed_ok(1) [OF inv True]]
      by (auto simp: cq_accepts_def cq_changed_sizes)
  next
    case False
    then show ?thesis using CPush assms(1,3) cq_push_runs [OF inv, of fails x] by (auto simp: cq_accepts_def)
  qed
next
  case (CTake fails i)
  then have inv: "cq_inv i cq" using assms(1,2) by (simp add: cq_ok_def)
  show ?thesis
  proof (cases "cq_view i cq")
    case Nil
    then show ?thesis
      using CTake assms(1,3) cq_take_runs [OF inv, of fails] cq_view_Nil [OF inv] by (auto simp: Let_def)
  next
    case (Cons x xs)
    then have ne: "ck_head (cq_chunks cq ! i) \<noteq> ck_tail (cq_chunks cq ! i)" using cq_view_Nil [OF inv] by simp
    then show ?thesis
      using CTake Cons assms(3) cq_take_runs [OF inv, of fails] cq_taken_views [OF inv ne] cq_taken_ok(2) [OF inv ne]
        cq_inv_any [OF cq_taken_ok(1) [OF inv ne]]
      by (auto simp: Let_def cq_changed_sizes)
  qed
qed

lemma cq_calls_simulate:
  "cq_ok cq \<Longrightarrow> \<forall>c \<in> set cs. call_chunk c < length (cq_chunks cq) \<Longrightarrow> fifo_calls (cq_alignment cq) cs (cq_views cq) = (V, rs) \<Longrightarrow>
     \<exists>cq'. cq_calls cs cq = Some (cq', rs) \<and> cq_ok cq' \<and> cq_views cq' = V"
proof (induction cs arbitrary: cq V rs)
  case (Cons c cs)
  obtain V1 r where first: "fifo_call (cq_alignment cq) c (cq_views cq) = (V1, r)" by (rule prod.exhaust)
  obtain cq1 where cq1: "cq_call c cq = Some (cq1, r)" "cq_ok cq1" "cq_views cq1 = V1"
      "cq_alignment cq1 = cq_alignment cq" "length (cq_chunks cq1) = length (cq_chunks cq)"
    using cq_call_simulates [OF Cons.prems(1) _ first] Cons.prems(2) by auto
  obtain rs1 where rest: "fifo_calls (cq_alignment cq1) cs (cq_views cq1) = (V, rs1)" "rs = r # rs1"
    using Cons.prems(3) first cq1(3,4) by (auto simp: Let_def split: prod.splits)
  show ?case using Cons.IH [OF cq1(2) _ rest(1)] Cons.prems(2) cq1(1,5) rest(2) by auto
qed simp

section \<open>Properties\<close>

text \<open>
  C11: The chunked queue refines an array of bounded first-in first-out lists: any sequence of pushes and takes on any of its chunks, each with any number of spurious failures of its
  weak compare-and-swap, is defined, and gives the statuses and the items that the lists give, each chunk on its own; a chunk holds one item less than its
  length.
\<close>
theorem chunks_refine_fifos:
  assumes "cq_ok cq" "\<forall>c \<in> set cs. call_chunk c < length (cq_chunks cq)"
  shows "\<exists>cq' rs. cq_calls cs cq = Some (cq', rs) \<and> cq_ok cq'
    \<and> fifo_calls (cq_alignment cq) cs (cq_views cq) = (cq_views cq', rs)"
  using cq_calls_simulate [OF assms] by (metis prod.collapse)

text \<open>The number of the chunk is not checked.\<close>

lemma chunk_out_of_range: "length (cq_chunks cq) \<le> i \<Longrightarrow> cq_call (CPush fails i x) cq = None \<and> cq_call (CTake fails i) cq = None"
  by (simp add: mcmpChunkedQueuePush_def mcmpChunkedQueueTake_def run_call.simps cq_chunk_def)

theorem chunks_refine_fifos_witness:
  "\<exists>cq' rs. cq_calls [CTake 3 1, CPush 0 0 8, CPush 2 0 9, CPush 1 1 40] sample_chunks = Some (cq', rs)
     \<and> rs = [(MCMPST_SUCCESS, Some 30), (MCMPST_SUCCESS, None), (MCMPST_OVERFLOW, None), (MCMPST_SUCCESS, None)]
     \<and> cq_view 0 cq' = [7, 8] \<and> cq_view 1 cq' = [10, 40]"
proof -
  let ?cs = "[CTake 3 1, CPush 0 0 8, CPush 2 0 9, CPush 1 1 40]"
  have ok: "cq_ok sample_chunks" by (rule cq_inv_any [OF sample_chunks_ok(1)])
  have "cq_view 0 sample_chunks = [7]" by code_simp
  then have "fst (fifo_calls 3 ?cs (cq_views sample_chunks)) 0 = [7, 8]" "fst (fifo_calls 3 ?cs (cq_views sample_chunks)) 1 = [10, 40]"
      "snd (fifo_calls 3 ?cs (cq_views sample_chunks))
        = [(MCMPST_SUCCESS, Some 30), (MCMPST_SUCCESS, None), (MCMPST_OVERFLOW, None), (MCMPST_SUCCESS, None)]"
    using sample_chunks_ok(2) by simp_all
  moreover have "cq_alignment sample_chunks = 3" "length (cq_chunks sample_chunks) = 2" by (simp_all add: sample_chunks_def)
  ultimately show ?thesis
    using chunks_refine_fifos [OF ok, of ?cs] by fastforce
qed

section \<open>The test program\<close>

text \<open>
  The calls of \<^verbatim>\<open>main\<close> in \<^verbatim>\<open>cli/src/linux/test.c\<close>, each with any number of spurious failures; a queue that could not be
  created is a null pointer that the first call goes through.
\<close>

definition test_calls :: "(nat \<Rightarrow> nat) \<Rightarrow> chunk_call list" where
  "test_calls fails = [CPush (fails 0) 0 2, CPush (fails 1) 0 5, CPush (fails 2) 1 4, CPush (fails 3) 1 10, CPush (fails 4) 15 16,
     CTake (fails 5) 0, CTake (fails 6) 0, CTake (fails 7) 1, CTake (fails 8) 1, CTake (fails 9) 15, CTake (fails 10) 1, CTake (fails 11) 1]"

definition test_main :: "(nat \<Rightarrow> bool) \<Rightarrow> (nat \<Rightarrow> nat) \<Rightarrow> (nat \<Rightarrow> nat) \<Rightarrow> cq_result list ub" where
  "test_main malloc_ok junk fails = do {
     r \<leftarrow> mcmpChunkedQueueCreate malloc_ok junk 96 6;
     (case r of Inl _ \<Rightarrow> None | Inr cq \<Rightarrow> do { (_, rs) \<leftarrow> cq_calls (test_calls fails) cq; Some rs }) }"

text \<open>
  The test program of the chunked queue prints what it is meant to, whatever the fresh memory holds and however often the weak compare-and-swaps fail: the
  values 2, 5, 4, 10 and 16 come out of the chunks that they went into, and the two takes from a chunk that has been emptied report MCMPST_OVERFLOW.
\<close>
lemma test_program_output:
  assumes "malloc_ok 1088"
  shows "\<exists>pushes. test_main malloc_ok junk fails = Some (pushes
     @ [(MCMPST_SUCCESS, Some 2), (MCMPST_SUCCESS, Some 5), (MCMPST_SUCCESS, Some 4), (MCMPST_SUCCESS, Some 10),
        (MCMPST_SUCCESS, Some 16), (MCMPST_OVERFLOW, None), (MCMPST_OVERFLOW, None)]) \<and> pushes = replicate 5 (MCMPST_SUCCESS, None)"
proof -
  obtain cq where cq: "mcmpChunkedQueueCreate malloc_ok junk 96 6 = Some (Inr cq)" "cq_alignment cq = 6" "length (cq_chunks cq) = 16"
      "cq_ok cq" "cq_views cq = (\<lambda>i. if i < 16 then [] else cq_view i cq)"
    using chunked_created [of 6 96 malloc_ok junk] assms by (auto simp: cq_ok_def fun_eq_iff)
  have "\<forall>c \<in> set (test_calls fails). call_chunk c < length (cq_chunks cq)" using cq(3) by (simp add: test_calls_def)
  moreover have "\<exists>V. fifo_calls 6 (test_calls fails) (cq_views cq) = (V, replicate 5 (MCMPST_SUCCESS, None)
      @ [(MCMPST_SUCCESS, Some 2), (MCMPST_SUCCESS, Some 5), (MCMPST_SUCCESS, Some 4), (MCMPST_SUCCESS, Some 10),
        (MCMPST_SUCCESS, Some 16), (MCMPST_OVERFLOW, None), (MCMPST_OVERFLOW, None)])"
    by (subst cq(5)) (simp add: test_calls_def numeral_eq_Suc)
  ultimately show ?thesis
    using cq_calls_simulate [OF cq(4), of "test_calls fails"] cq(1,2) by (auto simp: test_main_def)
qed

lemma test_program_output_witness:
  "\<exists>rs. test_main (\<lambda>_. True) (\<lambda>_. 77) (\<lambda>i. i mod 3) = Some rs \<and> length rs = 12"
  using test_program_output [of "\<lambda>_. True" "\<lambda>_. 77" "\<lambda>i. i mod 3"] by auto

end
