(* ===== verification/Slot_Array.thy ===== *)
theory Slot_Array
  imports Atomic_Bitmap
begin

text \<open>
  The contract between the bitmaps and the components that hand out numbered slots through them:
  the lock registry, the monitor table and the two client tables all search the first clear bit,
  use the slot of that number and set the bit, and clear it to give the slot back. The locale
  states what they rely on; its lemmas are proved once; both bitmap implementations provide it.
\<close>

locale slot_array =
  fixes wf :: "'b \<Rightarrow> bool"
    and slots :: "'b \<Rightarrow> nat"
    and taken :: "'b \<Rightarrow> nat \<Rightarrow> bool"
    and next_free :: "'b \<Rightarrow> nat option"
    and mark :: "'b \<Rightarrow> nat \<Rightarrow> 'b"
    and unmark :: "'b \<Rightarrow> nat \<Rightarrow> 'b"
  assumes next_free_Some: "wf b \<Longrightarrow> next_free b = Some k \<Longrightarrow>
      k < slots b \<and> \<not> taken b k \<and> (\<forall>j < k. taken b j)"
    and next_free_None: "wf b \<Longrightarrow> next_free b = None \<Longrightarrow> j < slots b \<Longrightarrow> taken b j"
    and taken_mark: "wf b \<Longrightarrow> k < slots b \<Longrightarrow> taken (mark b k) j \<longleftrightarrow> taken b j \<or> j = k"
    and taken_unmark: "wf b \<Longrightarrow> k < slots b \<Longrightarrow> taken (unmark b k) j \<longleftrightarrow> taken b j \<and> j \<noteq> k"
    and wf_mark: "wf b \<Longrightarrow> k < slots b \<Longrightarrow> wf (mark b k) \<and> slots (mark b k) = slots b"
    and wf_unmark: "wf b \<Longrightarrow> k < slots b \<Longrightarrow> wf (unmark b k) \<and> slots (unmark b k) = slots b"
begin

definition used :: "'b \<Rightarrow> nat set" where
  "used b = {k. k < slots b \<and> taken b k}"

definition acquire :: "'b \<Rightarrow> (nat \<times> 'b) option" where
  "acquire b = map_option (\<lambda>k. (k, mark b k)) (next_free b)"

lemma finite_used: "finite (used b)"
  by (simp add: used_def)

lemma used_bound: "card (used b) \<le> slots b"
  using card_mono [of "{..<slots b}" "used b"] by (auto simp: used_def)

lemma acquire_Some:
  assumes "wf b" "acquire b = Some (k, b')"
  shows "k < slots b" "k \<notin> used b" "used b' = insert k (used b)" "wf b'" "slots b' = slots b"
    "\<forall>j < k. j \<in> used b"
proof -
  from assms have k: "next_free b = Some k" and b': "b' = mark b k"
    by (auto simp: acquire_def)
  note free = next_free_Some [OF assms(1) k]
  then show "k < slots b" "k \<notin> used b" "\<forall>j < k. j \<in> used b" by (auto simp: used_def)
  show wf': "wf b'" "slots b' = slots b" using free wf_mark [OF assms(1)] b' by auto
  show "used b' = insert k (used b)"
    using free wf' taken_mark [OF assms(1)] b' by (auto simp: used_def)
qed

lemma acquire_card: "wf b \<Longrightarrow> acquire b = Some (k, b') \<Longrightarrow> card (used b') = Suc (card (used b))"
  using acquire_Some [of b k b'] by (simp add: finite_used)

lemma acquire_None_iff: "wf b \<Longrightarrow> acquire b = None \<longleftrightarrow> used b = {..<slots b}"
proof (cases "next_free b")
  case None
  then show "wf b \<Longrightarrow> ?thesis" using next_free_None [of b] by (auto simp: acquire_def used_def)
next
  case (Some k)
  then show "wf b \<Longrightarrow> ?thesis" using next_free_Some [of b k] by (auto simp: acquire_def used_def)
qed

lemma acquire_full: "wf b \<Longrightarrow> acquire b = None \<longleftrightarrow> card (used b) = slots b"
proof -
  assume "wf b"
  have sub: "used b \<subseteq> {..<slots b}" by (auto simp: used_def)
  have "used b = {..<slots b} \<longleftrightarrow> card (used b) = slots b"
    using card_subset_eq [OF finite_lessThan sub] by (metis card_lessThan)
  then show ?thesis using acquire_None_iff [OF \<open>wf b\<close>] by simp
qed

lemma used_unmark: "wf b \<Longrightarrow> k < slots b \<Longrightarrow> used (unmark b k) = used b - {k}"
  using wf_unmark [of b k] taken_unmark [of b k] by (auto simp: used_def)

lemma acquire_release: "wf b \<Longrightarrow> acquire b = Some (k, b') \<Longrightarrow> used (unmark b' k) = used b"
  using acquire_Some [of b k b'] by (auto simp: used_unmark)

end

section \<open>The plain bitmap provides slots\<close>

definition bm_wf :: "byte list \<Rightarrow> bool" where
  "bm_wf bm \<longleftrightarrow> 8 * length bm \<le> 2 ^ 63"

definition idx_option :: "bitidx ub \<Rightarrow> nat option" where
  "idx_option r = (case r of Some x \<Rightarrow> if x = -1 then None else Some (nat x) | None \<Rightarrow> None)"

definition bm_next_free :: "byte list \<Rightarrow> nat option" where
  "bm_next_free bm = idx_option (mcmpBitmapNextAvaibleBit bm 0 (length bm))"

definition bm_mark :: "byte list \<Rightarrow> nat \<Rightarrow> byte list" where
  "bm_mark bm k = the (mcmpBitmapEnableBit bm (int k))"

definition bm_unmark :: "byte list \<Rightarrow> nat \<Rightarrow> byte list" where
  "bm_unmark bm k = the (mcmpBitmapDisableBit bm (int k))"

lemma next_available_0:
  "bm_wf bm \<Longrightarrow> mcmpBitmapNextAvaibleBit bm 0 (length bm) = Some (next_bit_spec Not bm 0 (length bm))"
  using next_available_ok [of "length bm" bm 0] by (simp add: bm_wf_def)

lemma idx_option_first:
  "idx_option (Some (first_hit P 0 n)) = find P [0..<8 * n]"
  by (simp add: idx_option_def first_hit_def split: option.splits)

lemma idx_option_hit:
  "idx_option (Some (next_bit_spec Not bm 0 n)) = Some k \<Longrightarrow>
     k < 8 * n \<and> \<not> bm_bit bm k \<and> (\<forall>j < k. bm_bit bm j)"
  by (simp add: next_bit_spec_def idx_option_first find_upt_Some)

lemma idx_option_miss:
  "idx_option (Some (next_bit_spec Not bm 0 n)) = None \<Longrightarrow> j < 8 * n \<Longrightarrow> bm_bit bm j"
  by (simp add: next_bit_spec_def idx_option_first find_upt_None)

lemma next_available_slot:
  "bm_wf bm \<Longrightarrow> mcmpBitmapNextAvaibleBit bm 0 (length bm) =
     Some (case bm_next_free bm of None \<Rightarrow> -1 | Some k \<Rightarrow> int k)"
  using next_available_0 [of bm]
  by (auto simp: bm_next_free_def idx_option_def next_bit_spec_def first_hit_def split: option.splits)

lemma bm_mark_bits:
  assumes "k < 8 * length bm"
  shows "length (bm_mark bm k) = length bm" "bm_bit (bm_mark bm k) j \<longleftrightarrow> bm_bit bm j \<or> j = k"
proof -
  obtain bm' where "mcmpBitmapEnableBit bm (int k) = Some bm'" "length bm' = length bm"
      "\<forall>j. bm_bit bm' j \<longleftrightarrow> bm_bit bm j \<or> j = k"
    using enable_bit [OF assms] by blast
  then show "length (bm_mark bm k) = length bm" "bm_bit (bm_mark bm k) j \<longleftrightarrow> bm_bit bm j \<or> j = k"
    by (simp_all add: bm_mark_def)
qed

lemma bm_unmark_bits:
  assumes "k < 8 * length bm"
  shows "length (bm_unmark bm k) = length bm" "bm_bit (bm_unmark bm k) j \<longleftrightarrow> bm_bit bm j \<and> j \<noteq> k"
proof -
  obtain bm' where "mcmpBitmapDisableBit bm (int k) = Some bm'" "length bm' = length bm"
      "\<forall>j. bm_bit bm' j \<longleftrightarrow> bm_bit bm j \<and> j \<noteq> k"
    using disable_bit [OF assms] by blast
  then show "length (bm_unmark bm k) = length bm" "bm_bit (bm_unmark bm k) j \<longleftrightarrow> bm_bit bm j \<and> j \<noteq> k"
    by (simp_all add: bm_unmark_def)
qed

interpretation plain_slots: slot_array bm_wf "\<lambda>bm. 8 * length bm" bm_bit bm_next_free bm_mark bm_unmark
proof
  fix b :: "byte list" and k j :: nat
  assume wf: "bm_wf b"
  show "bm_next_free b = Some k \<Longrightarrow> k < 8 * length b \<and> \<not> bm_bit b k \<and> (\<forall>j < k. bm_bit b j)"
    using idx_option_hit [of b "length b" k] by (simp add: bm_next_free_def next_available_0 [OF wf])
  show "bm_next_free b = None \<Longrightarrow> j < 8 * length b \<Longrightarrow> bm_bit b j"
    using idx_option_miss [of b "length b" j] by (simp add: bm_next_free_def next_available_0 [OF wf])
  assume k: "k < 8 * length b"
  show "bm_bit (bm_mark b k) j \<longleftrightarrow> bm_bit b j \<or> j = k"
    by (rule bm_mark_bits(2) [OF k])
  show "bm_bit (bm_unmark b k) j \<longleftrightarrow> bm_bit b j \<and> j \<noteq> k"
    by (rule bm_unmark_bits(2) [OF k])
  show "bm_wf (bm_mark b k) \<and> 8 * length (bm_mark b k) = 8 * length b"
    using bm_mark_bits(1) [OF k] wf by (simp add: bm_wf_def)
  show "bm_wf (bm_unmark b k) \<and> 8 * length (bm_unmark b k) = 8 * length b"
    using bm_unmark_bits(1) [OF k] wf by (simp add: bm_wf_def)
qed

section \<open>The atomic bitmap provides the same slots\<close>

definition abm_next_free :: "byte list \<Rightarrow> nat option" where
  "abm_next_free bm = idx_option (mcmpAtomicBitmapNextAvaibleBit (\<lambda>_. bm) 0 (length bm))"

definition abm_mark :: "byte list \<Rightarrow> nat \<Rightarrow> byte list" where
  "abm_mark bm k = fst (the (mcmpAtomicBitmapTryEnableBit bm (int k)))"

definition abm_unmark :: "byte list \<Rightarrow> nat \<Rightarrow> byte list" where
  "abm_unmark bm k = fst (the (mcmpAtomicBitmapTryDisableBit bm (int k)))"

lemma atomic_next_available_0:
  "bm_wf bm \<Longrightarrow>
     mcmpAtomicBitmapNextAvaibleBit (\<lambda>_. bm) 0 (length bm) = Some (next_bit_spec Not bm 0 (length bm))"
  using atomic_next_available_alone [of "length bm" bm 0] by (simp add: bm_wf_def)

lemma abm_mark_bits:
  assumes "k < 8 * length bm"
  shows "length (abm_mark bm k) = length bm" "bm_bit (abm_mark bm k) j \<longleftrightarrow> bm_bit bm j \<or> j = k"
proof -
  obtain bm' st where "mcmpAtomicBitmapTryEnableBit bm (int k) = Some (bm', st)" "length bm' = length bm"
      "\<forall>j. bm_bit bm' j \<longleftrightarrow> bm_bit bm j \<or> j = k"
    using try_enable_ok [OF assms] by blast
  then show "length (abm_mark bm k) = length bm" "bm_bit (abm_mark bm k) j \<longleftrightarrow> bm_bit bm j \<or> j = k"
    by (simp_all add: abm_mark_def)
qed

lemma abm_unmark_bits:
  assumes "k < 8 * length bm"
  shows "length (abm_unmark bm k) = length bm" "bm_bit (abm_unmark bm k) j \<longleftrightarrow> bm_bit bm j \<and> j \<noteq> k"
proof -
  obtain bm' st where "mcmpAtomicBitmapTryDisableBit bm (int k) = Some (bm', st)" "length bm' = length bm"
      "\<forall>j. bm_bit bm' j \<longleftrightarrow> bm_bit bm j \<and> j \<noteq> k"
    using try_disable_ok [OF assms] by blast
  then show "length (abm_unmark bm k) = length bm" "bm_bit (abm_unmark bm k) j \<longleftrightarrow> bm_bit bm j \<and> j \<noteq> k"
    by (simp_all add: abm_unmark_def)
qed

interpretation atomic_slots: slot_array bm_wf "\<lambda>bm. 8 * length bm" bm_bit abm_next_free abm_mark abm_unmark
proof
  fix b :: "byte list" and k j :: nat
  assume wf: "bm_wf b"
  show "abm_next_free b = Some k \<Longrightarrow> k < 8 * length b \<and> \<not> bm_bit b k \<and> (\<forall>j < k. bm_bit b j)"
    using idx_option_hit [of b "length b" k] by (simp add: abm_next_free_def atomic_next_available_0 [OF wf])
  show "abm_next_free b = None \<Longrightarrow> j < 8 * length b \<Longrightarrow> bm_bit b j"
    using idx_option_miss [of b "length b" j] by (simp add: abm_next_free_def atomic_next_available_0 [OF wf])
  assume k: "k < 8 * length b"
  show "bm_bit (abm_mark b k) j \<longleftrightarrow> bm_bit b j \<or> j = k"
    by (rule abm_mark_bits(2) [OF k])
  show "bm_bit (abm_unmark b k) j \<longleftrightarrow> bm_bit b j \<and> j \<noteq> k"
    by (rule abm_unmark_bits(2) [OF k])
  show "bm_wf (abm_mark b k) \<and> 8 * length (abm_mark b k) = 8 * length b"
    using abm_mark_bits(1) [OF k] wf by (simp add: bm_wf_def)
  show "bm_wf (abm_unmark b k) \<and> 8 * length (abm_unmark b k) = 8 * length b"
    using abm_unmark_bits(1) [OF k] wf by (simp add: bm_wf_def)
qed

text \<open>Both implementations choose the same slot.\<close>

lemma same_slot: "bm_wf bm \<Longrightarrow> abm_next_free bm = bm_next_free bm"
  by (simp add: abm_next_free_def bm_next_free_def atomic_next_available_0 next_available_0)

end
