(* ===== verification/Lock_Registry.thy ===== *)
theory Lock_Registry
  imports Slot_Array
begin

text \<open>
  The lock registry of \<^verbatim>\<open>routines/src/linux/lock.c\<close>: 64 mutexes in a page-sized static array and a
  bitmap of eight bytes that tells which are handed out. A lock is the address of its mutex, here the
  byte offset in the array. The model keeps whether a slot's mutex was initialised; which thread owns the
  mutex at an address is a map.
\<close>

definition registries_size :: nat where
  "registries_size = 4096 div 64"

definition slots_size :: nat where
  "slots_size = registries_size div 8"

record lockreg =
  lr_slots :: "byte list"
  lr_ready :: "bool list"

section \<open>Creation\<close>

text \<open>
  One attempt of the creation loop reads the bitmap many times while other threads change it. A sight
  of an attempt is the history that its search reads, the bitmap when it loads the slot's byte and the
  bitmap when it swaps that byte.
\<close>

type_synonym sight = "history \<times> byte list \<times> byte list"

function lock_create_loop :: "(nat \<Rightarrow> sight) \<Rightarrow> nat \<Rightarrow> (mcmpst \<times> (bitidx \<times> byte list) option) ub" where
  "lock_create_loop env tries =
     (if tries < 100 then
        case env tries of (h, b1, b2) \<Rightarrow> do {
          slot \<leftarrow> mcmpAtomicBitmapNextAvaibleBit h 0 slots_size;
          (if slot = -1 then Some (MCMPST_OVERFLOW, None)
           else do {
             (_, p) \<leftarrow> try_enable_step b1 (BLoad slot);
             (b, p') \<leftarrow> try_enable_step b2 p;
             (if bitop_result p' = Some MCMPST_SUCCESS then Some (MCMPST_SUCCESS, Some (slot, b))
              else lock_create_loop env (tries + 1)) }) }
      else Some (MCMPST_OVERFLOW, None))"
  by pat_completeness auto
termination by (relation "measure (\<lambda>(env, tries). 100 - tries)") auto

declare lock_create_loop.simps [simp del]

text \<open>Without interference; the registry argument must be NULL. The address of a slot is 64 times its index.\<close>

definition mcmchLockCreate :: "lockreg \<Rightarrow> bool \<Rightarrow> (lockreg \<times> mcmpst \<times> int option) ub" where
  "mcmchLockCreate st reg_null =
     (if \<not> reg_null then Some (st, MCMPST_NOT_IMPLEMENTED, None)
      else do {
        (status, got) \<leftarrow> lock_create_loop (\<lambda>_. (\<lambda>_. lr_slots st, lr_slots st, lr_slots st)) 0;
        (case got of
           None \<Rightarrow> Some (st, status, None)
         | Some (slot, b) \<Rightarrow> Some (st\<lparr>lr_slots := b, lr_ready := (lr_ready st)[nat slot := True]\<rparr>, status, Some (64 * slot))) })"

text \<open>
  Destruction computes the slot as \<^verbatim>\<open>registries - lock\<close>, with the operands the wrong way round. An
  address inside the array that is not that of a mutex makes the difference undefined.
\<close>

definition mcmchLockDestroy :: "lockreg \<Rightarrow> int \<Rightarrow> (lockreg \<times> mcmpst) ub" where
  "mcmchLockDestroy st lock =
     (if \<not> (0 \<le> lock \<and> lock < 64 * int registries_size) then Some (st, MCMPST_NOT_IMPLEMENTED)
      else if lock mod 64 \<noteq> 0 then None
      else do {
        let slot = 0 - lock div 64;
        slots \<leftarrow> mcmpBitmapDisableBit (lr_slots st) slot;
        Some (st\<lparr>lr_slots := slots, lr_ready := (lr_ready st)[nat (lock div 64) := False]\<rparr>, MCMPST_SUCCESS) })"

text \<open>
  A default mutex: \<open>None\<close> when the calling thread \<open>t\<close> cannot go on, because a thread owns the mutex, or itself does; releasing
  a mutex that another thread owns, or none, is undefined.
\<close>

definition mcmchLockAcquire :: "nat \<Rightarrow> int \<Rightarrow> (int \<rightharpoonup> nat) \<Rightarrow> ((int \<rightharpoonup> nat) \<times> mcmpst) option" where
  "mcmchLockAcquire t lock owners =
     (if owners lock = None then Some (owners(lock \<mapsto> t), MCMPST_SUCCESS) else None)"

definition mcmchLockRelease :: "nat \<Rightarrow> int \<Rightarrow> (int \<rightharpoonup> nat) \<Rightarrow> ((int \<rightharpoonup> nat) \<times> mcmpst) ub" where
  "mcmchLockRelease t lock owners =
     (if owners lock = Some t then Some (owners(lock := None), MCMPST_SUCCESS) else None)"

definition lr_wf :: "lockreg \<Rightarrow> bool" where
  "lr_wf st \<longleftrightarrow> length (lr_slots st) = slots_size \<and> length (lr_ready st) = registries_size"

lemma sizes [simp]: "slots_size = 8" "registries_size = 64"
  by (simp_all add: slots_size_def registries_size_def)

lemma lr_wf_bm: "lr_wf st \<Longrightarrow> bm_wf (lr_slots st)"
  by (simp add: lr_wf_def bm_wf_def)

section \<open>Creation against the slot contract\<close>

lemma next_slot:
  assumes "lr_wf st"
  shows "mcmpAtomicBitmapNextAvaibleBit (\<lambda>_. lr_slots st) 0 8 =
     Some (case abm_next_free (lr_slots st) of None \<Rightarrow> -1 | Some k \<Rightarrow> int k)"
  using atomic_next_available_0 [OF lr_wf_bm [OF assms]] assms
  by (auto simp: abm_next_free_def lr_wf_def idx_option_def next_bit_spec_def first_hit_def split: option.splits)

lemma lock_create_runs:
  assumes "lr_wf st"
  shows "mcmchLockCreate st True =
     (case atomic_slots.acquire (lr_slots st) of
        None \<Rightarrow> Some (st, MCMPST_OVERFLOW, None)
      | Some (k, b) \<Rightarrow> Some (st\<lparr>lr_slots := b, lr_ready := (lr_ready st)[k := True]\<rparr>, MCMPST_SUCCESS, Some (64 * int k)))"
proof (cases "abm_next_free (lr_slots st)")
  case None
  then show ?thesis
    using next_slot [OF assms]
    by (simp add: mcmchLockCreate_def lock_create_loop.simps atomic_slots.acquire_def)
next
  case (Some k)
  then have k: "k < 8 * length (lr_slots st)" and free: "\<not> bm_bit (lr_slots st) k"
    using atomic_slots.next_free_Some [OF lr_wf_bm [OF assms] Some] by auto
  have steps: "try_enable_step (lr_slots st) (BLoad (int k)) = Some (lr_slots st, BCas (int k) (lr_slots st ! (k div 8)))"
    "try_enable_step (lr_slots st) (BCas (int k) (lr_slots st ! (k div 8)))
       = Some ((lr_slots st)[k div 8 := lr_slots st ! (k div 8) OR 2 ^ (k mod 8)], BDone MCMPST_SUCCESS)"
    using try_enable_steps [OF k] free by (simp_all del: try_enable_step.simps)
  have "abm_mark (lr_slots st) k = (lr_slots st)[k div 8 := lr_slots st ! (k div 8) OR 2 ^ (k mod 8)]"
    using steps by (simp add: abm_mark_def mcmpAtomicBitmapTryEnableBit_def
        run_call.simps [of try_enable_step] del: try_enable_step.simps)
  then show ?thesis
    using next_slot [OF assms] Some steps
    by (simp add: mcmchLockCreate_def lock_create_loop.simps atomic_slots.acquire_def del: try_enable_step.simps)
qed

text \<open>
  Without interference a creation hands out the first slot that is not in use, marks it and initialises its mutex,
  and reports MCMPST_OVERFLOW and changes nothing exactly when all 64 slots are in use.
\<close>

lemma lock_create:
  assumes "lr_wf st"
  shows "if card (atomic_slots.used (lr_slots st)) = 64 then mcmchLockCreate st True = Some (st, MCMPST_OVERFLOW, None)
     else \<exists>k st'. mcmchLockCreate st True = Some (st', MCMPST_SUCCESS, Some (64 * int k)) \<and> lr_wf st' \<and> k < 64
       \<and> k \<notin> atomic_slots.used (lr_slots st) \<and> atomic_slots.used (lr_slots st') = insert k (atomic_slots.used (lr_slots st))
       \<and> (\<forall>j < k. j \<in> atomic_slots.used (lr_slots st)) \<and> lr_ready st' = (lr_ready st)[k := True]"
proof (cases "atomic_slots.acquire (lr_slots st)")
  case None
  then show ?thesis
    using atomic_slots.acquire_full [OF lr_wf_bm [OF assms]] assms lock_create_runs [OF assms]
    by (simp add: lr_wf_def)
next
  case (Some kb)
  then obtain k b where acq: "atomic_slots.acquire (lr_slots st) = Some (k, b)" by (cases kb) auto
  note got = atomic_slots.acquire_Some [OF lr_wf_bm [OF assms] acq]
  have "card (atomic_slots.used (lr_slots st)) \<noteq> 64"
    using atomic_slots.acquire_full [OF lr_wf_bm [OF assms]] acq assms by (simp add: lr_wf_def)
  moreover have "mcmchLockCreate st True
      = Some (st\<lparr>lr_slots := b, lr_ready := (lr_ready st)[k := True]\<rparr>, MCMPST_SUCCESS, Some (64 * int k))"
    using lock_create_runs [OF assms] acq by simp
  ultimately show ?thesis using got assms by (auto simp: lr_wf_def)
qed

text \<open>
  Two locks created one after the other are two mutexes: with the first held by one thread, another thread can acquire and release the
  second, which leaves the first as it was, and cannot acquire the first.
\<close>

lemma locks_are_separate:
  assumes "lr_wf st" "mcmchLockCreate st True = Some (st1, MCMPST_SUCCESS, Some l1)" "mcmchLockCreate st1 True = Some (st2, MCMPST_SUCCESS, Some l2)"
    and "owners l2 = None" "mcmchLockAcquire t1 l1 owners = Some (held, MCMPST_SUCCESS)" "t1 \<noteq> t2"
  shows "\<exists>both. mcmchLockAcquire t2 l2 held = Some (both, MCMPST_SUCCESS) \<and> mcmchLockRelease t2 l2 both = Some (held, MCMPST_SUCCESS)
    \<and> mcmchLockAcquire t2 l1 both = None \<and> mcmchLockRelease t2 l1 both = None"
proof -
  have "card (atomic_slots.used (lr_slots st)) \<noteq> 64" using lock_create [OF assms(1)] assms(2) by auto
  then obtain k1 where k1: "l1 = 64 * int k1" "lr_wf st1" "k1 \<in> atomic_slots.used (lr_slots st1)"
    using lock_create [OF assms(1)] assms(2) by auto
  have "card (atomic_slots.used (lr_slots st1)) \<noteq> 64" using lock_create [OF k1(2)] assms(3) by auto
  then obtain k2 where "l2 = 64 * int k2" "k2 \<notin> atomic_slots.used (lr_slots st1)" using lock_create [OF k1(2)] assms(3) by auto
  then have "l1 \<noteq> l2" using k1 by auto
  then show ?thesis using assms(4-6) by (auto simp: mcmchLockAcquire_def mcmchLockRelease_def split: if_splits)
qed

section \<open>Creation under interference\<close>

lemma attempt_cases:
  assumes len: "length b1 = 8" "length b2 = 8" and k: "k < 64"
    and s1: "try_enable_step b1 (BLoad (int k)) = Some (b1', p)" and s2: "try_enable_step b2 p = Some (b, p')"
    and ok: "bitop_result p' = Some MCMPST_SUCCESS"
  shows "\<not> bm_bit b2 k \<and> length b = 8 \<and> (\<forall>j. bm_bit b j \<longleftrightarrow> bm_bit b2 j \<or> j = k)"
proof -
  have k1: "k < 8 * length b1" and k2: "k < 8 * length b2" using len k by simp_all
  have p: "p = (if bm_bit b1 k then BDone MCMPST_ALROP else BCas (int k) (b1 ! (k div 8)))"
    using s1 try_enable_steps(1) [OF k1] by (auto simp del: try_enable_step.simps)
  then have free: "\<not> bm_bit b1 k" using s2 ok by auto
  with p s2 ok have same: "b2 ! (k div 8) = b1 ! (k div 8)"
    and b: "b = b2[k div 8 := b2 ! (k div 8) OR 2 ^ (k mod 8)]"
    using try_enable_steps(2) [OF k2, of "b1 ! (k div 8)"] by (auto simp del: try_enable_step.simps split: if_splits)
  then show ?thesis using free bm_bit_enabled [OF k2] len by (simp add: bm_bit_def)
qed

lemma lock_loop_ok:
  assumes "\<And>n t. length (fst (env n) t) = 8" "\<And>n. length (fst (snd (env n))) = 8" "\<And>n. length (snd (snd (env n))) = 8"
  shows "\<exists>status got. lock_create_loop env tries = Some (status, got) \<and>
     (case got of None \<Rightarrow> status = MCMPST_OVERFLOW
      | Some (slot, b) \<Rightarrow> status = MCMPST_SUCCESS \<and> 0 \<le> slot \<and> slot < 64 \<and> length b = 8
          \<and> (\<exists>n < 100. \<not> bm_bit (snd (snd (env n))) (nat slot)
               \<and> (\<forall>j. bm_bit b j \<longleftrightarrow> bm_bit (snd (snd (env n))) j \<or> j = nat slot)))"
proof (induction "100 - tries" arbitrary: tries)
  case 0
  then show ?case by (simp add: lock_create_loop.simps [of env tries])
next
  case (Suc m)
  obtain h b1 b2 where sight: "env tries = (h, b1, b2)" by (cases "env tries") auto
  have len: "\<And>t. length (h t) = 8" "length b1 = 8" "length b2 = 8"
    using assms(1) [of tries] assms(2) [of tries] assms(3) [of tries] sight by simp_all
  obtain v obs where v: "mcmpAtomicBitmapNextAvaibleBit h 0 8 = Some v" "v = first_hit obs 0 8"
    using atomic_next_available_ok [of 8 h 0] len by auto
  show ?case
  proof (cases "tries < 100 \<and> v \<noteq> -1")
    case False
    then show ?thesis using v(1) sight by (auto simp: lock_create_loop.simps [of env tries])
  next
    case True
    with v(2) obtain k where k: "v = int k" "k < 64"
      by (auto simp: first_hit_def find_upt_Some split: option.splits)
    obtain b1' p where s1: "try_enable_step b1 (BLoad (int k)) = Some (b1', p)"
      using try_enable_steps(1) [of k b1] len k by auto
    have "p = BDone MCMPST_ALROP \<or> (\<exists>e. p = BCas (int k) e)"
      using s1 try_enable_steps(1) [of k b1] len k by (auto simp del: try_enable_step.simps split: if_splits)
    then obtain b p' where s2: "try_enable_step b2 p = Some (b, p')"
      using try_enable_steps(2) [of k b2] len k by fastforce
    show ?thesis
    proof (cases "bitop_result p' = Some MCMPST_SUCCESS")
      case True
      then have "lock_create_loop env tries = Some (MCMPST_SUCCESS, Some (v, b))"
        using v(1) s1 s2 k sight \<open>tries < 100 \<and> v \<noteq> -1\<close>
        by (simp add: lock_create_loop.simps [of env tries] del: try_enable_step.simps)
      moreover note attempt_cases [OF len(2,3) k(2) s1 s2 True]
      ultimately show ?thesis using k sight \<open>tries < 100 \<and> v \<noteq> -1\<close> by auto
    next
      case False
      have step: "lock_create_loop env tries = lock_create_loop env (tries + 1)"
        using v(1) s1 s2 k sight False \<open>tries < 100 \<and> v \<noteq> -1\<close>
        by (simp add: lock_create_loop.simps [of env tries] del: try_enable_step.simps)
      have "m = 100 - (tries + 1)" using Suc(2) by simp
      from Suc(1) [OF this] show ?thesis unfolding step .
    qed
  qed
qed

text \<open>
  C34: However the bitmap changes while a creation runs, the creation returns after at most 100 attempts without
  undefined behaviour; when it reports success, its slot is one of the 64, was clear in the bitmap that its swap
  replaced, and the swap set that bit and no other, so that two creations never share a slot.
\<close>

theorem lock_create_interference:
  assumes "\<And>n t. length (fst (env n) t) = 8" "\<And>n. length (fst (snd (env n))) = 8" "\<And>n. length (snd (snd (env n))) = 8"
  shows "\<exists>status got. lock_create_loop env 0 = Some (status, got) \<and>
     (case got of None \<Rightarrow> status = MCMPST_OVERFLOW
      | Some (slot, b) \<Rightarrow> status = MCMPST_SUCCESS \<and> 0 \<le> slot \<and> slot < 64 \<and> length b = 8
          \<and> (\<exists>n < 100. \<not> bm_bit (snd (snd (env n))) (nat slot)
               \<and> (\<forall>j. bm_bit b j \<longleftrightarrow> bm_bit (snd (snd (env n))) j \<or> j = nat slot)))"
  by (rule lock_loop_ok [OF assms])

section \<open>Destruction\<close>

text \<open>
  Destroying the lock of slot 0 frees its slot; destroying the lock of any other slot is undefined behaviour, because
  the slot is computed with the wrong sign; an address outside the array is answered with MCMPST_NOT_IMPLEMENTED.
\<close>

lemma lock_destroy:
  assumes "lr_wf st"
  shows "(\<exists>st'. mcmchLockDestroy st 0 = Some (st', MCMPST_SUCCESS)
      \<and> atomic_slots.used (lr_slots st') = atomic_slots.used (lr_slots st) - {0})
    \<and> (\<forall>k \<in> {1..<64}. mcmchLockDestroy st (64 * int k) = None)
    \<and> (\<forall>a. a < 0 \<or> 4096 \<le> a \<longrightarrow> mcmchLockDestroy st a = Some (st, MCMPST_NOT_IMPLEMENTED))"
proof (intro conjI ballI allI impI)
  have len: "length (lr_slots st) = 8" using assms by (simp add: lr_wf_def)
  obtain bm' where bm': "mcmpBitmapDisableBit (lr_slots st) (int 0) = Some bm'" "length bm' = 8"
      "\<forall>j. bm_bit bm' j \<longleftrightarrow> bm_bit (lr_slots st) j \<and> j \<noteq> 0"
    using disable_bit [of 0 "lr_slots st"] len by auto
  have "mcmchLockDestroy st 0
      = Some (st\<lparr>lr_slots := bm', lr_ready := (lr_ready st)[0 := False]\<rparr>, MCMPST_SUCCESS)"
    using bm'(1) by (simp add: mcmchLockDestroy_def)
  then show "\<exists>st'. mcmchLockDestroy st 0 = Some (st', MCMPST_SUCCESS)
      \<and> atomic_slots.used (lr_slots st') = atomic_slots.used (lr_slots st) - {0}"
    using bm' len by (auto simp: atomic_slots.used_def)
  fix k :: nat assume "k \<in> {1..<64}"
  then show "mcmchLockDestroy st (64 * int k) = None"
    by (simp add: mcmchLockDestroy_def disable_negative)
qed (auto simp: mcmchLockDestroy_def)

section \<open>Witnesses\<close>

definition sample_registry :: lockreg where
  "sample_registry = \<lparr>lr_slots = [3, 0, 0, 0, 0, 0, 0, 0], lr_ready = [True, True] @ replicate 62 False\<rparr>"

lemma sample_registry_ok: "lr_wf sample_registry"
  by (simp add: lr_wf_def sample_registry_def)

lemma sample_registry_used: "5 \<notin> atomic_slots.used (lr_slots sample_registry)"
  by (simp add: atomic_slots.used_def bm_bit_def sample_registry_def)

lemma lock_create_witness:
  "\<exists>k st'. mcmchLockCreate sample_registry True = Some (st', MCMPST_SUCCESS, Some (64 * int k)) \<and> k \<le> 5"
proof -
  have "8 * length (lr_slots sample_registry) = 64" by (simp add: sample_registry_def)
  then have "atomic_slots.used (lr_slots sample_registry) \<subseteq> {..<64}"
    unfolding atomic_slots.used_def by auto
  moreover have "(5 :: nat) < 64" by simp
  ultimately have "atomic_slots.used (lr_slots sample_registry) \<subset> {..<64}"
    using sample_registry_used by blast
  from psubset_card_mono [OF _ this] have "card (atomic_slots.used (lr_slots sample_registry)) \<noteq> 64" by simp
  then obtain k st' where k: "mcmchLockCreate sample_registry True = Some (st', MCMPST_SUCCESS, Some (64 * int k))"
      "\<forall>j < k. j \<in> atomic_slots.used (lr_slots sample_registry)"
    using lock_create [OF sample_registry_ok] by auto
  then have "k \<le> 5" using sample_registry_used by (metis not_less)
  then show ?thesis using k(1) by blast
qed

theorem lock_create_interference_witness:
  "\<exists>status got. lock_create_loop
      (\<lambda>n. (\<lambda>t. replicate 8 (if t = 0 then 254 else 0), replicate 8 1, replicate 8 (if n = 0 then 3 else 0))) 0
     = Some (status, got)"
  using lock_create_interference
    [of "\<lambda>n. (\<lambda>t. replicate 8 (if t = 0 then 254 else 0), replicate 8 1, replicate 8 (if n = 0 then 3 else 0))"]
  by auto

lemma lock_destroy_witness:
  "(\<exists>st'. mcmchLockDestroy sample_registry 0 = Some (st', MCMPST_SUCCESS))
     \<and> mcmchLockDestroy sample_registry (64 * int 1) = None"
  using lock_destroy [OF sample_registry_ok] by (auto dest: bspec [where x = 1])

end
