(* ===== verification/Sweep.thy ===== *)
theory Sweep
  imports Atomic_Bitmap
begin

text \<open>
  The loop over the bits of a bitmap that the worker, client table and heartbeat code share:
  \<^verbatim>\<open>for (b = Next(bm, 0, len); b != -1; b = Next(bm, b + 1, len))\<close>, whose body may change the
  state, the bitmap included, and may leave the loop. The search and the body are parameters; the
  body's flag says whether the loop goes on. Under the contract of the search the loop terminates and
  is a fold over the bit numbers.
\<close>

partial_function (option) sweep ::
  "('s \<Rightarrow> bitidx \<Rightarrow> bitidx ub) \<Rightarrow> ('s \<Rightarrow> bitidx \<Rightarrow> ('s \<times> bool) ub) \<Rightarrow> 's \<Rightarrow> bitidx \<Rightarrow> 's ub" where
  "sweep next body s offset =
     Option.bind (next s offset) (\<lambda>b.
       if b = -1 then Some s
       else Option.bind (body s b) (\<lambda>r. if snd r then sweep next body (fst r) (b + 1) else Some (fst r)))"

fun fold_until :: "('s \<Rightarrow> nat \<Rightarrow> 's \<times> bool) \<Rightarrow> nat list \<Rightarrow> 's \<Rightarrow> 's" where
  "fold_until f [] s = s"
| "fold_until f (k # ks) s = (let (s', more) = f s k in if more then fold_until f ks s' else s')"

lemma fold_until_skip:
  "(\<And>k. k \<in> set xs \<Longrightarrow> f s k = (s, True)) \<Longrightarrow> fold_until f (xs @ ys) s = fold_until f ys s"
  by (induction xs) auto

text \<open>
  The contract: the search answers with the first hit from the offset on, and the body at a hit keeps
  the invariant and does not change which later bits are hits.
\<close>

locale sweeping =
  fixes inv :: "'s \<Rightarrow> bool"
    and hit :: "'s \<Rightarrow> nat \<Rightarrow> bool"
    and len :: nat
    and search :: "'s \<Rightarrow> bitidx \<Rightarrow> bitidx ub"
    and body :: "'s \<Rightarrow> bitidx \<Rightarrow> ('s \<times> bool) ub"
    and act :: "'s \<Rightarrow> nat \<Rightarrow> 's \<times> bool"
  assumes search_first: "inv s \<Longrightarrow> off \<le> 8 * len \<Longrightarrow> search s (int off) = Some (first_hit (hit s) off len)"
    and body_act: "inv s \<Longrightarrow> k < 8 * len \<Longrightarrow> hit s k \<Longrightarrow> body s (int k) = Some (act s k)"
    and act_inv: "inv s \<Longrightarrow> k < 8 * len \<Longrightarrow> hit s k \<Longrightarrow> act s k = (s', more) \<Longrightarrow> inv s'"
    and act_later: "inv s \<Longrightarrow> k < j \<Longrightarrow> j < 8 * len \<Longrightarrow> hit s k \<Longrightarrow> act s k = (s', more) \<Longrightarrow> hit s' j \<longleftrightarrow> hit s j"
begin

definition visit :: "'s \<Rightarrow> nat \<Rightarrow> 's \<times> bool" where
  "visit s k = (if hit s k then act s k else (s, True))"

lemma fold_visit_Cons:
  "fold_until visit (k # ks) s =
     (if hit s k then case act s k of (s', more) \<Rightarrow> if more then fold_until visit ks s' else s'
      else fold_until visit ks s)"
  by (simp add: visit_def)

lemma sweep_is_fold:
  "inv s \<Longrightarrow> off \<le> 8 * len \<Longrightarrow> sweep search body s (int off) = Some (fold_until visit [off..<8 * len] s)"
proof (induction "8 * len - off" arbitrary: s off rule: less_induct)
  case less
  show ?case
  proof (cases "find (hit s) [off..<8 * len]")
    case None
    then have "fold_until visit ([off..<8 * len] @ []) s = fold_until visit [] s"
      by (intro fold_until_skip) (auto simp: visit_def find_upt_None)
    then show ?thesis using None search_first [OF less.prems]
      by (simp add: sweep.simps [of _ _ _ "int off"] first_hit_def)
  next
    case (Some k)
    then have k: "off \<le> k" "k < 8 * len" "hit s k" and skip: "\<forall>j. off \<le> j \<and> j < k \<longrightarrow> \<not> hit s j"
      by (auto simp: find_upt_Some)
    have "[off..<8 * len] = [off..<k] @ k # [Suc k..<8 * len]"
      using k by (metis le_add_diff_inverse upt_add_eq_append upt_conv_Cons less_imp_le)
    moreover have "fold_until visit ([off..<k] @ k # [Suc k..<8 * len]) s = fold_until visit (k # [Suc k..<8 * len]) s"
      by (rule fold_until_skip) (use skip in \<open>auto simp: visit_def\<close>)
    ultimately have fold: "fold_until visit [off..<8 * len] s = fold_until visit (k # [Suc k..<8 * len]) s" by simp
    obtain s' more where act: "act s k = (s', more)" by (cases "act s k")
    have "8 * len - Suc k < 8 * len - off" using k by linarith
    from less.hyps [OF this act_inv [OF less.prems(1) k(2,3) act]] k(2)
    have rest: "sweep search body s' (int (Suc k)) = Some (fold_until visit [Suc k..<8 * len] s')" by simp
    show ?thesis
      using Some search_first [OF less.prems] body_act [OF less.prems(1) k(2,3)] act fold k(3) rest
      by (simp add: sweep.simps [of _ _ _ "int off"] first_hit_def visit_def add.commute)
  qed
qed

end

end
