(* ===== verification/Client_Table.thy ===== *)
theory Client_Table
  imports Sweep Slot_Array
begin

text \<open>
  The client table of \<^verbatim>\<open>server/src/common/clients.c\<close> and \<^verbatim>\<open>server/src/linux/clients.c\<close>: one block
  with a header, a bitmap of the slots in use and the clients. The client type, its descriptor and
  the sizes of client and header come from macros that the repository does not define; they are
  parameters (\<open>'c\<close>, \<open>fd\<close>, \<open>sz\<close>, \<open>hdr\<close>). A client is addressed by its slot.
\<close>

section \<open>State and operations\<close>

record 'c client_table =
  cb_length :: nat
  cb_bitmap_length :: nat
  cb_bitmap :: "byte list"
  cb_clients :: "'c list"

definition mcmchClientCreateBroadcast ::
  "nat \<Rightarrow> nat \<Rightarrow> (nat \<Rightarrow> bool) \<Rightarrow> (nat \<Rightarrow> 'c) \<Rightarrow> nat \<Rightarrow> (mcmpst + 'c client_table) ub" where
  "mcmchClientCreateBroadcast hdr sz malloc_ok junk len =
     (let blen = ((len + 7) mod size_max) div 8;
          bytes = (hdr + blen + (sz * len) mod size_max) mod size_max
      in if \<not> malloc_ok bytes then Some (Inl MCMPST_OUT_OF_MEM)
         else if bytes < hdr + blen then None
         else Some (Inr \<lparr>cb_length = len, cb_bitmap_length = blen, cb_bitmap = replicate blen 0,
                cb_clients = map junk [0..<(bytes - hdr - blen) div sz]\<rparr>))"

text \<open>The slot is not compared with the length of the table before it is written.\<close>

definition mcmchClientBroadcastAdd :: "'c client_table \<Rightarrow> 'c \<Rightarrow> ('c client_table \<times> (mcmpst + nat)) ub" where
  "mcmchClientBroadcastAdd cb client = do {
     slot \<leftarrow> mcmpBitmapNextAvaibleBit (cb_bitmap cb) 0 (cb_bitmap_length cb);
     (if slot = -1 then Some (cb, Inl MCMPST_OVERFLOW)
      else do {
        bitmap \<leftarrow> mcmpBitmapEnableBit (cb_bitmap cb) slot;
        (if nat slot < length (cb_clients cb)
         then Some (cb\<lparr>cb_bitmap := bitmap, cb_clients := (cb_clients cb)[nat slot := client]\<rparr>, Inr (nat slot))
         else None) }) }"

text \<open>\<open>dif\<close> is the distance of the client's address from the first client, modulo \<open>2 ^ 64\<close>.\<close>

definition mcmchClientBroadcastDel :: "nat \<Rightarrow> 'c client_table \<Rightarrow> nat \<Rightarrow> ('c client_table \<times> mcmpst) ub" where
  "mcmchClientBroadcastDel sz cb dif =
     (if dif mod sz \<noteq> 0 then Some (cb, MCMPST_INVALIGN)
      else do {
        bitmap \<leftarrow> mcmpBitmapDisableBit (cb_bitmap cb) (bitidx_cast (dif div sz));
        Some (cb\<lparr>cb_bitmap := bitmap\<rparr>, MCMPST_SUCCESS) })"

definition client_at :: "'c client_table \<Rightarrow> bitidx \<Rightarrow> 'c ub" where
  "client_at cb slot = (if 0 \<le> slot \<and> nat slot < length (cb_clients cb) then Some (cb_clients cb ! nat slot) else None)"

text \<open>
  Closing a client takes its descriptor out of the server's epoll instance and closes it; the function ends without a status, \<open>None\<close>.
\<close>

datatype client_syscall = Epoll_Del int | Close_Fd int

definition mcmchClientClose :: "int \<Rightarrow> client_syscall list \<times> mcmpst option" where
  "mcmchClientClose fd = ([Epoll_Del fd, Close_Fd fd], None)"

text \<open>Flushing closes the clients in use; the state is the table and the system calls made so far.\<close>

definition next_used :: "'c client_table \<times> 'x \<Rightarrow> bitidx \<Rightarrow> bitidx ub" where
  "next_used s offset = mcmpBitmapNextOccupiedBit (cb_bitmap (fst s)) offset (cb_bitmap_length (fst s))"

definition flush_body :: "('c \<Rightarrow> int) \<Rightarrow> 'c client_table \<times> client_syscall list \<Rightarrow> bitidx
    \<Rightarrow> (('c client_table \<times> client_syscall list) \<times> bool) ub" where
  "flush_body fd s slot = (case s of (cb, calls) \<Rightarrow> do {
     client \<leftarrow> client_at cb slot;
     bitmap \<leftarrow> mcmpBitmapDisableBit (cb_bitmap cb) slot;
     Some ((cb\<lparr>cb_bitmap := bitmap\<rparr>, calls @ fst (mcmchClientClose (fd client))), True) })"

definition mcmchClientBroadcastFlush :: "('c \<Rightarrow> int) \<Rightarrow> 'c client_table \<Rightarrow> (('c client_table \<times> client_syscall list) \<times> mcmpst) ub" where
  "mcmchClientBroadcastFlush fd cb = do { s \<leftarrow> sweep next_used (flush_body fd) (cb, []) 0; Some (s, MCMPST_SUCCESS) }"

text \<open>The search for a descriptor leaves the loop at the first client that has it.\<close>

definition index_body :: "('c \<Rightarrow> int) \<Rightarrow> int \<Rightarrow> 'c client_table \<times> bitidx \<Rightarrow> bitidx \<Rightarrow> (('c client_table \<times> bitidx) \<times> bool) ub" where
  "index_body fd ctfd s slot = (case s of (cb, r) \<Rightarrow> do {
     client \<leftarrow> client_at cb slot;
     Some (if fd client = ctfd then ((cb, slot), False) else ((cb, r), True)) })"

definition mcmchClientGetBitIndex :: "('c \<Rightarrow> int) \<Rightarrow> 'c client_table \<Rightarrow> int \<Rightarrow> bitidx ub" where
  "mcmchClientGetBitIndex fd cb ctfd = map_option snd (sweep next_used (index_body fd ctfd) (cb, -1) 0)"

section \<open>Well-formed tables\<close>

definition ct_wf :: "'c client_table \<Rightarrow> bool" where
  "ct_wf cb \<longleftrightarrow> length (cb_bitmap cb) = cb_bitmap_length cb \<and> cb_bitmap_length cb = (cb_length cb + 7) div 8
     \<and> length (cb_clients cb) = cb_length cb \<and> cb_length cb < 2 ^ 60"

definition ct_used :: "'c client_table \<Rightarrow> nat set" where
  "ct_used cb = plain_slots.used (cb_bitmap cb)"

text \<open>The bits behind the last slot are clear.\<close>

definition ct_inv :: "'c client_table \<Rightarrow> bool" where
  "ct_inv cb \<longleftrightarrow> ct_wf cb \<and> ct_used cb \<subseteq> {..<cb_length cb}"

lemma ct_wf_bm: "ct_wf cb \<Longrightarrow> bm_wf (cb_bitmap cb)"
  by (simp add: ct_wf_def bm_wf_def) presburger

lemma ct_slot: "ct_wf cb \<Longrightarrow> k < cb_length cb \<Longrightarrow> k < 8 * length (cb_bitmap cb)"
  by (simp add: ct_wf_def)

lemma ct_used_iff: "k \<in> ct_used cb \<longleftrightarrow> k < 8 * length (cb_bitmap cb) \<and> bm_bit (cb_bitmap cb) k"
  by (simp add: ct_used_def plain_slots.used_def)

lemma client_add_runs:
  assumes "ct_wf cb"
  shows "mcmchClientBroadcastAdd cb client =
     (case plain_slots.acquire (cb_bitmap cb) of
        None \<Rightarrow> Some (cb, Inl MCMPST_OVERFLOW)
      | Some (k, bm) \<Rightarrow>
          if k < cb_length cb then Some (cb\<lparr>cb_bitmap := bm, cb_clients := (cb_clients cb)[k := client]\<rparr>, Inr k) else None)"
proof (cases "bm_next_free (cb_bitmap cb)")
  case None
  then show ?thesis using next_available_slot [OF ct_wf_bm [OF assms]] assms
    by (simp add: mcmchClientBroadcastAdd_def plain_slots.acquire_def ct_wf_def)
next
  case (Some k)
  then have k: "k < 8 * length (cb_bitmap cb)"
    using plain_slots.next_free_Some [OF ct_wf_bm [OF assms] Some] by simp
  then have "mcmpBitmapEnableBit (cb_bitmap cb) (int k) = Some (bm_mark (cb_bitmap cb) k)"
    using enable_bit [OF k] by (auto simp: bm_mark_def)
  then show ?thesis using next_available_slot [OF ct_wf_bm [OF assms]] Some assms
    by (simp add: mcmchClientBroadcastAdd_def plain_slots.acquire_def ct_wf_def)
qed

section \<open>Adding and deleting\<close>

text \<open>
  C17: Adding a client to a table with a free slot puts it into the first one, and deleting it by its address gives the
  slot back: the slots in use are those before, and the other clients are untouched. In a full table the outcome depends on the
  padding of the bitmap: MCMPST_OVERFLOW when the length is a multiple of 8, and a write behind the last client otherwise.
\<close>

theorem client_add_del:
  assumes "ct_inv cb" "0 < sz"
  shows "if ct_used cb = {..<cb_length cb}
     then mcmchClientBroadcastAdd cb client = (if cb_length cb mod 8 = 0 then Some (cb, Inl MCMPST_OVERFLOW) else None)
     else \<exists>k cb' cb''. mcmchClientBroadcastAdd cb client = Some (cb', Inr k) \<and> ct_inv cb'
       \<and> k < cb_length cb \<and> k \<notin> ct_used cb \<and> {..<k} \<subseteq> ct_used cb \<and> ct_used cb' = insert k (ct_used cb)
       \<and> cb_clients cb' = (cb_clients cb)[k := client]
       \<and> mcmchClientBroadcastDel sz cb' (k * sz) = Some (cb'', MCMPST_SUCCESS) \<and> ct_used cb'' = ct_used cb"
proof -
  have wf: "ct_wf cb" and sub: "ct_used cb \<subseteq> {..<cb_length cb}" using assms(1) by (simp_all add: ct_inv_def)
  note bm = ct_wf_bm [OF wf]
  have bits: "8 * length (cb_bitmap cb) = 8 * ((cb_length cb + 7) div 8)" using wf by (simp add: ct_wf_def)
  show ?thesis
  proof (cases "plain_slots.acquire (cb_bitmap cb)")
    case None
    then have all: "ct_used cb = {..<8 * length (cb_bitmap cb)}"
      using plain_slots.acquire_None_iff [OF bm] by (simp add: ct_used_def)
    then have "8 * length (cb_bitmap cb) \<le> cb_length cb" using sub by (simp add: lessThan_subset_iff)
    with bits have "cb_length cb mod 8 = 0" "8 * length (cb_bitmap cb) = cb_length cb" by presburger+
    then show ?thesis using None client_add_runs [OF wf, of client] all by simp
  next
    case (Some kb)
    then obtain k b where acq: "plain_slots.acquire (cb_bitmap cb) = Some (k, b)" by (cases kb) auto
    note got = plain_slots.acquire_Some [OF bm acq]
    have below: "{..<k} \<subseteq> ct_used cb" and new: "k \<notin> ct_used cb" using got by (auto simp: ct_used_def)
    show ?thesis
    proof (cases "k < cb_length cb")
      case False
      then have full: "ct_used cb = {..<cb_length cb}" using below sub by auto
      have "cb_length cb mod 8 \<noteq> 0" using False got(1) bits by presburger
      then show ?thesis using full False client_add_runs [OF wf, of client] acq by simp
    next
      case True
      let ?cb' = "cb\<lparr>cb_bitmap := b, cb_clients := (cb_clients cb)[k := client]\<rparr>"
      have "ct_used cb \<noteq> {..<cb_length cb}" using True new by auto
      moreover have "mcmchClientBroadcastAdd cb client = Some (?cb', Inr k)"
        using client_add_runs [OF wf, of client] acq True by simp
      moreover have used': "ct_used ?cb' = insert k (ct_used cb)" using got(3) by (simp add: ct_used_def)
      moreover have "length b = length (cb_bitmap cb)" using got(5) by simp
      then have "ct_inv ?cb'" using wf sub True used' by (simp add: ct_inv_def ct_wf_def)
      moreover obtain bm' where "mcmpBitmapDisableBit b (int k) = Some bm'" "bm' = bm_unmark b k"
        using disable_bit [of k b] got(1,5) by (auto simp: bm_unmark_def)
      then have "mcmchClientBroadcastDel sz ?cb' (k * sz) = Some (?cb'\<lparr>cb_bitmap := bm_unmark b k\<rparr>, MCMPST_SUCCESS)"
        using assms(2) True wf by (simp add: mcmchClientBroadcastDel_def ct_wf_def)
      moreover have "ct_used (?cb'\<lparr>cb_bitmap := bm_unmark b k\<rparr>) = ct_used cb"
        using plain_slots.acquire_release [OF bm acq] by (simp add: ct_used_def)
      ultimately show ?thesis using True new below by auto
    qed
  qed
qed

text \<open>A table of three slots, the first in use.\<close>

definition sample_table :: "int client_table" where
  "sample_table = \<lparr>cb_length = 3, cb_bitmap_length = 1, cb_bitmap = [1], cb_clients = [40, 0, 0]\<rparr>"

lemma sample_table_used: "ct_inv sample_table \<and> ct_used sample_table = {0}"
proof -
  have "bm_bit [1] k \<longleftrightarrow> k = 0" if "k < 8" for k
  proof -
    from that have "k \<in> {0, 1, 2, 3, 4, 5, 6, 7}" by auto
    then show ?thesis by (auto simp: bm_bit_def)
  qed
  then show ?thesis by (auto simp: ct_inv_def ct_wf_def sample_table_def ct_used_iff)
qed

theorem client_add_del_witness:
  "\<exists>cb'. mcmchClientBroadcastAdd sample_table 41 = Some (cb', Inr 1) \<and> cb_clients cb' = [40, 41, 0]"
proof -
  note inv = conjunct1 [OF sample_table_used] and used = conjunct2 [OF sample_table_used]
  have "1 \<notin> ct_used sample_table" "1 \<in> {..<cb_length sample_table}" by (simp add: used, simp add: sample_table_def)
  then have "ct_used sample_table \<noteq> {..<cb_length sample_table}" by blast
  then obtain k cb' where add: "mcmchClientBroadcastAdd sample_table 41 = Some (cb', Inr k)"
      and k: "k \<notin> ct_used sample_table" "{..<k} \<subseteq> ct_used sample_table"
      and clients: "cb_clients cb' = (cb_clients sample_table)[k := 41]"
    using client_add_del [of sample_table 8 41] inv by auto
  have "k = 1" using k used by (cases k) (auto simp: lessThan_Suc)
  then show ?thesis using add clients by (simp add: sample_table_def)
qed

section \<open>The loops over the clients in use\<close>

definition table_ok :: "nat \<Rightarrow> 'c client_table \<times> 'x \<Rightarrow> bool" where
  "table_ok n s \<longleftrightarrow> ct_inv (fst s) \<and> cb_bitmap_length (fst s) = n"

definition in_use :: "'c client_table \<times> 'x \<Rightarrow> nat \<Rightarrow> bool" where
  "in_use s k = bm_bit (cb_bitmap (fst s)) k"

lemma next_used_first:
  assumes "table_ok n s" "off \<le> 8 * n"
  shows "next_used s (int off) = Some (first_hit (in_use s) off n)"
proof -
  have "n = (cb_length (fst s) + 7) div 8" "cb_length (fst s) < 2 ^ 60" using assms(1) by (auto simp: table_ok_def ct_inv_def ct_wf_def)
  then have "8 * n < 2 ^ 63" by simp
  moreover have "length (cb_bitmap (fst s)) = n" using assms(1) by (simp add: table_ok_def ct_inv_def ct_wf_def)
  ultimately show ?thesis using assms next_occupied_ok [of n "cb_bitmap (fst s)" off]
    by (simp add: next_used_def table_ok_def next_bit_spec_def in_use_def [abs_def])
qed

lemma hit_in_range:
  assumes "table_ok n s" "k < 8 * n" "in_use s k"
  shows "k < cb_length (fst s)" "k < 8 * length (cb_bitmap (fst s))" "client_at (fst s) (int k) = Some (cb_clients (fst s) ! k)"
  using assms by (auto simp: table_ok_def in_use_def ct_inv_def ct_wf_def subset_iff ct_used_iff client_at_def)

definition flush_act :: "('c \<Rightarrow> int) \<Rightarrow> 'c client_table \<times> client_syscall list \<Rightarrow> nat \<Rightarrow> ('c client_table \<times> client_syscall list) \<times> bool" where
  "flush_act fd s k = ((fst s\<lparr>cb_bitmap := bm_unmark (cb_bitmap (fst s)) k\<rparr>, snd s @ fst (mcmchClientClose (fd (cb_clients (fst s) ! k)))), True)"

lemma unmark_table_ok: "table_ok n s \<Longrightarrow> k < 8 * n \<Longrightarrow> table_ok n (fst s\<lparr>cb_bitmap := bm_unmark (cb_bitmap (fst s)) k\<rparr>, x)"
  using bm_unmark_bits [of k "cb_bitmap (fst s)"]
  by (auto simp: table_ok_def ct_inv_def ct_wf_def subset_iff ct_used_iff)

interpretation flush: sweeping "table_ok n" in_use n next_used "flush_body fd" "flush_act fd"
  for n :: nat and fd :: "'c \<Rightarrow> int"
proof
  fix s s' :: "'c client_table \<times> client_syscall list" and off k j :: nat and more
  assume ok: "table_ok n s"
  show "off \<le> 8 * n \<Longrightarrow> next_used s (int off) = Some (first_hit (in_use s) off n)" by (rule next_used_first [OF ok])
  assume hit: "in_use s k"
  show "k < 8 * n \<Longrightarrow> flush_body fd s (int k) = Some (flush_act fd s k)"
  proof -
    assume "k < 8 * n"
    note k = hit_in_range [OF ok this hit]
    obtain bm where "mcmpBitmapDisableBit (cb_bitmap (fst s)) (int k) = Some bm" using disable_bit [OF k(2)] by blast
    then show ?thesis using k(3) by (cases s) (simp add: flush_body_def flush_act_def bm_unmark_def)
  qed
  assume act: "flush_act fd s k = (s', more)"
  show "k < 8 * n \<Longrightarrow> table_ok n s'" using unmark_table_ok [OF ok] act by (auto simp: flush_act_def)
  show "k < j \<Longrightarrow> j < 8 * n \<Longrightarrow> in_use s' j \<longleftrightarrow> in_use s j"
    using act ok bm_unmark_bits(2) [of k "cb_bitmap (fst s)" j]
    by (auto simp: flush_act_def in_use_def table_ok_def ct_inv_def ct_wf_def)
qed

definition index_act :: "('c \<Rightarrow> int) \<Rightarrow> int \<Rightarrow> 'c client_table \<times> bitidx \<Rightarrow> nat \<Rightarrow> ('c client_table \<times> bitidx) \<times> bool" where
  "index_act fd ctfd s k = (if fd (cb_clients (fst s) ! k) = ctfd then ((fst s, int k), False) else (s, True))"

interpretation lookup: sweeping "table_ok n" in_use n next_used "index_body fd ctfd" "index_act fd ctfd"
  for n :: nat and fd :: "'c \<Rightarrow> int" and ctfd :: int
proof
  fix s s' :: "'c client_table \<times> bitidx" and off k j :: nat and more
  assume ok: "table_ok n s"
  show "off \<le> 8 * n \<Longrightarrow> next_used s (int off) = Some (first_hit (in_use s) off n)" by (rule next_used_first [OF ok])
  assume hit: "in_use s k"
  show "k < 8 * n \<Longrightarrow> index_body fd ctfd s (int k) = Some (index_act fd ctfd s k)"
    using hit_in_range [OF ok _ hit] by (cases s) (auto simp: index_body_def index_act_def)
  assume act: "index_act fd ctfd s k = (s', more)"
  show "k < 8 * n \<Longrightarrow> table_ok n s'" using ok act by (auto simp: index_act_def table_ok_def split: if_splits)
  show "k < j \<Longrightarrow> j < 8 * n \<Longrightarrow> in_use s' j \<longleftrightarrow> in_use s j"
    using act by (auto simp: index_act_def in_use_def split: if_splits)
qed

text \<open>The calls that close the clients in the slots \<open>ks\<close>.\<close>

definition closing :: "('c \<Rightarrow> int) \<Rightarrow> 'c client_table \<Rightarrow> nat list \<Rightarrow> client_syscall list" where
  "closing fd cb ks = concat (map (\<lambda>k. [Epoll_Del (fd (cb_clients cb ! k)), Close_Fd (fd (cb_clients cb ! k))]) ks)"

lemma flush_fold:
  "table_ok n s \<Longrightarrow> distinct ks \<Longrightarrow> set ks \<subseteq> {..<8 * n} \<Longrightarrow>
     \<exists>s'. fold_until (flush.visit fd) ks s = s' \<and> table_ok n s' \<and> cb_clients (fst s') = cb_clients (fst s)
       \<and> (\<forall>j < 8 * n. in_use s' j \<longleftrightarrow> in_use s j \<and> j \<notin> set ks)
       \<and> snd s' = snd s @ closing fd (fst s) (filter (in_use s) ks)"
proof (induction ks arbitrary: s)
  case (Cons k ks)
  obtain s1 where visit: "flush.visit fd s k = (s1, True)"
      and s1: "s1 = (if in_use s k then fst (flush_act fd s k) else s)" by (simp add: flush.visit_def flush_act_def)
  have len: "length (cb_bitmap (fst s)) = n" using Cons.prems(1) by (simp add: table_ok_def ct_inv_def ct_wf_def)
  have ok: "table_ok n s1" using Cons.prems unmark_table_ok [of n s k] by (auto simp: s1 flush_act_def)
  have clients: "cb_clients (fst s1) = cb_clients (fst s)" by (simp add: s1 flush_act_def)
  have use: "in_use s1 j \<longleftrightarrow> in_use s j \<and> j \<noteq> k" if "j < 8 * n" for j
    using that bm_unmark_bits(2) [of k "cb_bitmap (fst s)" j] Cons.prems(3) len
    by (auto simp: s1 flush_act_def in_use_def)
  then have same: "filter (in_use s1) ks = filter (in_use s) ks"
    using Cons.prems(2,3) by (intro filter_cong) auto
  have closed: "snd s1 = snd s @ (if in_use s k then [Epoll_Del (fd (cb_clients (fst s) ! k)), Close_Fd (fd (cb_clients (fst s) ! k))] else [])"
    by (simp add: s1 flush_act_def mcmchClientClose_def)
  show ?case using Cons.IH [OF ok] Cons.prems visit clients use closed by (auto simp: same closing_def)
qed (simp add: closing_def)

text \<open>
  C18: Flushing a table returns; it takes the descriptors of the clients in use out of the epoll instance and closes them, each once and in
  slot order and no other, and leaves no slot in use and the client data as they were.
\<close>

theorem client_flush:
  assumes "ct_inv cb"
  shows "\<exists>cb'. mcmchClientBroadcastFlush fd cb
       = Some ((cb', closing fd cb (filter (\<lambda>k. k \<in> ct_used cb) [0..<cb_length cb])), MCMPST_SUCCESS)
     \<and> ct_inv cb' \<and> ct_used cb' = {} \<and> cb_clients cb' = cb_clients cb"
proof -
  define n where "n = cb_bitmap_length cb"
  have ok: "table_ok n (cb, [])" using assms by (simp add: table_ok_def n_def)
  have sub: "set [0..<8 * n] \<subseteq> {..<8 * n}" by auto
  obtain s where s: "fold_until (flush.visit fd) [0..<8 * n] (cb, []) = s" "table_ok n s" "cb_clients (fst s) = cb_clients cb"
      "\<forall>j < 8 * n. \<not> in_use s j"
      "snd s = closing fd cb (filter (in_use (cb, [] :: client_syscall list)) [0..<8 * n])"
    using flush_fold [OF ok distinct_upt sub, of fd] by auto
  have "filter (in_use (cb, [] :: client_syscall list)) [0..<8 * n] = filter (\<lambda>k. k \<in> ct_used cb) [0..<cb_length cb]"
  proof -
    have le: "cb_length cb \<le> 8 * n" using assms by (simp add: ct_inv_def ct_wf_def n_def)
    have "filter (\<lambda>k. k \<in> ct_used cb) [cb_length cb..<8 * n] = []"
      using assms by (auto simp: filter_empty_conv ct_inv_def subset_iff)
    moreover have "[0..<8 * n] = [0..<cb_length cb] @ [cb_length cb..<8 * n]"
      using le by (metis le0 le_add_diff_inverse upt_add_eq_append)
    moreover have "filter (in_use (cb, [] :: client_syscall list)) [0..<8 * n] = filter (\<lambda>k. k \<in> ct_used cb) [0..<8 * n]"
      using assms by (intro filter_cong) (auto simp: in_use_def ct_used_iff ct_inv_def ct_wf_def n_def)
    ultimately show ?thesis by simp
  qed
  moreover have "sweep next_used (flush_body fd) (cb, []) 0 = Some s"
    using flush.sweep_is_fold [OF ok, of 0 fd] s(1) by simp
  ultimately have "mcmchClientBroadcastFlush fd cb
       = Some ((fst s, closing fd cb (filter (\<lambda>k. k \<in> ct_used cb) [0..<cb_length cb])), MCMPST_SUCCESS)"
    using s(5) by (cases s) (simp add: mcmchClientBroadcastFlush_def)
  moreover have "ct_inv (fst s)" "ct_used (fst s) = {}"
    using s(2,4) by (auto simp: table_ok_def ct_used_iff in_use_def ct_inv_def ct_wf_def)
  ultimately show ?thesis using s(3) by blast
qed

theorem client_flush_witness: "\<exists>cb'. mcmchClientBroadcastFlush id sample_table = Some ((cb', [Epoll_Del 40, Close_Fd 40]), MCMPST_SUCCESS) \<and> ct_used cb' = {}"
  using client_flush [of sample_table id] sample_table_used by (auto simp: sample_table_def upt_rec closing_def)

lemma index_fold:
  "table_ok n s \<Longrightarrow> fold_until (lookup.visit fd ctfd) ks s =
     (case find (\<lambda>k. in_use s k \<and> fd (cb_clients (fst s) ! k) = ctfd) ks of None \<Rightarrow> s | Some k \<Rightarrow> (fst s, int k))"
  by (induction ks) (auto simp: lookup.visit_def index_act_def)

text \<open>
  The lookup of a descriptor answers with the first slot in use whose client has the descriptor, and with -1 exactly
  when no client in use has it; the data of slots not in use are not considered.
\<close>

lemma client_index:
  assumes "ct_inv cb"
  shows "\<exists>r. mcmchClientGetBitIndex fd cb ctfd = Some r \<and> (r = -1 \<longleftrightarrow> ctfd \<notin> (\<lambda>k. fd (cb_clients cb ! k)) ` ct_used cb)
     \<and> (r = -1 \<or> (\<exists>k \<in> ct_used cb. r = int k \<and> fd (cb_clients cb ! k) = ctfd
          \<and> ctfd \<notin> (\<lambda>j. fd (cb_clients cb ! j)) ` (ct_used cb \<inter> {..<k})))"
proof -
  define n where "n = cb_bitmap_length cb"
  have ok: "table_ok n (cb, -1 :: bitidx)" using assms by (simp add: table_ok_def n_def)
  have used: "j \<in> ct_used cb \<longleftrightarrow> j < 8 * n \<and> in_use (cb, -1 :: bitidx) j" for j
    using assms by (auto simp: ct_used_iff in_use_def ct_inv_def ct_wf_def n_def)
  let ?P = "\<lambda>k. in_use (cb, -1 :: bitidx) k \<and> fd (cb_clients cb ! k) = ctfd"
  have run: "mcmchClientGetBitIndex fd cb ctfd = Some (case find ?P [0..<8 * n] of None \<Rightarrow> -1 | Some k \<Rightarrow> int k)"
    using lookup.sweep_is_fold [OF ok, of 0 fd ctfd] index_fold [OF ok, of fd ctfd "[0..<8 * n]"]
    by (simp add: mcmchClientGetBitIndex_def split: option.splits)
  show ?thesis
  proof (cases "find ?P [0..<8 * n]")
    case None
    then have "ctfd \<notin> (\<lambda>k. fd (cb_clients cb ! k)) ` ct_used cb" by (auto simp: find_upt_None used)
    then show ?thesis using run None by simp
  next
    case (Some k)
    then have "k \<in> ct_used cb" "fd (cb_clients cb ! k) = ctfd" "ctfd \<notin> (\<lambda>j. fd (cb_clients cb ! j)) ` (ct_used cb \<inter> {..<k})"
      by (auto simp: find_upt_Some used)
    then show ?thesis using run Some by auto
  qed
qed

lemma client_index_witness:
  "mcmchClientGetBitIndex id sample_table 40 = Some 0 \<and> mcmchClientGetBitIndex id sample_table 0 = Some (-1)"
  using client_index [of sample_table id 40] client_index [of sample_table id 0] sample_table_used
  by (auto simp: sample_table_def)

end
