(* ===== verification/Monitor.thy ===== *)
theory Monitor
  imports Slot_Array Transition
begin

text \<open>
  The monitors of \<^verbatim>\<open>routines/src/linux/monitor.c\<close>: a static table of 512 of them with a bitmap of 64
  bytes, the loop that a monitor's thread runs, and the spin lock whose word holds the monitor of its
  owner. Threads and signals are the operating system's: what \<^verbatim>\<open>sigwait\<close> returns and when the running
  flag is cleared are inputs.
\<close>

section \<open>The table\<close>

record monitor =
  mo_static :: bool
  mo_ctx :: nat
  mo_beat :: nat
  mo_running :: bool

record monitors =
  mt_slots :: "byte list"
  mt_table :: "monitor list"

definition static_monitors :: nat where
  "static_monitors = 512"

definition static_slots :: nat where
  "static_slots = (static_monitors + 7) div 8"

text \<open>The test \<^verbatim>\<open>slot >= 512UL\<close> compares unsigned: -1 passes it too.\<close>

definition mcmchMonitorCreateStatic :: "monitors \<Rightarrow> nat \<Rightarrow> nat \<Rightarrow> (monitors \<times> mcmpst \<times> nat option) ub" where
  "mcmchMonitorCreateStatic mt handler ctx = do {
     slot \<leftarrow> mcmpBitmapNextAvaibleBit (mt_slots mt) 0 static_slots;
     (if static_monitors \<le> size_cast slot \<or> slot = -1 then Some (mt, MCMPST_OVERFLOW, None)
      else if length (mt_table mt) \<le> nat slot then None
      else do {
        slots \<leftarrow> mcmpBitmapEnableBit (mt_slots mt) slot;
        Some (\<lparr>mt_slots = slots, mt_table = (mt_table mt)[nat slot :=
            \<lparr>mo_static = True, mo_ctx = ctx, mo_beat = handler, mo_running = False\<rparr>]\<rparr>,
          MCMPST_SUCCESS, Some (nat slot)) }) }"

definition mcmchMonitorCreate :: "monitors \<Rightarrow> bool \<Rightarrow> nat \<Rightarrow> nat \<Rightarrow> (monitors \<times> mcmpst \<times> nat option) ub" where
  "mcmchMonitorCreate mt pool_null handler ctx =
     (if pool_null then mcmchMonitorCreateStatic mt handler ctx else Some (mt, MCMPST_NOT_IMPLEMENTED, None))"

text \<open>Starting sets the flag and starts the thread; the function returns no value.\<close>

definition mcmchMonitorStart :: "monitors \<Rightarrow> nat \<Rightarrow> monitors" where
  "mcmchMonitorStart mt m = mt\<lparr>mt_table := (mt_table mt)[m := (mt_table mt ! m)\<lparr>mo_running := True\<rparr>]\<rparr>"

text \<open>
  Destruction signals and joins the thread, which is undefined for a monitor that was not started since
  its creation: its thread handle is unset or stale.
\<close>

definition mcmchMonitorDestroy :: "monitors \<Rightarrow> nat \<Rightarrow> (monitors \<times> mcmpst) ub" where
  "mcmchMonitorDestroy mt m =
     (if length (mt_table mt) \<le> m \<or> \<not> mo_running (mt_table mt ! m) then None
      else let stopped = mt\<lparr>mt_table := (mt_table mt)[m := (mt_table mt ! m)\<lparr>mo_running := False\<rparr>]\<rparr>
           in if mo_static (mt_table mt ! m)
              then do { slots \<leftarrow> mcmpBitmapDisableBit (mt_slots mt) (int m);
                        Some (stopped\<lparr>mt_slots := slots\<rparr>, MCMPST_SUCCESS) }
              else Some (stopped, MCMPST_SUCCESS))"

definition mt_wf :: "monitors \<Rightarrow> bool" where
  "mt_wf mt \<longleftrightarrow> length (mt_slots mt) = static_slots \<and> length (mt_table mt) = static_monitors
     \<and> (\<forall>m < static_monitors. bm_bit (mt_slots mt) m \<longrightarrow> mo_static (mt_table mt ! m))"

lemma static_sizes [simp]: "static_slots = 64" "static_monitors = 512"
  by (simp_all add: static_slots_def static_monitors_def)

lemma mt_wf_bm: "mt_wf mt \<Longrightarrow> bm_wf (mt_slots mt)"
  by (simp add: mt_wf_def bm_wf_def)

lemma next_monitor:
  assumes "mt_wf mt"
  shows "mcmpBitmapNextAvaibleBit (mt_slots mt) 0 64 =
     Some (case bm_next_free (mt_slots mt) of None \<Rightarrow> -1 | Some k \<Rightarrow> int k)"
  using next_available_slot [OF mt_wf_bm [OF assms]] assms by (simp add: mt_wf_def)

lemma monitor_create_runs:
  assumes "mt_wf mt"
  shows "mcmchMonitorCreate mt True handler ctx =
     (case plain_slots.acquire (mt_slots mt) of
        None \<Rightarrow> Some (mt, MCMPST_OVERFLOW, None)
      | Some (k, b) \<Rightarrow> Some (\<lparr>mt_slots = b, mt_table = (mt_table mt)[k :=
          \<lparr>mo_static = True, mo_ctx = ctx, mo_beat = handler, mo_running = False\<rparr>]\<rparr>, MCMPST_SUCCESS, Some k))"
proof (cases "bm_next_free (mt_slots mt)")
  case None
  then show ?thesis using next_monitor [OF assms]
    by (simp add: mcmchMonitorCreate_def mcmchMonitorCreateStatic_def plain_slots.acquire_def)
next
  case (Some k)
  then have "k < 8 * length (mt_slots mt)"
    using plain_slots.next_free_Some [OF mt_wf_bm [OF assms] Some] by simp
  then have k: "k < 512" and "mcmpBitmapEnableBit (mt_slots mt) (int k) = Some (bm_mark (mt_slots mt) k)"
    using assms enable_bit [of k "mt_slots mt"] by (auto simp: mt_wf_def bm_mark_def)
  then show ?thesis using next_monitor [OF assms] Some assms
    by (simp add: mcmchMonitorCreate_def mcmchMonitorCreateStatic_def plain_slots.acquire_def mt_wf_def)
qed

definition mt_used :: "monitors \<Rightarrow> nat set" where
  "mt_used mt = plain_slots.used (mt_slots mt)"

lemma mt_used_static: "mt_wf mt \<Longrightarrow> m \<in> mt_used mt \<Longrightarrow> m < 512 \<and> mo_static (mt_table mt ! m)"
  by (auto simp: mt_wf_def mt_used_def plain_slots.used_def)

lemma mt_used_finite: "finite (mt_used mt)"
  by (simp add: mt_used_def plain_slots.finite_used)

lemma monitor_full: "mt_wf mt \<Longrightarrow> card (mt_used mt) = 512 \<Longrightarrow>
    mcmchMonitorCreate mt True handler ctx = Some (mt, MCMPST_OVERFLOW, None)"
  using plain_slots.acquire_full [OF mt_wf_bm [of mt]] monitor_create_runs [of mt] by (simp add: mt_wf_def mt_used_def)

lemma monitor_created:
  assumes "mt_wf mt" "card (mt_used mt) \<noteq> 512"
  shows "\<exists>m mt'. mcmchMonitorCreate mt True handler ctx = Some (mt', MCMPST_SUCCESS, Some m) \<and> mt_wf mt'
     \<and> m < 512 \<and> m \<notin> mt_used mt \<and> {..<m} \<subseteq> mt_used mt \<and> mt_used mt' = insert m (mt_used mt)
     \<and> mt_table mt' = (mt_table mt)[m := \<lparr>mo_static = True, mo_ctx = ctx, mo_beat = handler, mo_running = False\<rparr>]"
proof -
  have lens: "length (mt_slots mt) = 64" "length (mt_table mt) = 512" using assms by (simp_all add: mt_wf_def)
  then obtain k b where acq: "plain_slots.acquire (mt_slots mt) = Some (k, b)"
    using plain_slots.acquire_full [OF mt_wf_bm [OF assms(1)]] assms(2) by (auto simp: mt_used_def)
  note got = plain_slots.acquire_Some [OF mt_wf_bm [OF assms(1)] acq]
  have k: "k < 512" and b: "length b = 64" "b = bm_mark (mt_slots mt) k"
    using got(1,5) acq lens by (auto simp: plain_slots.acquire_def)
  let ?mt' = "\<lparr>mt_slots = b, mt_table = (mt_table mt)[k :=
      \<lparr>mo_static = True, mo_ctx = ctx, mo_beat = handler, mo_running = False\<rparr>]\<rparr>"
  have "mcmchMonitorCreate mt True handler ctx = Some (?mt', MCMPST_SUCCESS, Some k)"
    using monitor_create_runs [OF assms(1)] acq by simp
  moreover have "mt_wf ?mt'"
    using assms k lens b bm_mark_bits(2) [of k "mt_slots mt"] by (auto simp: mt_wf_def nth_list_update)
  ultimately show ?thesis using k got by (auto simp: mt_used_def)
qed

lemma monitor_started:
  assumes "mt_wf mt" "m < 512"
  shows "mt_wf (mcmchMonitorStart mt m)" "mt_used (mcmchMonitorStart mt m) = mt_used mt"
    "mt_table (mcmchMonitorStart mt m) = (mt_table mt)[m := (mt_table mt ! m)\<lparr>mo_running := True\<rparr>]"
  using assms by (auto simp: mcmchMonitorStart_def mt_wf_def mt_used_def nth_list_update)

lemma monitor_destroyed:
  assumes "mt_wf mt" "m \<in> mt_used mt" "mo_running (mt_table mt ! m)"
  shows "\<exists>mt'. mcmchMonitorDestroy mt m = Some (mt', MCMPST_SUCCESS) \<and> mt_wf mt' \<and> mt_used mt' = mt_used mt - {m}
     \<and> mt_table mt' = (mt_table mt)[m := (mt_table mt ! m)\<lparr>mo_running := False\<rparr>]"
proof -
  have m: "m < 512" "mo_static (mt_table mt ! m)" using mt_used_static [OF assms(1,2)] by simp_all
  have lens: "length (mt_slots mt) = 64" "length (mt_table mt) = 512" using assms by (simp_all add: mt_wf_def)
  obtain b where b: "mcmpBitmapDisableBit (mt_slots mt) (int m) = Some b" "b = bm_unmark (mt_slots mt) m"
    using disable_bit [of m "mt_slots mt"] m lens by (auto simp: bm_unmark_def)
  let ?mt' = "\<lparr>mt_slots = b, mt_table = (mt_table mt)[m := (mt_table mt ! m)\<lparr>mo_running := False\<rparr>]\<rparr>"
  have "mcmchMonitorDestroy mt m = Some (?mt', MCMPST_SUCCESS)" using b(1) m lens assms(3) by (simp add: mcmchMonitorDestroy_def)
  moreover have "mt_wf ?mt'"
    using assms(1) m lens b bm_unmark_bits [of m "mt_slots mt"] by (auto simp: mt_wf_def nth_list_update)
  ultimately show ?thesis
    using plain_slots.used_unmark [OF mt_wf_bm [OF assms(1)], of m] m lens b(2) by (auto simp: mt_used_def)
qed

text \<open>
  Creating a static monitor hands out the first free entry of the table, initialised with the handler and context
  and not running, and keeps the table well-formed; it reports MCMPST_OVERFLOW exactly when all 512 are in use. Destroying
  the monitor stops it and frees exactly its entry again.
\<close>

lemma monitor_create_destroy:
  assumes "mt_wf mt"
  shows "if card (plain_slots.used (mt_slots mt)) = 512 then mcmchMonitorCreate mt True handler ctx = Some (mt, MCMPST_OVERFLOW, None)
     else \<exists>m mt' mt''. mcmchMonitorCreate mt True handler ctx = Some (mt', MCMPST_SUCCESS, Some m) \<and> mt_wf mt'
       \<and> m < 512 \<and> m \<notin> plain_slots.used (mt_slots mt) \<and> plain_slots.used (mt_slots mt') = insert m (plain_slots.used (mt_slots mt))
       \<and> mt_table mt' = (mt_table mt)[m := \<lparr>mo_static = True, mo_ctx = ctx, mo_beat = handler, mo_running = False\<rparr>]
       \<and> mcmchMonitorDestroy (mcmchMonitorStart mt' m) m = Some (mt'', MCMPST_SUCCESS)
       \<and> \<not> mo_running (mt_table mt'' ! m) \<and> plain_slots.used (mt_slots mt'') = plain_slots.used (mt_slots mt)"
proof (cases "card (mt_used mt) = 512")
  case True
  then show ?thesis using monitor_full [OF assms] by (simp add: mt_used_def)
next
  case False
  obtain m mt' where new: "mcmchMonitorCreate mt True handler ctx = Some (mt', MCMPST_SUCCESS, Some m)" "mt_wf mt'"
      "m < 512" "m \<notin> mt_used mt" "mt_used mt' = insert m (mt_used mt)"
      "mt_table mt' = (mt_table mt)[m := \<lparr>mo_static = True, mo_ctx = ctx, mo_beat = handler, mo_running = False\<rparr>]"
    using monitor_created [OF assms False, of handler ctx] by blast
  note started = monitor_started [OF new(2,3)]
  have "length (mt_table mt') = 512" using new(2) by (simp add: mt_wf_def)
  then have "mo_running (mt_table (mcmchMonitorStart mt' m) ! m)" using new(3) started(3) by simp
  then obtain mt'' where "mcmchMonitorDestroy (mcmchMonitorStart mt' m) m = Some (mt'', MCMPST_SUCCESS)"
      "mt_used mt'' = mt_used mt" "\<not> mo_running (mt_table mt'' ! m)"
    using monitor_destroyed [OF started(1), of m] started(2,3) new(3-5) \<open>length (mt_table mt') = 512\<close> by fastforce
  then show ?thesis using False new by (auto simp: mt_used_def)
qed

lemma monitor_create_destroy_witness:
  "\<exists>m mt'. mcmchMonitorCreate \<lparr>mt_slots = replicate 64 0, mt_table = replicate 512
      \<lparr>mo_static = False, mo_ctx = 0, mo_beat = 0, mo_running = False\<rparr>\<rparr> True 7 9 = Some (mt', MCMPST_SUCCESS, Some m)"
proof -
  let ?mt = "\<lparr>mt_slots = replicate 64 0, mt_table = replicate 512
      \<lparr>mo_static = False, mo_ctx = 0, mo_beat = 0, mo_running = False\<rparr>\<rparr>"
  have wf: "mt_wf ?mt" by (simp add: mt_wf_def bm_bit_def)
  have "plain_slots.used (mt_slots ?mt) = {}" by (auto simp: plain_slots.used_def bm_bit_def)
  then show ?thesis using monitor_create_destroy [OF wf, of 7 9] by auto
qed

section \<open>The thread of a monitor\<close>

datatype errno = EAGAIN | EINTR | OtherError

text \<open>One turn of the loop: the flag when the loop tests it, what sigwait returns, the flag after that.\<close>

record wake =
  wk_test :: bool
  wk_status :: int
  wk_errno :: errno
  wk_after :: bool

text \<open>The statuses that the handler is called with, in order, until the loop ends or the inputs do.\<close>

fun monitor_handler :: "wake list \<Rightarrow> mcmpst list" where
  "monitor_handler [] = []"
| "monitor_handler (w # ws) =
     (if \<not> wk_test w \<or> \<not> wk_after w then []
      else MCMPST_SUCCESS #
        (if wk_status w = -1 then
           (case wk_errno w of
              EAGAIN \<Rightarrow> MCMPST_OVTIMEOUT # monitor_handler ws
            | EINTR \<Rightarrow> monitor_handler ws
            | OtherError \<Rightarrow> [MCMPST_CRITICAL])
         else monitor_handler ws))"

text \<open>
  As sigwait returns 0 or a positive error number and never -1, the handler is called with MCMPST_SUCCESS once for
  every wake-up until the running flag is found cleared, also for wake-ups that were errors: it is never told of an error.
\<close>

lemma monitor_beats:
  assumes "\<forall>w \<in> set ws. 0 \<le> wk_status w"
  shows "monitor_handler ws = replicate (length (takeWhile (\<lambda>w. wk_test w \<and> wk_after w) ws)) MCMPST_SUCCESS"
  using assms by (induction ws) auto

lemma monitor_beats_witness:
  "monitor_handler [\<lparr>wk_test = True, wk_status = 0, wk_errno = EAGAIN, wk_after = True\<rparr>,
      \<lparr>wk_test = True, wk_status = 22, wk_errno = OtherError, wk_after = True\<rparr>,
      \<lparr>wk_test = True, wk_status = 0, wk_errno = EAGAIN, wk_after = False\<rparr>] = [MCMPST_SUCCESS, MCMPST_SUCCESS]"
  by (subst monitor_beats) (simp_all add: numeral_eq_Suc)

section \<open>The monitor lock\<close>

text \<open>Identities are addresses; \<open>mon\<close> is 0 on a thread that runs no monitor.\<close>

definition monitor_self :: "nat \<Rightarrow> nat \<Rightarrow> nat" where
  "monitor_self main mon = (if mon = 0 then main else mon)"

definition mcmchMonitorLockAcquire :: "nat \<Rightarrow> nat \<Rightarrow> nat \<Rightarrow> nat \<times> mcmpst" where
  "mcmchMonitorLockAcquire main mon lock =
     (if lock = 0 then (monitor_self main mon, MCMPST_SUCCESS) else (lock, MCMPST_NOAVLE))"

definition mcmchMonitorLockRelease :: "nat \<Rightarrow> nat \<Rightarrow> nat \<Rightarrow> nat \<times> mcmpst" where
  "mcmchMonitorLockRelease main mon lock =
     (if lock = monitor_self main mon then (0, MCMPST_SUCCESS) else (lock, MCMPST_NOAVLE))"

text \<open>
  The spinning acquire: \<open>env t\<close> is the word that the attempt \<open>t\<close> meets. Each failed attempt pauses
  \<open>(2 ^ (tries / 2) - 1) mod 1024\<close> times; the shift is undefined from 64 on. The result is the status,
  the word, the number of the last attempt and the number of pauses.
\<close>

function try_acquire_loop ::
  "nat \<Rightarrow> nat \<Rightarrow> (nat \<Rightarrow> nat) \<Rightarrow> nat \<Rightarrow> nat \<Rightarrow> nat \<Rightarrow> (mcmpst \<times> nat \<times> nat \<times> nat) ub" where
  "try_acquire_loop main mon env ntries tries pauses =
     (case mcmchMonitorLockAcquire main mon (env tries) of (lock, st) \<Rightarrow>
        if st = MCMPST_SUCCESS then Some (MCMPST_SUCCESS, lock, tries, pauses)
        else if 64 \<le> tries div 2 then None
        else let pauses' = pauses + (2 ^ (tries div 2) - 1) mod 1024
             in if tries < ntries then try_acquire_loop main mon env ntries (tries + 1) pauses'
                else Some (MCMPST_NOAVLE, lock, tries, pauses'))"
  by pat_completeness auto
termination by (relation "measure (\<lambda>(main, mon, env, ntries, tries, pauses). ntries - tries)") auto

declare try_acquire_loop.simps [simp del]

definition mcmchMonitorLockTryAcquire :: "nat \<Rightarrow> nat \<Rightarrow> (nat \<Rightarrow> nat) \<Rightarrow> nat \<Rightarrow> (mcmpst \<times> nat \<times> nat \<times> nat) ub" where
  "mcmchMonitorLockTryAcquire main mon env ntries = try_acquire_loop main mon env ntries 0 0"

abbreviation pauses_between :: "nat \<Rightarrow> nat \<Rightarrow> nat" where
  "pauses_between a b \<equiv> (\<Sum>t = a..<b. (2 ^ (t div 2) - 1) mod 1024)"

lemma try_acquire_free:
  "(\<forall>t. tries \<le> t \<and> t < j \<longrightarrow> env t \<noteq> 0) \<Longrightarrow> env j = 0 \<Longrightarrow> tries \<le> j \<Longrightarrow> j \<le> ntries \<Longrightarrow> j \<le> 128 \<Longrightarrow>
     try_acquire_loop main mon env ntries tries p
       = Some (MCMPST_SUCCESS, monitor_self main mon, j, p + pauses_between tries j)"
proof (induction "j - tries" arbitrary: tries p)
  case 0
  then show ?case by (simp add: try_acquire_loop.simps [of _ _ _ _ tries] mcmchMonitorLockAcquire_def)
next
  case (Suc n)
  then have "tries < j" "env tries \<noteq> 0" by auto
  with Suc show ?case
    using Suc.hyps(1) [of "Suc tries"]
    by (simp add: try_acquire_loop.simps [of _ _ _ _ tries] mcmchMonitorLockAcquire_def Let_def
        sum.atLeast_Suc_lessThan)
qed

lemma try_acquire_busy:
  "(\<forall>t. tries \<le> t \<and> t \<le> ntries \<longrightarrow> env t \<noteq> 0) \<Longrightarrow> tries \<le> ntries \<Longrightarrow> ntries < 128 \<Longrightarrow>
     try_acquire_loop main mon env ntries tries p
       = Some (MCMPST_NOAVLE, env ntries, ntries, p + pauses_between tries (Suc ntries))"
proof (induction "ntries - tries" arbitrary: tries p)
  case 0
  then show ?case by (simp add: try_acquire_loop.simps [of _ _ _ _ tries] mcmchMonitorLockAcquire_def Let_def)
next
  case (Suc n)
  then have "tries < ntries" "env tries \<noteq> 0" by auto
  with Suc show ?case
    using Suc.hyps(1) [of "Suc tries"]
    by (simp add: try_acquire_loop.simps [of _ _ _ _ tries] mcmchMonitorLockAcquire_def Let_def
        sum.atLeast_Suc_lessThan del: sum.atLeastLessThan_Suc sum.op_ivl_Suc)
qed

lemma try_acquire_overrun:
  "(\<forall>t. tries \<le> t \<and> t \<le> 128 \<longrightarrow> env t \<noteq> 0) \<Longrightarrow> tries \<le> 128 \<Longrightarrow> 128 \<le> ntries \<Longrightarrow>
     try_acquire_loop main mon env ntries tries p = None"
proof (induction "128 - tries" arbitrary: tries p)
  case 0
  then have "tries = 128" by simp
  with 0 show ?case by (simp add: try_acquire_loop.simps [of _ _ _ _ 128] mcmchMonitorLockAcquire_def)
next
  case (Suc n)
  then have "tries < 128" "env tries \<noteq> 0" by auto
  with Suc show ?case
    using Suc.hyps(1) [of "Suc tries"]
    by (simp add: try_acquire_loop.simps [of _ _ _ _ tries] mcmchMonitorLockAcquire_def Let_def)
qed

lemma pauses_bound: "pauses_between a b \<le> 1023 * (b - a)"
proof -
  have "pauses_between a b \<le> (\<Sum>t = a..<b. 1023)"
    by (rule sum_mono) (use mod_less_divisor [of 1024] in \<open>fastforce simp: less_Suc_eq_le [symmetric]\<close>)
  then show ?thesis by simp
qed

text \<open>
  A spinning acquire of \<open>ntries\<close> below 128 returns after at most \<open>ntries + 1\<close> attempts and at most 1023 pauses for
  each: with MCMPST_SUCCESS and the lock taken at the first attempt that meets a free word, and with MCMPST_NOAVLE when
  none does; from 128 on, an attempt past the first 128 failures shifts by 64, which is undefined.
\<close>

lemma try_acquire:
  shows "(ntries < 128 \<longrightarrow> (\<exists>st lock n pauses. mcmchMonitorLockTryAcquire main mon env ntries = Some (st, lock, n, pauses)
      \<and> n \<le> ntries \<and> pauses \<le> 1023 * (ntries + 1)
      \<and> (if \<forall>t \<le> ntries. env t \<noteq> 0 then st = MCMPST_NOAVLE \<and> n = ntries
          else st = MCMPST_SUCCESS \<and> lock = monitor_self main mon \<and> env n = 0 \<and> (\<forall>t < n. env t \<noteq> 0))))
    \<and> (128 \<le> ntries \<and> (\<forall>t \<le> 128. env t \<noteq> 0) \<longrightarrow> mcmchMonitorLockTryAcquire main mon env ntries = None)"
proof (cases "\<forall>t \<le> ntries. env t \<noteq> 0")
  case True
  then show ?thesis
    using try_acquire_busy [of 0 ntries env main mon 0] try_acquire_overrun [of 0 env ntries main mon 0]
      pauses_bound [of 0 "Suc ntries"]
    by (auto simp: mcmchMonitorLockTryAcquire_def simp del: sum.atLeastLessThan_Suc sum.op_ivl_Suc)
next
  case False
  define j where "j = (LEAST t. env t = 0)"
  from False have j: "env j = 0" "\<forall>t < j. env t \<noteq> 0" "j \<le> ntries"
    unfolding j_def by (auto intro: LeastI dest: not_less_Least intro: Least_le order_trans)
  have "pauses_between 0 j \<le> 1023 * (ntries + 1)"
    by (rule order_trans [OF pauses_bound]) (use j(3) in simp)
  then show ?thesis
    using try_acquire_free [of 0 j env ntries main mon 0] try_acquire_overrun [of 0 env ntries main mon 0] j False
    by (auto simp: mcmchMonitorLockTryAcquire_def)
qed

lemma try_acquire_witness:
  "(\<exists>lock n pauses. mcmchMonitorLockTryAcquire 1 0 (\<lambda>t. if t = 6 then 0 else 5) 10
      = Some (MCMPST_SUCCESS, lock, n, pauses) \<and> lock = 1)
    \<and> mcmchMonitorLockTryAcquire 1 0 (\<lambda>_. 5) 200 = None"
  using try_acquire [of 10 1 0 "\<lambda>t. if t = 6 then 0 else 5"] try_acquire [of 200 1 0 "\<lambda>_. 5"]
  by (auto simp: monitor_self_def)

text \<open>
  Threads that call acquire and release at any time, also release without holding; \<open>ml_in\<close> is which of
  them has acquired and not released since.
\<close>

record mlock =
  ml_word :: nat
  ml_in :: "nat \<Rightarrow> bool"

inductive mlock_move :: "nat \<Rightarrow> (nat \<Rightarrow> nat) \<Rightarrow> nat \<Rightarrow> mlock \<Rightarrow> mlock \<Rightarrow> bool" for main mon i where
  acquire: "mcmchMonitorLockAcquire main (mon i) (ml_word s) = (w, st) \<Longrightarrow> \<not> ml_in s i \<Longrightarrow>
     mlock_move main mon i s (s\<lparr>ml_word := w, ml_in := (ml_in s)(i := (st = MCMPST_SUCCESS))\<rparr>)"
| release: "mcmchMonitorLockRelease main (mon i) (ml_word s) = (w, st) \<Longrightarrow>
     mlock_move main mon i s (s\<lparr>ml_word := w, ml_in := (ml_in s)(i := ml_in s i \<and> st \<noteq> MCMPST_SUCCESS)\<rparr>)"

inductive_simps mlock_move_simps: "mlock_move main mon i s s'"

definition mlock_step :: "nat \<Rightarrow> (nat \<Rightarrow> nat) \<Rightarrow> mlock \<Rightarrow> mlock \<Rightarrow> bool" where
  "mlock_step main mon s s' \<longleftrightarrow> (\<exists>i. mlock_move main mon i s s')"

definition mlock_init :: "mlock \<Rightarrow> bool" where
  "mlock_init s \<longleftrightarrow> ml_word s = 0 \<and> (\<forall>i. \<not> ml_in s i)"

definition identified :: "nat \<Rightarrow> (nat \<Rightarrow> nat) \<Rightarrow> bool" where
  "identified main mon \<longleftrightarrow> main \<noteq> 0 \<and> inj (\<lambda>i. monitor_self main (mon i))"

definition mlock_inv :: "nat \<Rightarrow> (nat \<Rightarrow> nat) \<Rightarrow> mlock \<Rightarrow> bool" where
  "mlock_inv main mon s \<longleftrightarrow> (identified main mon \<longrightarrow> (\<forall>i. ml_in s i \<longrightarrow> ml_word s = monitor_self main (mon i)))"

lemma mlock_move_inv:
  assumes "mlock_move main mon i s s'" "mlock_inv main mon s"
  shows "mlock_inv main mon s'"
proof (cases "identified main mon")
  case True
  then have self: "monitor_self main (mon j) \<noteq> 0" and inj: "monitor_self main (mon j) = monitor_self main (mon k) \<longleftrightarrow> j = k" for j k
    using inj_eq [of "\<lambda>i. monitor_self main (mon i)" j k]
    by (simp_all add: identified_def) (simp add: monitor_self_def)
  note self [simp] inj [simp]
  show ?thesis using assms True
    by (auto simp: mlock_inv_def mlock_move_simps mcmchMonitorLockAcquire_def mcmchMonitorLockRelease_def split: if_splits)
qed (simp add: mlock_inv_def)

interpretation mlock: invariant_system mlock_init "mlock_step main mon" "mlock_inv main mon" for main mon
  by unfold_locales (auto simp: mlock_step_def mlock_init_def mlock_inv_def dest: mlock_move_inv)

text \<open>
  C35: When the identities of the threads differ (at most one of them runs no monitor), the monitor lock excludes: in every
  interleaving of acquires and releases, stray releases included, at most one thread is between its acquire and release.
\<close>

theorem monitor_lock_exclusive:
  assumes "identified main mon" "reachable mlock_init (mlock_step main mon) s" "ml_in s i" "ml_in s j"
  shows "i = j"
proof -
  have "mlock_inv main mon s" by (rule mlock.reach_inv [OF assms(2)])
  then have "monitor_self main (mon i) = monitor_self main (mon j)" using assms(1,3,4) by (metis mlock_inv_def)
  then show ?thesis using assms(1) by (auto simp: identified_def dest: injD)
qed

text \<open>
  Two threads that run no monitor share an identity, and the lock does not exclude them: the release of one frees the
  lock that the other holds, after which both can hold it.
\<close>

lemma monitor_lock_shared_identity:
  "\<exists>s. reachable mlock_init (mlock_step 1 (\<lambda>_. 0)) s \<and> ml_in s 0 \<and> ml_in s 1"
proof -
  let ?s0 = "\<lparr>ml_word = 0, ml_in = \<lambda>_. False\<rparr>"
  let ?s1 = "\<lparr>ml_word = 1, ml_in = (\<lambda>_. False)(0 := True)\<rparr>"
  let ?s2 = "\<lparr>ml_word = 0, ml_in = (\<lambda>_. False)(0 := True)\<rparr>"
  let ?s3 = "\<lparr>ml_word = 1, ml_in = (\<lambda>_. False)(0 := True, 1 := True)\<rparr>"
  have "mlock_init ?s0" by (simp add: mlock_init_def)
  moreover have "mlock_move 1 (\<lambda>_. 0) 0 ?s0 ?s1"
    by (auto simp: mlock_move_simps mcmchMonitorLockAcquire_def monitor_self_def)
  moreover have "mlock_move 1 (\<lambda>_. 0) 1 ?s1 ?s2"
    by (auto simp: mlock_move_simps mcmchMonitorLockRelease_def monitor_self_def fun_eq_iff)
  moreover have "mlock_move 1 (\<lambda>_. 0) 1 ?s2 ?s3"
    by (auto simp: mlock_move_simps mcmchMonitorLockAcquire_def monitor_self_def)
  ultimately have "reachable mlock_init (mlock_step 1 (\<lambda>_. 0)) ?s3"
    by (meson mlock_step_def reachable.start reachable.step)
  then show ?thesis by (intro exI [of _ ?s3]) simp
qed

text \<open>Thread 0 runs the monitor 7 and holds the lock.\<close>

definition sample_mon :: "nat \<Rightarrow> nat" where
  "sample_mon i = (if i = 0 then 7 else i + 10)"

definition sample_mlock :: mlock where
  "sample_mlock = \<lparr>ml_word = 7, ml_in = (\<lambda>_. False)(0 := True)\<rparr>"

lemma sample_mon_identified: "identified 1 sample_mon"
  by (auto simp: identified_def monitor_self_def inj_def sample_mon_def)

lemma sample_mlock_reachable: "reachable mlock_init (mlock_step 1 sample_mon) sample_mlock"
proof -
  let ?s0 = "\<lparr>ml_word = 0, ml_in = \<lambda>_. False\<rparr>"
  have "mlock_init ?s0" by (simp add: mlock_init_def)
  moreover have "mlock_move 1 sample_mon 0 ?s0 sample_mlock"
    by (auto simp: mlock_move_simps mcmchMonitorLockAcquire_def monitor_self_def sample_mlock_def sample_mon_def)
  ultimately show ?thesis by (meson mlock_step_def reachable.start reachable.step)
qed

theorem monitor_lock_exclusive_witness: "{j. ml_in sample_mlock j} = {0}"
proof -
  have "ml_in sample_mlock 0" by (simp add: sample_mlock_def)
  then show ?thesis
    using monitor_lock_exclusive [OF sample_mon_identified sample_mlock_reachable] by blast
qed

end
