(* ===== verification/Heartbeat.thy ===== *)
theory Heartbeat
  imports Client_Table Monitor
begin

text \<open>
  The heartbeat of \<^verbatim>\<open>server/src/common/heartbeat.c\<close>: a call marks the clients that gave no sign of life since
  the last one in a bitmap, the server later drops what is marked. Whether a client is alive and the
  clearing of that mark are macros that the repository does not define: the parameters \<open>alive\<close> and
  \<open>clear\<close>. The lock word and the flags are those of the heartbeat's header.
\<close>

unbundle bit_operations_syntax

record heartbeat =
  hb_monitor :: "nat option"
  hb_lock :: nat
  hb_flags :: byte
  hb_bitmap :: "byte list"

text \<open>
  Creation writes neither the lock word nor, when the monitor table refuses, the monitor: \<open>junk\<close> is what
  \<^verbatim>\<open>malloc\<close> left in the lock, and no monitor is \<open>None\<close>. The status of the monitor's creation is ignored.
\<close>

definition mcmchHeartbeatCreateInstance ::
  "bool \<Rightarrow> nat \<Rightarrow> nat \<Rightarrow> bool \<Rightarrow> nat \<Rightarrow> nat \<Rightarrow> monitors \<Rightarrow> (monitors \<times> (mcmpst + heartbeat)) ub" where
  "mcmchHeartbeatCreateInstance malloc_ok junk blen pool_null handler ctx mt =
     (if \<not> malloc_ok then Some (mt, Inl MCMPST_OUT_OF_MEM)
      else do {
        (mt', st, monitor) \<leftarrow> mcmchMonitorCreate mt pool_null handler ctx;
        Some (mt', Inr \<lparr>hb_monitor = monitor, hb_lock = junk, hb_flags = 0, hb_bitmap = replicate blen 0\<rparr>) })"

definition mcmchHeartbeatDestroyInstance :: "monitors \<Rightarrow> heartbeat \<Rightarrow> (monitors \<times> mcmpst) ub" where
  "mcmchHeartbeatDestroyInstance mt hb = do {
     m \<leftarrow> hb_monitor hb;
     (mt', _) \<leftarrow> mcmchMonitorDestroy mt m;
     Some (mt', MCMPST_SUCCESS) }"

section \<open>A beat\<close>

definition call_body :: "('c \<Rightarrow> bool) \<Rightarrow> ('c \<Rightarrow> 'c) \<Rightarrow> 'c client_table \<times> byte list \<Rightarrow> bitidx
    \<Rightarrow> (('c client_table \<times> byte list) \<times> bool) ub" where
  "call_body alive clear s slot = (case s of (cb, res) \<Rightarrow> do {
     client \<leftarrow> client_at cb slot;
     (if \<not> alive client then do { res' \<leftarrow> mcmpBitmapEnableBit res slot; Some ((cb, res'), True) }
      else Some ((cb\<lparr>cb_clients := (cb_clients cb)[nat slot := clear client]\<rparr>, res), True)) })"

definition mcmchHeartbeatCall ::
  "('c \<Rightarrow> bool) \<Rightarrow> ('c \<Rightarrow> 'c) \<Rightarrow> 'c client_table \<Rightarrow> byte list \<Rightarrow> ('c client_table \<times> byte list) ub" where
  "mcmchHeartbeatCall alive clear cb res = sweep next_used (call_body alive clear) (cb, res) 0"

section \<open>Dropping what a beat marked\<close>

text \<open>The flag macros on the \<open>uint8_t\<close> of the header.\<close>

definition hb_available :: "heartbeat \<Rightarrow> bool ub" where
  "hb_available hb = hasflag (ucast (hb_flags hb)) 1"

definition hb_clear_available :: "heartbeat \<Rightarrow> heartbeat ub" where
  "hb_clear_available hb = do { f \<leftarrow> clearflag (ucast (hb_flags hb)) 1; Some (hb\<lparr>hb_flags := ucast f\<rparr>) }"

text \<open>
  The body of the loop closes and deletes the client before it clears the bit; the client it uses is the
  null pointer, \<open>None\<close>.
\<close>

definition drop_body :: "unit option \<Rightarrow> byte list \<Rightarrow> bitidx \<Rightarrow> (byte list \<times> bool) ub" where
  "drop_body client bm slot = do { _ \<leftarrow> client; bm' \<leftarrow> mcmpBitmapDisableBit bm slot; Some (bm', True) }"

text \<open>
  The last path of the function falls off its end: the status is \<open>None\<close>. \<open>env\<close> is the lock word that each attempt
  to lock meets, \<open>blen\<close> the bitmap length of the broadcast.
\<close>

definition mcmchHeartbeatProcessIfAvaible ::
  "nat \<Rightarrow> nat \<Rightarrow> (nat \<Rightarrow> nat) \<Rightarrow> nat \<Rightarrow> heartbeat \<Rightarrow> (heartbeat \<times> mcmpst option) ub" where
  "mcmchHeartbeatProcessIfAvaible main mon env blen hb = do {
     (st, lock, _) \<leftarrow> mcmchMonitorLockTryAcquire main mon env 16;
     (if st \<noteq> MCMPST_SUCCESS then Some (hb\<lparr>hb_lock := lock\<rparr>, Some MCMPST_NOAVLE)
      else do {
        available \<leftarrow> hb_available hb;
        (if \<not> available
         then Some (hb\<lparr>hb_lock := fst (mcmchMonitorLockRelease main mon lock)\<rparr>, Some MCMPST_NOT_IMPLEMENTED)
         else do {
           bm \<leftarrow> sweep (\<lambda>bm off. mcmpBitmapNextOccupiedBit bm off blen) (drop_body None) (hb_bitmap hb) 0;
           hb' \<leftarrow> hb_clear_available (hb\<lparr>hb_bitmap := bm\<rparr>);
           Some (hb'\<lparr>hb_lock := fst (mcmchMonitorLockRelease main mon lock)\<rparr>, None) }) }) }"

section \<open>What a beat marks\<close>

definition beat_ok :: "nat \<Rightarrow> 'c client_table \<times> byte list \<Rightarrow> bool" where
  "beat_ok n s \<longleftrightarrow> table_ok n s \<and> length (snd s) = n"

definition call_act :: "('c \<Rightarrow> bool) \<Rightarrow> ('c \<Rightarrow> 'c) \<Rightarrow> 'c client_table \<times> byte list \<Rightarrow> nat
    \<Rightarrow> ('c client_table \<times> byte list) \<times> bool" where
  "call_act alive clear s k =
     (if \<not> alive (cb_clients (fst s) ! k) then ((fst s, bm_mark (snd s) k), True)
      else ((fst s\<lparr>cb_clients := (cb_clients (fst s))[k := clear (cb_clients (fst s) ! k)]\<rparr>, snd s), True))"

lemma call_act_facts:
  assumes "beat_ok n s" "k < 8 * n" "s' = fst (call_act alive clear s k)"
  shows "beat_ok n s'" "cb_bitmap (fst s') = cb_bitmap (fst s)" "cb_length (fst s') = cb_length (fst s)"
    "bm_bit (snd s') j \<longleftrightarrow> bm_bit (snd s) j \<or> j = k \<and> \<not> alive (cb_clients (fst s) ! k)"
    "cb_clients (fst s') = (if alive (cb_clients (fst s) ! k)
       then (cb_clients (fst s))[k := clear (cb_clients (fst s) ! k)] else cb_clients (fst s))"
  using assms bm_mark_bits [of k "snd s"]
  by (auto simp: call_act_def beat_ok_def table_ok_def ct_inv_def ct_wf_def ct_used_def)

interpretation beat: sweeping "beat_ok n" in_use n next_used "call_body alive clear" "call_act alive clear"
  for n :: nat and alive :: "'c \<Rightarrow> bool" and clear :: "'c \<Rightarrow> 'c"
proof
  fix s s' :: "'c client_table \<times> byte list" and off k j :: nat and more
  assume beat: "beat_ok n s"
  then have ok: "table_ok n s" and len: "length (snd s) = n" by (simp_all add: beat_ok_def)
  show "off \<le> 8 * n \<Longrightarrow> next_used s (int off) = Some (first_hit (in_use s) off n)" by (rule next_used_first [OF ok])
  assume hit: "in_use s k"
  show "k < 8 * n \<Longrightarrow> call_body alive clear s (int k) = Some (call_act alive clear s k)"
  proof -
    assume k: "k < 8 * n"
    obtain bm where "mcmpBitmapEnableBit (snd s) (int k) = Some bm" using enable_bit [of k "snd s"] k len by blast
    then show ?thesis using hit_in_range(3) [OF ok k hit] by (cases s) (simp add: call_body_def call_act_def bm_mark_def)
  qed
  assume "call_act alive clear s k = (s', more)"
  then have s': "s' = fst (call_act alive clear s k)" by simp
  show "k < 8 * n \<Longrightarrow> beat_ok n s'" by (rule call_act_facts(1) [OF beat _ s'])
  show "k < j \<Longrightarrow> j < 8 * n \<Longrightarrow> in_use s' j \<longleftrightarrow> in_use s j"
    using call_act_facts(2) [OF beat _ s'] by (simp add: in_use_def)
qed

lemma beat_fold:
  "beat_ok n s \<Longrightarrow> distinct ks \<Longrightarrow> set ks \<subseteq> {..<8 * n} \<Longrightarrow> fold_until (beat.visit alive clear) ks s = s' \<Longrightarrow>
     beat_ok n s' \<and> cb_bitmap (fst s') = cb_bitmap (fst s) \<and> cb_length (fst s') = cb_length (fst s)
       \<and> (\<forall>j. bm_bit (snd s') j \<longleftrightarrow> bm_bit (snd s) j \<or> j \<in> set ks \<and> in_use s j \<and> \<not> alive (cb_clients (fst s) ! j))
       \<and> (\<forall>j < cb_length (fst s). cb_clients (fst s') ! j =
            (if j \<in> set ks \<and> in_use s j \<and> alive (cb_clients (fst s) ! j) then clear (cb_clients (fst s) ! j) else cb_clients (fst s) ! j))"
proof (induction ks arbitrary: s)
  case (Cons k ks)
  obtain s1 where visit: "beat.visit alive clear s k = (s1, True)"
      and s1: "s1 = (if in_use s k then fst (call_act alive clear s k) else s)"
    by (auto simp: beat.visit_def call_act_def)
  have k: "k < 8 * n" using Cons.prems(3) by simp
  note facts = call_act_facts [OF Cons.prems(1) k refl, of alive clear]
  have ok: "beat_ok n s1" and same: "cb_bitmap (fst s1) = cb_bitmap (fst s)" "cb_length (fst s1) = cb_length (fst s)"
    using facts(1-3) Cons.prems(1) by (simp_all add: s1)
  have marks: "bm_bit (snd s1) j \<longleftrightarrow> bm_bit (snd s) j \<or> j = k \<and> in_use s k \<and> \<not> alive (cb_clients (fst s) ! k)" for j
    using facts(4) by (auto simp: s1)
  have clients: "cb_clients (fst s1) = (if in_use s k \<and> alive (cb_clients (fst s) ! k)
       then (cb_clients (fst s))[k := clear (cb_clients (fst s) ! k)] else cb_clients (fst s))"
    using facts(5) by (simp add: s1)
  have use: "in_use s1 = in_use s" by (simp add: in_use_def [abs_def] same)
  have len: "length (cb_clients (fst s)) = cb_length (fst s)"
    using Cons.prems(1) by (simp add: beat_ok_def table_ok_def ct_inv_def ct_wf_def)
  have step: "fold_until (beat.visit alive clear) ks s1 = s'" using Cons.prems(4) visit by simp
  have nth: "cb_clients (fst s1) ! j = (if j = k \<and> in_use s k \<and> alive (cb_clients (fst s) ! k)
       then clear (cb_clients (fst s) ! k) else cb_clients (fst s) ! j)" if "j < cb_length (fst s)" for j
    using that len by (auto simp: clients nth_list_update)
  have rest: "j \<in> set ks \<Longrightarrow> cb_clients (fst s1) ! j = cb_clients (fst s) ! j" for j
    using Cons.prems(2) by (cases "j = k") (auto simp: clients)
  have "distinct ks" "set ks \<subseteq> {..<8 * n}" using Cons.prems(2,3) by auto
  note IH = Cons.IH [OF ok this step, unfolded use same]
  have "bm_bit (snd s') j \<longleftrightarrow> bm_bit (snd s) j \<or> j \<in> set (k # ks) \<and> in_use s j \<and> \<not> alive (cb_clients (fst s) ! j)" for j
    using IH marks [of j] rest [of j] by auto
  moreover have "cb_clients (fst s') ! j = (if j \<in> set (k # ks) \<and> in_use s j \<and> alive (cb_clients (fst s) ! j)
      then clear (cb_clients (fst s) ! j) else cb_clients (fst s) ! j)" if "j < cb_length (fst s)" for j
    using IH that nth [OF that] rest [of j] Cons.prems(2) by auto
  ultimately show ?case using IH by simp
qed simp

lemma heartbeat_call_marks:
  assumes "ct_inv cb" "length res = cb_bitmap_length cb"
  shows "\<exists>cb' res'. mcmchHeartbeatCall alive clear cb res = Some (cb', res') \<and> ct_inv cb' \<and> length res' = length res
     \<and> cb_bitmap_length cb' = cb_bitmap_length cb \<and> cb_length cb' = cb_length cb \<and> ct_used cb' = ct_used cb
     \<and> (\<forall>k. bm_bit res' k \<longleftrightarrow> bm_bit res k \<or> k \<in> ct_used cb \<and> \<not> alive (cb_clients cb ! k))
     \<and> (\<forall>k < cb_length cb. cb_clients cb' ! k =
          (if k \<in> ct_used cb \<and> alive (cb_clients cb ! k) then clear (cb_clients cb ! k) else cb_clients cb ! k))"
proof -
  define n where "n = cb_bitmap_length cb"
  have ok: "beat_ok n (cb, res)" using assms by (simp add: beat_ok_def table_ok_def n_def)
  obtain s where s: "fold_until (beat.visit alive clear) [0..<8 * n] (cb, res) = s" by blast
  have run: "mcmchHeartbeatCall alive clear cb res = Some s"
    using beat.sweep_is_fold [OF ok, of 0 alive clear] s by (simp add: mcmchHeartbeatCall_def)
  have used: "k \<in> ct_used cb \<longleftrightarrow> k < 8 * n \<and> in_use (cb, res) k" for k
    using assms by (auto simp: ct_used_iff in_use_def ct_inv_def ct_wf_def n_def)
  have sub: "set [0..<8 * n] \<subseteq> {..<8 * n}" by auto
  note fold = beat_fold [OF ok distinct_upt sub s]
  then have "ct_inv (fst s)" "length (snd s) = length res" "cb_bitmap_length (fst s) = cb_bitmap_length cb"
      "cb_length (fst s) = cb_length cb" "ct_used (fst s) = ct_used cb"
    using assms by (auto simp: beat_ok_def table_ok_def n_def ct_used_def)
  moreover have "\<forall>k. bm_bit (snd s) k \<longleftrightarrow> bm_bit res k \<or> k \<in> ct_used cb \<and> \<not> alive (cb_clients cb ! k)"
    using fold by (auto simp: used)
  moreover have "\<forall>k < cb_length cb. cb_clients (fst s) ! k =
          (if k \<in> ct_used cb \<and> alive (cb_clients cb ! k) then clear (cb_clients cb ! k) else cb_clients cb ! k)"
    using fold by (auto simp: used)
  ultimately show ?thesis using run by (intro exI [of _ "fst s"] exI [of _ "snd s"]) simp
qed

text \<open>Between two beats the clients of \<open>A\<close> give a sign of life.\<close>

definition awake :: "('c \<Rightarrow> 'c) \<Rightarrow> nat set \<Rightarrow> 'c client_table \<Rightarrow> 'c client_table" where
  "awake wake A cb = cb\<lparr>cb_clients :=
     map (\<lambda>k. if k \<in> A then wake (cb_clients cb ! k) else cb_clients cb ! k) [0..<cb_length cb]\<rparr>"

lemma awake_facts [simp]:
  "ct_inv cb \<Longrightarrow> ct_inv (awake wake A cb)" "ct_used (awake wake A cb) = ct_used cb"
  "cb_length (awake wake A cb) = cb_length cb" "cb_bitmap_length (awake wake A cb) = cb_bitmap_length cb"
  "k < cb_length cb \<Longrightarrow> cb_clients (awake wake A cb) ! k = (if k \<in> A then wake (cb_clients cb ! k) else cb_clients cb ! k)"
  by (simp_all add: awake_def ct_inv_def ct_wf_def ct_used_def)

text \<open>
  A beat adds exactly the clients in use that were not alive to the result, and a second beat exactly those that gave no
  sign of life since the first: after two beats a client in use is marked unless it was alive at the first one and
  woke up between the two. The table keeps its slots, and slots not in use are never marked.
\<close>

lemma heartbeat_two_beats:
  assumes "ct_inv cb" "length res = cb_bitmap_length cb" "\<forall>c. \<not> alive (clear c)" "\<forall>c. alive (wake c)"
  shows "\<exists>cb1 res1 cb2 res2. mcmchHeartbeatCall alive clear cb res = Some (cb1, res1)
     \<and> mcmchHeartbeatCall alive clear (awake wake A cb1) res1 = Some (cb2, res2)
     \<and> ct_used cb2 = ct_used cb \<and> ct_inv cb2
     \<and> (\<forall>k. bm_bit res1 k \<longleftrightarrow> bm_bit res k \<or> k \<in> ct_used cb \<and> \<not> alive (cb_clients cb ! k))
     \<and> (\<forall>k. bm_bit res2 k \<longleftrightarrow> bm_bit res k \<or> k \<in> ct_used cb \<and> \<not> (alive (cb_clients cb ! k) \<and> k \<in> A))"
proof -
  obtain cb1 res1 where first: "mcmchHeartbeatCall alive clear cb res = Some (cb1, res1)" "ct_inv cb1"
      "length res1 = length res" "cb_bitmap_length cb1 = cb_bitmap_length cb" "cb_length cb1 = cb_length cb" "ct_used cb1 = ct_used cb"
      "\<forall>k. bm_bit res1 k \<longleftrightarrow> bm_bit res k \<or> k \<in> ct_used cb \<and> \<not> alive (cb_clients cb ! k)"
      "\<forall>k < cb_length cb. cb_clients cb1 ! k =
          (if k \<in> ct_used cb \<and> alive (cb_clients cb ! k) then clear (cb_clients cb ! k) else cb_clients cb ! k)"
    using heartbeat_call_marks [OF assms(1,2), of alive clear] by auto
  have inv: "ct_inv (awake wake A cb1)" "length res1 = cb_bitmap_length (awake wake A cb1)"
    using first(2-4) assms(2) by simp_all
  have used: "k < cb_length cb" if "k \<in> ct_used cb" for k using that assms(1) by (auto simp: ct_inv_def)
  have "alive (cb_clients (awake wake A cb1) ! k) \<longleftrightarrow> k \<in> A" if "k \<in> ct_used cb" for k
    using first(5,8) used [OF that] that assms(3,4) by (auto split: if_splits)
  moreover obtain cb2 res2 where "mcmchHeartbeatCall alive clear (awake wake A cb1) res1 = Some (cb2, res2)"
      "ct_inv cb2" "ct_used cb2 = ct_used cb"
      "\<forall>k. bm_bit res2 k \<longleftrightarrow> bm_bit res1 k \<or> k \<in> ct_used cb \<and> \<not> alive (cb_clients (awake wake A cb1) ! k)"
    using heartbeat_call_marks [OF inv, of alive clear] first(6) by auto
  ultimately show ?thesis using first(1,7) by (intro exI [of _ cb1] exI [of _ res1] exI [of _ cb2] exI [of _ res2]) auto
qed

lemma heartbeat_two_beats_witness:
  "\<exists>cb1 res1 cb2 res2. mcmchHeartbeatCall (\<lambda>c. c \<noteq> 0) (\<lambda>_. 0) sample_table [0] = Some (cb1, res1)
     \<and> mcmchHeartbeatCall (\<lambda>c. c \<noteq> 0) (\<lambda>_. 0) (awake (\<lambda>_. 9) {} cb1) res1 = Some (cb2, res2)
     \<and> \<not> bm_bit res1 0 \<and> bm_bit res2 0"
  using heartbeat_two_beats [of sample_table "[0]" "\<lambda>c. c \<noteq> 0" "\<lambda>_. 0" "\<lambda>_. 9" "{}"] sample_table_used
  by (auto simp: sample_table_def bm_bit_def [of "[0]"])

section \<open>The server's side\<close>

lemma hb_available_bit: "hb_available hb = Some (bit (hb_flags hb) 1)"
  by (simp add: hb_available_def hasflag_bit bit_ucast_iff)

lemma drop_loop:
  assumes "blen \<le> length bm" "8 * blen \<le> 2 ^ 63"
  shows "sweep (\<lambda>bm off. mcmpBitmapNextOccupiedBit bm off blen) (drop_body None) bm 0
     = (if \<exists>k < 8 * blen. bm_bit bm k then None else Some bm)"
proof -
  let ?r = "first_hit (bm_bit bm) 0 blen"
  have "mcmpBitmapNextOccupiedBit bm 0 blen = Some ?r"
    using next_occupied_ok [OF assms, of 0] by (simp add: next_bit_spec_def)
  moreover have "?r = -1 \<longleftrightarrow> \<not> (\<exists>k < 8 * blen. bm_bit bm k)" by (auto simp: first_hit_None)
  ultimately show ?thesis by (simp add: sweep.simps [of _ _ _ 0] drop_body_def)
qed

text \<open>
  C38: The server's processing of a heartbeat: when all 17 attempts find the lock taken it reports MCMPST_NOAVLE; with
  the lock but no finished beat it releases the lock and reports MCMPST_NOT_IMPLEMENTED; after a beat that marked no
  client it clears the flag, releases the lock and returns no status; and after a beat that marked any client it
  dereferences a null client instead of dropping it.
\<close>

theorem heartbeat_process:
  assumes "blen \<le> length (hb_bitmap hb)" "8 * blen \<le> 2 ^ 63"
  shows "mcmchHeartbeatProcessIfAvaible main mon env blen hb =
     (if \<forall>t \<le> 16. env t \<noteq> 0 then Some (hb\<lparr>hb_lock := env 16\<rparr>, Some MCMPST_NOAVLE)
      else if \<not> bit (hb_flags hb) 1 then Some (hb\<lparr>hb_lock := 0\<rparr>, Some MCMPST_NOT_IMPLEMENTED)
      else if \<exists>k < 8 * blen. bm_bit (hb_bitmap hb) k then None
      else Some (hb\<lparr>hb_lock := 0, hb_flags := hb_flags hb AND NOT 2\<rparr>, None))"
proof (cases "\<forall>t \<le> 16. env t \<noteq> 0")
  case True
  then have "mcmchMonitorLockTryAcquire main mon env 16 = Some (MCMPST_NOAVLE, env 16, 16, pauses_between 0 (Suc 16))"
    using try_acquire_busy [of 0 16 env main mon 0] by (simp add: mcmchMonitorLockTryAcquire_def)
  then show ?thesis using True by (simp add: mcmchHeartbeatProcessIfAvaible_def)
next
  case False
  define j where "j = (LEAST t. env t = 0)"
  from False have j: "env j = 0" "\<forall>t < j. env t \<noteq> 0" "j \<le> 16"
    unfolding j_def by (auto intro: LeastI dest: not_less_Least intro: Least_le order_trans)
  have acq: "mcmchMonitorLockTryAcquire main mon env 16 = Some (MCMPST_SUCCESS, monitor_self main mon, j, pauses_between 0 j)"
    using try_acquire_free [of 0 j env 16 main mon 0] j by (simp add: mcmchMonitorLockTryAcquire_def)
  have "clearflag (ucast (hb_flags hb)) 1 = Some (ucast (hb_flags hb) AND word_of_int (NOT 2))"
    by (simp add: clearflag_def c_shl1_def)
  moreover have "ucast (ucast (hb_flags hb) AND word_of_int (NOT 2) :: 32 word) = hb_flags hb AND NOT 2"
    by (rule bit_word_eqI) (auto simp: bit_simps)
  ultimately have "hb_clear_available hb' = Some (hb'\<lparr>hb_flags := hb_flags hb AND NOT 2\<rparr>)" if "hb_flags hb' = hb_flags hb" for hb'
    using that by (simp add: hb_clear_available_def)
  then show ?thesis
    using False acq drop_loop [OF assms]
    by (cases "\<exists>k < 8 * blen. bm_bit (hb_bitmap hb) k") (auto simp: mcmchHeartbeatProcessIfAvaible_def mcmchMonitorLockRelease_def hb_available_bit)
qed

theorem heartbeat_process_witness:
  "mcmchHeartbeatProcessIfAvaible 1 0 (\<lambda>_. 0) 1 \<lparr>hb_monitor = None, hb_lock = 0, hb_flags = 2, hb_bitmap = [4]\<rparr> = None"
proof -
  have "\<exists>k < 8. bm_bit [4] k" by (intro exI [of _ 2]) (simp add: bm_bit_def)
  then show ?thesis
    using heartbeat_process [of 1 "\<lparr>hb_monitor = None, hb_lock = 0, hb_flags = 2, hb_bitmap = [4]\<rparr>" 1 0 "\<lambda>_. 0"] by auto
qed

text \<open>
  A heartbeat as its creation leaves it cannot be destroyed, whether its monitor could be created or not: no thread was
  started for it. Its lock word is whatever the memory held, and unless that is 0 the server finds the heartbeat locked for ever.
\<close>

lemma heartbeat_fresh:
  assumes "mt_wf mt"
  shows "\<exists>mt' hb. mcmchHeartbeatCreateInstance True junk blen pool_null handler ctx mt = Some (mt', Inr hb)
     \<and> mcmchHeartbeatDestroyInstance mt' hb = None
     \<and> (junk = 0 \<or> mcmchHeartbeatProcessIfAvaible main mon (\<lambda>_. hb_lock hb) n hb = Some (hb, Some MCMPST_NOAVLE))"
proof -
  have busy: "junk = 0 \<or> mcmchHeartbeatProcessIfAvaible main mon (\<lambda>_. junk) n hb = Some (hb, Some MCMPST_NOAVLE)"
    if "hb_lock hb = junk" for hb
    using try_acquire_busy [of 0 16 "\<lambda>_. junk" main mon 0] that
    by (cases "junk = 0") (simp_all add: mcmchHeartbeatProcessIfAvaible_def mcmchMonitorLockTryAcquire_def)
  show ?thesis
  proof (cases "pool_null \<and> plain_slots.acquire (mt_slots mt) \<noteq> None")
    case False
    then have "mcmchMonitorCreate mt pool_null handler ctx = Some (mt, MCMPST_OVERFLOW, None)
        \<or> mcmchMonitorCreate mt pool_null handler ctx = Some (mt, MCMPST_NOT_IMPLEMENTED, None)"
      using monitor_create_runs [OF assms] by (cases "plain_slots.acquire (mt_slots mt)") (auto simp: mcmchMonitorCreate_def)
    then show ?thesis using busy by (auto simp: mcmchHeartbeatCreateInstance_def mcmchHeartbeatDestroyInstance_def)
  next
    case True
    then obtain k b where acq: "plain_slots.acquire (mt_slots mt) = Some (k, b)" by auto
    then have "k < 512" using plain_slots.acquire_Some(1) [OF mt_wf_bm [OF assms] acq] assms by (simp add: mt_wf_def)
    then show ?thesis using True acq busy monitor_create_runs [OF assms] assms
      by (auto simp: mcmchHeartbeatCreateInstance_def mcmchHeartbeatDestroyInstance_def mcmchMonitorDestroy_def mt_wf_def)
  qed
qed

definition sample_monitors :: monitors where
  "sample_monitors = \<lparr>mt_slots = replicate 64 0, mt_table = replicate 512
      \<lparr>mo_static = False, mo_ctx = 0, mo_beat = 0, mo_running = False\<rparr>\<rparr>"

lemma sample_monitors_wf: "mt_wf sample_monitors"
  by (simp add: mt_wf_def bm_bit_def sample_monitors_def)

lemma heartbeat_fresh_witness:
  "\<exists>mt' hb. mcmchHeartbeatCreateInstance True 5 1 True 7 9 sample_monitors = Some (mt', Inr hb)
     \<and> mcmchHeartbeatDestroyInstance mt' hb = None"
  using heartbeat_fresh [OF sample_monitors_wf, of 5 1 True 7 9] by blast

end
