(* ===== verification/Broadcast.thy ===== *)
theory Broadcast
  imports Slot_Array
begin

text \<open>
  The broadcast of \<^verbatim>\<open>server/src/linux/broadcast.c\<close>: one block with a header of 16 bytes, a bitmap and an
  array of client records of 64 bytes, each a socket address of up to 32 bytes and the 8-byte
  address of the broadcast, padded. The records are bytes here, so that a copy of any length and
  the deletion, which reads a record as if it were a header, mean what they do in memory. A client
  is addressed by its slot.
\<close>

unbundle bit_operations_syntax

record broadcast =
  bc_length :: nat
  bc_bitmap_length :: nat
  bc_bitmap :: "byte list"
  bc_clients :: "byte list"

section \<open>Operations\<close>

text \<open>The requested size is computed modulo \<open>2 ^ 64\<close>; \<open>junk\<close> is what \<^verbatim>\<open>malloc\<close> left in the records.\<close>

definition mcmchBroadcastCreate :: "(nat \<Rightarrow> bool) \<Rightarrow> (nat \<Rightarrow> byte) \<Rightarrow> nat \<Rightarrow> (mcmpst + broadcast) ub" where
  "mcmchBroadcastCreate malloc_ok junk capacity =
     (let blen = ((capacity + 7) mod size_max) div 8;
          bytes = (16 + blen + (64 * capacity) mod size_max) mod size_max
      in if \<not> malloc_ok bytes then Some (Inl MCMPST_OUT_OF_MEM)
         else if bytes < 16 + blen then None
         else Some (Inr \<lparr>bc_length = capacity, bc_bitmap_length = blen, bc_bitmap = replicate blen 0,
                bc_clients = map junk [0..<bytes - 16 - blen]\<rparr>))"

text \<open>
  Adding copies \<open>addrlen\<close> bytes of \<open>address\<close> to the start of the record, whatever \<open>addrlen\<close> is, and
  then the broadcast's own address \<open>self\<close> behind the address field. The slot is compared with the length
  as an unsigned number.
\<close>

definition mcmchBroadcastAddClient ::
  "byte list \<Rightarrow> broadcast \<Rightarrow> byte list \<Rightarrow> nat \<Rightarrow> (broadcast \<times> (mcmpst + nat)) ub" where
  "mcmchBroadcastAddClient self bc address addrlen = do {
     ni \<leftarrow> mcmpBitmapNextAvaibleBit (bc_bitmap bc) 0 (bc_bitmap_length bc);
     (if ni = -1 \<or> bc_length bc \<le> size_cast ni then Some (bc, Inl MCMPST_OVERFLOW)
      else if length address < addrlen then None
      else do {
        m \<leftarrow> mem_write (bc_clients bc) (nat ni * 64) (take addrlen address);
        m' \<leftarrow> mem_write m (nat ni * 64 + 32) self;
        bitmap \<leftarrow> mcmpBitmapEnableBit (bc_bitmap bc) ni;
        Some (bc\<lparr>bc_bitmap := bitmap, bc_clients := m'\<rparr>, Inr (nat ni)) }) }"

text \<open>
  Deleting computes the position of the client as \<^verbatim>\<open>client - MCH_BC_GET_CLIENTS(client)\<close>: the macro is
  applied to the client and not to the broadcast, so it takes the eight bytes of the record's address
  field at offset 8 for a bitmap length. The difference of the two addresses is a signed 64-bit number
  of bytes, shifted right by 6.
\<close>

definition del_position :: "broadcast \<Rightarrow> nat \<Rightarrow> bitidx ub" where
  "del_position bc client = do {
     blen \<leftarrow> load_le 8 (bc_clients bc) (client * 64 + 8);
     Some (sint (- (16 + blen) :: 64 word) div 64) }"

definition mcmchBroadcastDelClient :: "broadcast \<Rightarrow> nat \<Rightarrow> (broadcast \<times> mcmpst) ub" where
  "mcmchBroadcastDelClient bc client = do {
     ni \<leftarrow> del_position bc client;
     (if ni < 0 \<or> bc_length bc \<le> size_cast ni then Some (bc, MCMPST_OVERFLOW)
      else do {
        disabled \<leftarrow> mcmpBitmapIsDisabledBit (bc_bitmap bc) ni;
        (if disabled then Some (bc, MCMPST_NOAVLE)
         else do {
           bitmap \<leftarrow> mcmpBitmapDisableBit (bc_bitmap bc) ni;
           Some (bc\<lparr>bc_bitmap := bitmap\<rparr>, MCMPST_SUCCESS) }) }) }"

section \<open>Well-formed broadcasts\<close>

definition bc_wf :: "broadcast \<Rightarrow> bool" where
  "bc_wf bc \<longleftrightarrow> length (bc_bitmap bc) = bc_bitmap_length bc \<and> bc_bitmap_length bc = (bc_length bc + 7) div 8
     \<and> length (bc_clients bc) = 64 * bc_length bc \<and> bc_length bc < 2 ^ 57"

definition bc_used :: "broadcast \<Rightarrow> nat set" where
  "bc_used bc = plain_slots.used (bc_bitmap bc)"

text \<open>The record of a client.\<close>

definition bc_record :: "broadcast \<Rightarrow> nat \<Rightarrow> byte list" where
  "bc_record bc k = mem_record 64 (bc_clients bc) k"

definition bc_inv :: "broadcast \<Rightarrow> bool" where
  "bc_inv bc \<longleftrightarrow> bc_wf bc \<and> bc_used bc \<subseteq> {..<bc_length bc}"

lemma bc_bits: "bc_wf bc \<Longrightarrow> 8 * length (bc_bitmap bc) < 2 ^ 58"
  by (simp add: bc_wf_def) presburger

lemma bc_wf_bm: "bc_wf bc \<Longrightarrow> bm_wf (bc_bitmap bc)"
  using bc_bits [of bc] by (simp add: bm_wf_def)

lemma bc_slot: "bc_wf bc \<Longrightarrow> k < bc_length bc \<Longrightarrow> k < 8 * length (bc_bitmap bc)"
  by (simp add: bc_wf_def)

lemma bc_used_iff: "k \<in> bc_used bc \<longleftrightarrow> k < 8 * length (bc_bitmap bc) \<and> bm_bit (bc_bitmap bc) k"
  by (simp add: bc_used_def plain_slots.used_def)

lemma bc_create_runs:
  assumes "capacity < 2 ^ 57" "malloc_ok (16 + (capacity + 7) div 8 + 64 * capacity)"
  shows "\<exists>bc. mcmchBroadcastCreate malloc_ok junk capacity = Some (Inr bc) \<and> bc_inv bc \<and> bc_used bc = {} \<and> bc_length bc = capacity"
proof -
  define blen where "blen = (capacity + 7) div 8"
  have "blen \<le> capacity + 7" by (simp add: blen_def)
  then have "64 * capacity < size_max" "capacity + 7 < size_max" "16 + blen + 64 * capacity < size_max"
    using assms(1) by simp_all
  then have "mcmchBroadcastCreate malloc_ok junk capacity = Some (Inr \<lparr>bc_length = capacity, bc_bitmap_length = blen,
      bc_bitmap = replicate blen 0, bc_clients = map junk [0..<64 * capacity]\<rparr>)"
    using assms(2) by (simp add: mcmchBroadcastCreate_def Let_def blen_def [symmetric])
  moreover have "bm_bit (replicate blen 0) k \<longleftrightarrow> False" if "k < 8 * blen" for k using that by (simp add: bm_bit_def)
  ultimately show ?thesis using assms(1) by (auto simp: bc_inv_def bc_wf_def bc_used_iff blen_def)
qed

section \<open>Records in memory\<close>

lemma spliced_patch:
  assumes "o' + length bs \<le> w" "k * w + w \<le> length m"
  shows "spliced m (k * w + o') bs = spliced m (k * w) (spliced (mem_record w m k) o' bs)"
proof (rule nth_equalityI)
  have rec: "length (mem_record w m k) = w" using assms(2) by (simp add: mem_record_def)
  then have rec': "length (spliced (mem_record w m k) o' bs) = w" using assms(1) by simp
  show "length (spliced m (k * w + o') bs) = length (spliced m (k * w) (spliced (mem_record w m k) o' bs))"
    using assms rec' by simp
  fix i assume "i < length (spliced m (k * w + o') bs)"
  then have i: "i < length m" using assms by simp
  have left: "spliced m (k * w + o') bs ! i = (if k * w + o' \<le> i \<and> i < k * w + o' + length bs then bs ! (i - (k * w + o')) else m ! i)"
    using nth_spliced [of "k * w + o'" bs m i] assms i by simp
  show "spliced m (k * w + o') bs ! i = spliced m (k * w) (spliced (mem_record w m k) o' bs) ! i"
  proof (cases "k * w \<le> i \<and> i < k * w + w")
    case True
    then have "i - k * w < w" by linarith
    then have "spliced (mem_record w m k) o' bs ! (i - k * w)
        = (if o' \<le> i - k * w \<and> i - k * w < o' + length bs then bs ! (i - k * w - o') else mem_record w m k ! (i - k * w))"
      using nth_spliced [of o' bs "mem_record w m k" "i - k * w"] assms(1) rec by simp
    also have "mem_record w m k ! (i - k * w) = m ! i"
      using True assms(2) \<open>i - k * w < w\<close> by (auto simp: mem_record_def nth_drop)
    finally show ?thesis
      using left True nth_spliced [of "k * w" "spliced (mem_record w m k) o' bs" m i] assms rec' i by auto
  next
    case False
    then show ?thesis
      using left nth_spliced [of "k * w" "spliced (mem_record w m k) o' bs" m i] assms rec' i by auto
  qed
qed

lemma mem_record_patched:
  assumes "o' + length bs \<le> w" "k < n" "n * w \<le> length m" "j < n"
  shows "mem_record w (spliced m (k * w + o') bs) j = (if j = k then spliced (mem_record w m k) o' bs else mem_record w m j)"
proof -
  have fits: "k * w + w \<le> length m" using mult_le_mono1 [of "Suc k" n w] assms(2,3) by simp
  then have "length (spliced (mem_record w m k) o' bs) = w" using assms(1) by (simp add: mem_record_def)
  then show ?thesis
    using spliced_patch [OF assms(1) fits] mem_record_written [OF _ assms(2-4)] by simp
qed

section \<open>Adding and deleting\<close>

text \<open>
  C36: Adding a client to a broadcast with a free slot, with an address of at most 32 bytes, takes the first free slot, keeps
  the broadcast well-formed and every other record, and leaves a record of the address, the rest of the old address field
  and the broadcast's own address; a full broadcast reports MCMPST_OVERFLOW and is unchanged.
\<close>

theorem broadcast_add:
  assumes "bc_inv bc" "length self = 8" "addrlen \<le> 32" "addrlen \<le> length address"
  shows "if bc_used bc = {..<bc_length bc} then mcmchBroadcastAddClient self bc address addrlen = Some (bc, Inl MCMPST_OVERFLOW)
     else \<exists>k bc'. mcmchBroadcastAddClient self bc address addrlen = Some (bc', Inr k) \<and> bc_inv bc' \<and> k < bc_length bc
       \<and> k \<notin> bc_used bc \<and> {..<k} \<subseteq> bc_used bc \<and> bc_used bc' = insert k (bc_used bc)
       \<and> bc_record bc' k = take addrlen address @ drop addrlen (take 32 (bc_record bc k)) @ self @ drop 40 (bc_record bc k)
       \<and> (\<forall>j < bc_length bc. j \<noteq> k \<longrightarrow> bc_record bc' j = bc_record bc j)"
proof -
  have wf: "bc_wf bc" and sub: "bc_used bc \<subseteq> {..<bc_length bc}" using assms(1) by (simp_all add: bc_inv_def)
  note bm = bc_wf_bm [OF wf] and next_slot = next_available_slot [OF bc_wf_bm [OF wf]]
  have lens: "bc_bitmap_length bc = length (bc_bitmap bc)" "length (bc_clients bc) = 64 * bc_length bc" using wf by (simp_all add: bc_wf_def)
  show ?thesis
  proof (cases "plain_slots.acquire (bc_bitmap bc)")
    case None
    then have all: "bc_used bc = {..<8 * length (bc_bitmap bc)}"
      using plain_slots.acquire_None_iff [OF bm] by (simp add: bc_used_def)
    have "bc_length bc \<le> 8 * length (bc_bitmap bc)" using wf by (simp add: bc_wf_def)
    then have "bc_used bc = {..<bc_length bc}" using all sub by (auto simp: lessThan_subset_iff)
    moreover have "bm_next_free (bc_bitmap bc) = None" using None by (simp add: plain_slots.acquire_def)
    ultimately show ?thesis using next_slot by (simp add: mcmchBroadcastAddClient_def lens)
  next
    case (Some kb)
    then obtain k b where acq: "plain_slots.acquire (bc_bitmap bc) = Some (k, b)" by (cases kb) auto
    note got = plain_slots.acquire_Some [OF bm acq]
    have below: "{..<k} \<subseteq> bc_used bc" and new: "k \<notin> bc_used bc" using got by (auto simp: bc_used_def)
    have free: "bm_next_free (bc_bitmap bc) = Some k" and b: "b = bm_mark (bc_bitmap bc) k"
      using acq by (auto simp: plain_slots.acquire_def)
    have "k < size_max" using got(1) bc_bits [OF wf] by simp
    then have cast: "size_cast (int k) = k" by simp
    show ?thesis
    proof (cases "k < bc_length bc")
      case False
      then have "bc_used bc = {..<bc_length bc}" using below sub by auto
      then show ?thesis using False next_slot free cast by (simp add: mcmchBroadcastAddClient_def lens)
    next
      case True
      define m where "m = spliced (bc_clients bc) (k * 64) (take addrlen address)"
      define m' where "m' = spliced m (k * 64 + 32) self"
      have fits: "k * 64 + 64 \<le> length (bc_clients bc)" using True lens by simp
      have la: "length (take addrlen address) = addrlen" using assms(4) by simp
      have w1: "mem_write (bc_clients bc) (k * 64) (take addrlen address) = Some m"
        unfolding m_def by (rule mem_write_in) (use fits assms(3) la in linarith)
      have lm: "length m = length (bc_clients bc)"
        unfolding m_def by (rule length_spliced) (use fits assms(3) la in linarith)
      have w2: "mem_write m (k * 64 + 32) self = Some m'" and lm': "length m' = length (bc_clients bc)"
        using fits assms(2) lm by (simp_all add: m'_def mem_simps)
      have "mcmpBitmapEnableBit (bc_bitmap bc) (int k) = Some b" using enable_bit [OF got(1)] by (auto simp: b bm_mark_def)
      then have run: "mcmchBroadcastAddClient self bc address addrlen = Some (bc\<lparr>bc_bitmap := b, bc_clients := m'\<rparr>, Inr k)"
        using next_slot free cast True assms(4) w1 w2 by (simp add: mcmchBroadcastAddClient_def lens)
      have rec1: "mem_record 64 m j = (if j = k then spliced (bc_record bc k) 0 (take addrlen address) else bc_record bc j)"
        if "j < bc_length bc" for j
        using mem_record_patched [of 0 "take addrlen address" 64 k "bc_length bc" "bc_clients bc" j] that True lens assms(3) la
        by (simp add: m_def bc_record_def)
      have rec2: "mem_record 64 m' j = (if j = k then spliced (mem_record 64 m k) 32 self else mem_record 64 m j)"
        if "j < bc_length bc" for j
        using mem_record_patched [of 32 self 64 k "bc_length bc" m j] that True lens assms(2) lm by (simp add: m'_def)
      have "length (bc_record bc k) = 64" using fits by (simp add: bc_record_def mem_record_def)
      then have new_rec: "mem_record 64 m' k = take addrlen address @ drop addrlen (take 32 (bc_record bc k)) @ self @ drop 40 (bc_record bc k)"
        using rec1 [OF True] rec2 [OF True] assms(2,3) la by (simp add: spliced_def take_drop min_def)
      let ?bc' = "bc\<lparr>bc_bitmap := b, bc_clients := m'\<rparr>"
      have used': "bc_used ?bc' = insert k (bc_used bc)" using got(3) by (simp add: bc_used_def)
      have "length b = length (bc_bitmap bc)" using got(5) by simp
      then have "bc_inv ?bc'" using wf sub True used' lm' by (simp add: bc_inv_def bc_wf_def)
      moreover have "bc_used bc \<noteq> {..<bc_length bc}" using True new by auto
      ultimately show ?thesis using run True new below used' new_rec rec1 rec2
        by (auto simp: bc_record_def)
    qed
  qed
qed

text \<open>The eight bytes that the deletion takes for a bitmap length: the IPv4 padding, or half of an IPv6 address.\<close>

definition del_word :: "broadcast \<Rightarrow> nat \<Rightarrow> 64 word" where
  "del_word bc client = le_word (take 8 (drop 8 (bc_record bc client)))"

lemma del_position_eq:
  assumes "bc_wf bc" "client < bc_length bc"
  shows "del_position bc client = Some (sint (- (16 + del_word bc client)) div 64)"
proof -
  have fits: "client * 64 + 64 \<le> length (bc_clients bc)" using assms by (simp add: bc_wf_def)
  have "take 8 (drop 8 (bc_record bc client)) = take 8 (drop (client * 64 + 8) (bc_clients bc))"
    by (simp add: bc_record_def mem_record_def drop_take min_def add.commute)
  then show ?thesis using fits by (simp add: del_position_def load_le_def del_word_def)
qed

lemma sint_neg_small:
  assumes "0 < n" "n < 2 ^ 63"
  shows "sint (- word_of_nat n :: 64 word) = - int n"
proof -
  have "(- word_of_nat n :: 64 word) = word_of_int (- int n)" by simp
  moreover have "signed_take_bit 63 (- int n) = - int n"
    using assms by (intro signed_take_bit_int_eq_self) simp_all
  ultimately show ?thesis by (simp only: signed_of_int) simp
qed

lemma del_position_low:
  assumes "unat (v :: 64 word) < 2 ^ 63 - 16"
  shows "sint (- (16 + v)) div 64 < 0"
proof -
  have v: "16 + v = word_of_nat (16 + unat v)" by simp
  have "sint (- (16 + v)) = - int (16 + unat v)"
    unfolding v by (rule sint_neg_small) (use assms in simp_all)
  moreover have "- int (16 + unat v) div 64 < 0" by (subst pos_imp_zdiv_neg_iff) (simp, use uint_ge_0 [of v] in \<open>simp del: uint_ge_0, linarith\<close>)
  ultimately show ?thesis by (simp only:)
qed

lemma del_position_slot:
  assumes "j < 2 ^ 57" "v = - word_of_nat (16 + 64 * j)"
  shows "sint (- (16 + v) :: 64 word) div 64 = int j"
proof -
  have "- (16 + v) = word_of_nat (64 * j)" by (simp add: assms(2))
  moreover have "64 * j < 2 ^ 63" using assms(1) by simp
  then have "sint (word_of_nat (64 * j) :: 64 word) = int (64 * j)"
    using bitidx_cast_small [of "64 * j"] by (simp add: bitidx_cast_def)
  ultimately show ?thesis by simp
qed

text \<open>
  C37: The outcome of a deletion depends on eight bytes of the client's own address and not on its slot. When they are small
  as a number, as the padding of an IPv4 address is, the deletion reports MCMPST_OVERFLOW and frees nothing; when they are
  \<open>2 ^ 64 - 16 - 64 * j\<close>, which an IPv6 address can be, it frees slot \<open>j\<close> whichever client was to be deleted.
\<close>

theorem broadcast_del_by_address:
  assumes "bc_inv bc" "client < bc_length bc"
  shows "(unat (del_word bc client) < 2 ^ 63 - 16 \<longrightarrow> mcmchBroadcastDelClient bc client = Some (bc, MCMPST_OVERFLOW))
     \<and> (\<forall>j \<in> bc_used bc. del_word bc client = - word_of_nat (16 + 64 * j) \<longrightarrow>
          (\<exists>bc'. mcmchBroadcastDelClient bc client = Some (bc', MCMPST_SUCCESS) \<and> bc_inv bc' \<and> bc_used bc' = bc_used bc - {j}))"
proof (intro conjI ballI impI)
  have wf: "bc_wf bc" using assms(1) by (simp add: bc_inv_def)
  note pos = del_position_eq [OF wf assms(2)]
  show "mcmchBroadcastDelClient bc client = Some (bc, MCMPST_OVERFLOW)" if "unat (del_word bc client) < 2 ^ 63 - 16"
    using del_position_low [OF that] pos by (simp add: mcmchBroadcastDelClient_def)
  fix j assume j: "j \<in> bc_used bc" and v: "del_word bc client = - word_of_nat (16 + 64 * j)"
  then have "j < bc_length bc" "j < 2 ^ 57" using assms(1) by (auto simp: bc_inv_def bc_wf_def)
  moreover from this have p: "del_position bc client = Some (int j)" using del_position_slot [OF _ v] pos by simp
  moreover have bits: "j < 8 * length (bc_bitmap bc)" "bm_bit (bc_bitmap bc) j" using j by (simp_all add: bc_used_iff)
  moreover obtain bm where bm: "mcmpBitmapDisableBit (bc_bitmap bc) (int j) = Some bm" "bm = bm_unmark (bc_bitmap bc) j"
    using disable_bit [OF bits(1)] by (auto simp: bm_unmark_def)
  moreover have "plain_slots.used bm = bc_used bc - {j}"
    using plain_slots.used_unmark [OF bc_wf_bm [OF wf] bits(1)] bm(2) by (simp add: bc_used_def)
  moreover have "length bm = length (bc_bitmap bc)" using bm_unmark_bits(1) [OF bits(1)] bm(2) by simp
  ultimately show "\<exists>bc'. mcmchBroadcastDelClient bc client = Some (bc', MCMPST_SUCCESS) \<and> bc_inv bc' \<and> bc_used bc' = bc_used bc - {j}"
    using assms(1) by (auto simp: mcmchBroadcastDelClient_def is_disabled_bit bc_inv_def bc_wf_def bc_used_def)
qed

text \<open>Two clients in use; eight bytes of the second one's address are \<open>2 ^ 64 - 16\<close>.\<close>

definition sample_broadcast :: broadcast where
  "sample_broadcast = \<lparr>bc_length = 2, bc_bitmap_length = 1, bc_bitmap = [3],
     bc_clients = replicate 64 0 @ replicate 8 0 @ [240, 255, 255, 255, 255, 255, 255, 255] @ replicate 48 0\<rparr>"

lemma sample_broadcast_used: "bc_inv sample_broadcast \<and> bc_used sample_broadcast = {0, 1}"
proof -
  have "bm_bit [3] k \<longleftrightarrow> k = 0 \<or> k = 1" if "k < 8" for k
  proof -
    from that have "k \<in> {0, 1, 2, 3, 4, 5, 6, 7}" by auto
    then show ?thesis by (auto simp: bm_bit_def)
  qed
  then have "bc_used sample_broadcast = {0, 1}" by (auto simp: sample_broadcast_def bc_used_iff)
  then show ?thesis by (simp add: bc_inv_def bc_wf_def) (simp add: sample_broadcast_def)
qed

theorem broadcast_add_witness:
  "mcmchBroadcastAddClient [1, 2, 3, 4, 5, 6, 7, 8] sample_broadcast [2, 0] 2 = Some (sample_broadcast, Inl MCMPST_OVERFLOW)"
proof -
  have "bc_length sample_broadcast = 2" by (simp add: sample_broadcast_def)
  then have "bc_used sample_broadcast = {..<bc_length sample_broadcast}"
    using sample_broadcast_used by (simp add: numeral_2_eq_2 lessThan_Suc insert_commute)
  then show ?thesis
    using broadcast_add [of sample_broadcast "[1, 2, 3, 4, 5, 6, 7, 8]" 2 "[2, 0]"] sample_broadcast_used by simp
qed

theorem broadcast_del_by_address_witness:
  "mcmchBroadcastDelClient sample_broadcast 0 = Some (sample_broadcast, MCMPST_OVERFLOW)
     \<and> (\<exists>bc'. mcmchBroadcastDelClient sample_broadcast 1 = Some (bc', MCMPST_SUCCESS) \<and> bc_used bc' = {1})"
proof -
  have "le_word (replicate n 0) = (0 :: 64 word)" for n by (induction n) simp_all
  then have "del_word sample_broadcast 0 = 0"
    by (simp add: del_word_def bc_record_def mem_record_def sample_broadcast_def)
  moreover have "del_word sample_broadcast 1 = - word_of_nat (16 + 64 * 0)"
    by (simp add: del_word_def bc_record_def mem_record_def sample_broadcast_def)
  moreover have "bc_length sample_broadcast = 2" by (simp add: sample_broadcast_def)
  ultimately show ?thesis
    using broadcast_del_by_address [of sample_broadcast 0] broadcast_del_by_address [of sample_broadcast 1] sample_broadcast_used
    by auto
qed

end
