(* ===== verification/Worker.thy ===== *)
theory Worker
  imports Set_Queue Monitor Sweep
begin

text \<open>
  The worker of \<^verbatim>\<open>routines/src/linux/worker.c\<close>: a master monitor whose beat hands the tasks of a set queue
  to the idle ones among \<open>length\<close> worker monitors and pings them, and worker monitors that mark themselves
  busy in a bitmap, run the handler on their task and give the bit back. Tasks are the pointers that
  the queue holds, here numbers; which monitors a beat pings and on which tasks the handler runs are
  recorded by the model. Worker monitors are addressed by their position.
\<close>

record wmonitor =
  wm_monitor :: nat
  wm_task :: nat
  wm_finished :: bool

record worker =
  wk_master :: nat
  wk_queue :: setqueue
  wk_bitmap_length :: nat
  wk_length :: nat
  wk_failstry :: int
  wk_bitmap :: "byte list"
  wk_monitors :: "wmonitor list"

section \<open>Creation, start and destruction\<close>

text \<open>
  Creation asks for the header (64 bytes), the bitmap and 32 bytes for each monitor, and leaves the
  bitmap, \<^verbatim>\<open>failstry\<close> and the monitors as \<^verbatim>\<open>malloc\<close> returned them: \<open>junk\<close>, \<open>junk_try\<close> and \<open>junk_mon\<close>.
  The status of the master's creation is ignored; starting a monitor that was not created goes
  through an uninitialised pointer. \<open>beat\<close> is the address of the beat function, \<open>ctx\<close> that of the executor.
\<close>

definition mcmchWorkerCreate ::
  "(nat \<Rightarrow> bool) \<Rightarrow> (nat \<Rightarrow> byte) \<Rightarrow> int \<Rightarrow> (nat \<Rightarrow> wmonitor) \<Rightarrow> nat \<Rightarrow> nat \<Rightarrow> setqueue \<Rightarrow> nat \<Rightarrow> monitors
     \<Rightarrow> (monitors \<times> (mcmpst + worker)) ub" where
  "mcmchWorkerCreate malloc_ok junk junk_try junk_mon beat ctx queue len mt =
     (let blen = ((len + 7) mod size_max) div 8;
          bytes = (64 + blen + (32 * len) mod size_max) mod size_max
      in if \<not> malloc_ok bytes then Some (mt, Inl MCMPST_OUT_OF_MEM)
         else if bytes < 64 then None
         else do {
           (mt', st, created) \<leftarrow> mcmchMonitorCreate mt True beat ctx;
           master \<leftarrow> created;
           Some (mcmchMonitorStart mt' master,
             Inr \<lparr>wk_master = master, wk_queue = queue, wk_bitmap_length = blen, wk_length = len, wk_failstry = junk_try,
                  wk_bitmap = map junk [0..<min blen (bytes - 64)],
                  wk_monitors = map junk_mon [0..<(bytes - 64 - blen) div 32]\<rparr>) })"

text \<open>
  The loop of the start over the monitors from position \<open>i\<close> on. \<open>sub\<close> is the address of the worker
  function, \<open>ctx i\<close> that of monitor \<open>i\<close>.
\<close>

function worker_start_loop :: "nat \<Rightarrow> (nat \<Rightarrow> nat) \<Rightarrow> nat \<Rightarrow> nat \<Rightarrow> monitors \<Rightarrow> wmonitor list \<Rightarrow> (monitors \<times> wmonitor list) ub" where
  "worker_start_loop sub ctx len i mt ms =
     (if i < len then
        if length ms \<le> i then None
        else do {
          (mt', st, created) \<leftarrow> mcmchMonitorCreate mt True sub (ctx i);
          m \<leftarrow> created;
          worker_start_loop sub ctx len (i + 1) (mcmchMonitorStart mt' m)
            (ms[i := (ms ! i)\<lparr>wm_monitor := m, wm_finished := True\<rparr>]) }
      else Some (mt, ms))"
  by pat_completeness auto
termination by (relation "measure (\<lambda>(sub, ctx, len, i, mt, ms). len - i)") auto

declare worker_start_loop.simps [simp del]

definition mcmchWorkerStart :: "nat \<Rightarrow> (nat \<Rightarrow> nat) \<Rightarrow> monitors \<Rightarrow> worker \<Rightarrow> (monitors \<times> worker \<times> mcmpst) ub" where
  "mcmchWorkerStart sub ctx mt wk = do {
     (mt', ms) \<leftarrow> worker_start_loop sub ctx (wk_length wk) 0 mt (wk_monitors wk);
     Some (mt', wk\<lparr>wk_monitors := ms\<rparr>, MCMPST_SUCCESS) }"

fun worker_destroy_loop :: "monitors \<Rightarrow> wmonitor list \<Rightarrow> monitors ub" where
  "worker_destroy_loop mt [] = Some mt"
| "worker_destroy_loop mt (m # ms) = do { (mt', _) \<leftarrow> mcmchMonitorDestroy mt (wm_monitor m); worker_destroy_loop mt' ms }"

definition mcmchWorkerDestroy :: "monitors \<Rightarrow> worker \<Rightarrow> (monitors \<times> mcmpst) ub" where
  "mcmchWorkerDestroy mt wk = do {
     (mt1, _) \<leftarrow> mcmchMonitorDestroy mt (wk_master wk);
     mt2 \<leftarrow> worker_destroy_loop mt1 (take (wk_length wk) (wk_monitors wk));
     Some (mt2, MCMPST_SUCCESS) }"

section \<open>Giving a bit back\<close>

text \<open>
  Up to \<open>maxtries\<close> attempts to clear a bit: \<open>env\<close> gives what an attempt meets when it loads the byte and
  when it swaps it. The result is the bitmap after the successful attempt.
\<close>

function worker_try_disable ::
  "(nat \<Rightarrow> byte list \<times> byte list) \<Rightarrow> bitidx \<Rightarrow> nat \<Rightarrow> nat \<Rightarrow> byte list option ub" where
  "worker_try_disable env pos maxtries tries =
     (if tries < maxtries then do {
        (_, p) \<leftarrow> try_disable_step (fst (env tries)) (BLoad pos);
        (b, p') \<leftarrow> try_disable_step (snd (env tries)) p;
        (if bitop_result p' = Some MCMPST_SUCCESS then Some (Some b)
         else worker_try_disable env pos maxtries (tries + 1)) }
      else Some None)"
  by pat_completeness auto
termination by (relation "measure (\<lambda>(env, pos, maxtries, tries). maxtries - tries)") auto

declare worker_try_disable.simps [simp del]

section \<open>The beat of the master\<close>

text \<open>The condition that ends the loops: no further bit, or a bit behind the last monitor.\<close>

definition within :: "worker \<Rightarrow> bitidx \<Rightarrow> bitidx" where
  "within wk b = (if b \<noteq> -1 \<and> size_cast b < wk_length wk then b else -1)"

definition next_busy :: "worker \<Rightarrow> bitidx \<Rightarrow> bitidx ub" where
  "next_busy wk off = map_option (within wk) (mcmpAtomicBitmapNextOccupiedBit (\<lambda>_. wk_bitmap wk) off (wk_bitmap_length wk))"

definition next_free :: "worker \<times> nat list \<Rightarrow> bitidx \<Rightarrow> bitidx ub" where
  "next_free s off = map_option (within (fst s)) (mcmpAtomicBitmapNextAvaibleBit (\<lambda>_. wk_bitmap (fst s)) off (wk_bitmap_length (fst s)))"

definition wmonitor_at :: "worker \<Rightarrow> bitidx \<Rightarrow> wmonitor ub" where
  "wmonitor_at wk b = (if 0 \<le> b \<and> nat b < length (wk_monitors wk) then Some (wk_monitors wk ! nat b) else None)"

text \<open>The cleanup clears the bits of monitors that finished but could not clear them themselves.\<close>

definition cleanup_body :: "worker \<Rightarrow> bitidx \<Rightarrow> (worker \<times> bool) ub" where
  "cleanup_body wk b = do {
     act \<leftarrow> wmonitor_at wk b;
     (if \<not> wm_finished act then Some (wk, True)
      else do {
        r \<leftarrow> worker_try_disable (\<lambda>_. (wk_bitmap wk, wk_bitmap wk)) b 10 0;
        (case r of None \<Rightarrow> Some (wk\<lparr>wk_failstry := 1\<rparr>, False)
         | Some bitmap \<Rightarrow> Some (wk\<lparr>wk_bitmap := bitmap\<rparr>, True)) }) }"

definition worker_cleanup :: "worker \<Rightarrow> worker ub" where
  "worker_cleanup wk = sweep next_busy cleanup_body wk 0"

text \<open>The state of the dispatch loop is the worker and the positions of the monitors pinged so far.\<close>

definition beat_body :: "worker \<times> nat list \<Rightarrow> bitidx \<Rightarrow> ((worker \<times> nat list) \<times> bool) ub" where
  "beat_body s b = (case s of (wk, pings) \<Rightarrow> do {
     act \<leftarrow> wmonitor_at wk b;
     (if \<not> wm_finished act then Some ((wk, pings @ [nat b]), True)
      else do {
        (queue, st, got) \<leftarrow> mcmpSetQueueTake (wk_queue wk);
        let task = (case got of None \<Rightarrow> wm_task act | Some v \<Rightarrow> v);
        let set = (\<lambda>act'. wk\<lparr>wk_queue := queue, wk_monitors := (wk_monitors wk)[nat b := act']\<rparr>);
        Some (if st \<noteq> MCMPST_SUCCESS then ((set (act\<lparr>wm_task := task\<rparr>), pings), False)
              else ((set (act\<lparr>wm_task := task, wm_finished := False\<rparr>), pings @ [nat b]), True)) }) })"

definition worker_beat :: "worker \<Rightarrow> (worker \<times> nat list) ub" where
  "worker_beat wk = do {
     wk' \<leftarrow> (if wk_failstry wk \<noteq> 0 then worker_cleanup (wk\<lparr>wk_failstry := 0\<rparr>) else Some wk);
     sweep next_free beat_body (wk', []) 0 }"

section \<open>The worker monitors\<close>

text \<open>
  The program counter of a worker monitor: waiting for a ping, attempting to set its bit, owning it, having
  run the handler, attempting to clear the bit.
\<close>

datatype sub_pc = Asleep | Trying nat | Secured | Ran | Cleaning nat

text \<open>
  A step: \<open>c\<close> says that another thread changes the byte between the load and the swap of an attempt,
  which makes the attempt fail. The tasks that the handler was called with are appended to \<open>rs\<close>.
\<close>

fun sub_step :: "nat \<Rightarrow> bool \<Rightarrow> worker \<times> nat list \<Rightarrow> sub_pc \<Rightarrow> ((worker \<times> nat list) \<times> sub_pc) ub" where
  "sub_step i c s Asleep = Some (s, Asleep)"
| "sub_step i c (wk, rs) (Trying t) =
     (if 10 \<le> t then Some ((wk, rs), Asleep)
      else if c then Some ((wk, rs), Trying (t + 1))
      else do {
        (bitmap, st) \<leftarrow> mcmpAtomicBitmapTryEnableBit (wk_bitmap wk) (int i);
        Some ((wk\<lparr>wk_bitmap := bitmap\<rparr>, rs), if st = MCMPST_SUCCESS then Secured else Trying (t + 1)) })"
| "sub_step i c (wk, rs) Secured = do {
     act \<leftarrow> wmonitor_at wk (int i);
     Some ((wk, rs @ [wm_task act]), Ran) }"
| "sub_step i c (wk, rs) Ran = do {
     act \<leftarrow> wmonitor_at wk (int i);
     Some ((wk\<lparr>wk_monitors := (wk_monitors wk)[i := act\<lparr>wm_finished := True\<rparr>]\<rparr>, rs), Cleaning 0) }"
| "sub_step i c (wk, rs) (Cleaning t) =
     (if 10 \<le> t then Some ((wk\<lparr>wk_failstry := (if wk_failstry wk = 0 then 1 else wk_failstry wk)\<rparr>, rs), Asleep)
      else if c then Some ((wk, rs), Cleaning (t + 1))
      else do {
        (bitmap, st) \<leftarrow> mcmpAtomicBitmapTryDisableBit (wk_bitmap wk) (int i);
        Some ((wk\<lparr>wk_bitmap := bitmap\<rparr>, rs), if st = MCMPST_SUCCESS then Asleep else Cleaning (t + 1)) })"

section \<open>Well-formed workers\<close>

definition wk_wf :: "worker \<Rightarrow> bool" where
  "wk_wf wk \<longleftrightarrow> length (wk_bitmap wk) = wk_bitmap_length wk \<and> wk_bitmap_length wk = (wk_length wk + 7) div 8
     \<and> length (wk_monitors wk) = wk_length wk \<and> wk_length wk < 2 ^ 58 \<and> sq_inv (wk_queue wk)"

definition wk_free :: "worker \<Rightarrow> nat \<Rightarrow> bool" where
  "wk_free wk k \<longleftrightarrow> k < wk_length wk \<and> \<not> bm_bit (wk_bitmap wk) k"

definition wk_idle :: "worker \<Rightarrow> nat \<Rightarrow> bool" where
  "wk_idle wk k \<longleftrightarrow> wk_free wk k \<and> wm_finished (wk_monitors wk ! k)"

lemma wk_bits: "wk_wf wk \<Longrightarrow> 8 * wk_bitmap_length wk < 2 ^ 59"
proof -
  assume "wk_wf wk"
  then have "wk_bitmap_length wk = (wk_length wk + 7) div 8" "wk_length wk < 2 ^ 58" by (auto simp: wk_wf_def)
  then show ?thesis by simp
qed

lemma wk_slot: "wk_wf wk \<Longrightarrow> k < wk_length wk \<Longrightarrow> k < 8 * wk_bitmap_length wk \<and> k < 8 * length (wk_bitmap wk)"
  by (simp add: wk_wf_def)

lemma first_hit_within:
  assumes "wk_wf wk"
  shows "within wk (first_hit P off (wk_bitmap_length wk))
     = first_hit (\<lambda>k. k < wk_length wk \<and> P k) off (wk_bitmap_length wk)"
proof -
  let ?n = "wk_bitmap_length wk"
  consider "first_hit P off ?n = -1" | k where "first_hit P off ?n = int k" using first_hit_form by blast
  then show ?thesis
  proof cases
    case 1
    moreover from this have "first_hit (\<lambda>k. k < wk_length wk \<and> P k) off ?n = -1" by (simp add: first_hit_None)
    ultimately show ?thesis by (simp add: within_def)
  next
    case 2
    then have k: "off \<le> k" "k < 8 * ?n" "P k" and low: "\<forall>j. off \<le> j \<and> j < k \<longrightarrow> \<not> P j" by (auto simp: first_hit_Some)
    have "k < size_max" using k(2) wk_bits [OF assms] by simp
    show ?thesis
    proof (cases "k < wk_length wk")
      case True
      then have "first_hit (\<lambda>k. k < wk_length wk \<and> P k) off ?n = int k" using k low by (simp add: first_hit_Some)
      then show ?thesis using 2 True \<open>k < size_max\<close> by (simp add: within_def)
    next
      case False
      then have "first_hit (\<lambda>k. k < wk_length wk \<and> P k) off ?n = -1"
        using low by (auto simp: first_hit_None not_less)
      then show ?thesis using 2 False \<open>k < size_max\<close> by (simp add: within_def)
    qed
  qed
qed

section \<open>What a beat dispatches\<close>

definition beat_inv :: "nat \<Rightarrow> worker \<times> nat list \<Rightarrow> bool" where
  "beat_inv n s \<longleftrightarrow> wk_wf (fst s) \<and> wk_bitmap_length (fst s) = n"

definition set_task :: "worker \<Rightarrow> nat \<Rightarrow> nat \<Rightarrow> worker" where
  "set_task wk k v = wk\<lparr>wk_queue := sq_taken (wk_queue wk) v,
     wk_monitors := (wk_monitors wk)[k := (wk_monitors wk ! k)\<lparr>wm_task := v, wm_finished := False\<rparr>]\<rparr>"

definition beat_act :: "worker \<times> nat list \<Rightarrow> nat \<Rightarrow> (worker \<times> nat list) \<times> bool" where
  "beat_act s k =
     (if \<not> wm_finished (wk_monitors (fst s) ! k) then ((fst s, snd s @ [k]), True)
      else case sq_view (wk_queue (fst s)) of
        [] \<Rightarrow> (s, False)
      | v # vs \<Rightarrow> ((set_task (fst s) k v, snd s @ [k]), True))"

lemma set_task_facts:
  assumes "wk_wf wk" "k < wk_length wk" "sq_view (wk_queue wk) = v # vs"
  shows "wk_wf (set_task wk k v)" "sq_view (wk_queue (set_task wk k v)) = vs" "wk_bitmap (set_task wk k v) = wk_bitmap wk"
    "wk_bitmap_length (set_task wk k v) = wk_bitmap_length wk" "wk_length (set_task wk k v) = wk_length wk"
    "wk_failstry (set_task wk k v) = wk_failstry wk"
    "wk_monitors (set_task wk k v) = (wk_monitors wk)[k := (wk_monitors wk ! k)\<lparr>wm_task := v, wm_finished := False\<rparr>]"
  using assms sq_take_ok(2) [of "wk_queue wk" v vs] by (auto simp: set_task_def wk_wf_def)

lemma beat_body_runs:
  assumes "wk_wf (fst s)" "k < wk_length (fst s)"
  shows "beat_body s (int k) = Some (beat_act s k)"
proof (cases "sq_view (wk_queue (fst s))")
  case Nil
  then show ?thesis using assms sq_take_ok(1) [of "wk_queue (fst s)"]
    by (cases s) (auto simp: beat_body_def beat_act_def wmonitor_at_def wk_wf_def)
next
  case (Cons v vs)
  then show ?thesis using assms sq_take_ok(2) [of "wk_queue (fst s)" v vs]
    by (cases s) (auto simp: beat_body_def beat_act_def wmonitor_at_def wk_wf_def set_task_def)
qed

interpretation dispatch: sweeping "beat_inv n" "\<lambda>s. wk_free (fst s)" n next_free beat_body beat_act for n
proof
  fix s s' :: "worker \<times> nat list" and off k j :: nat and more
  assume inv: "beat_inv n s"
  then have wf: "wk_wf (fst s)" and n: "wk_bitmap_length (fst s) = n" by (simp_all add: beat_inv_def)
  show "off \<le> 8 * n \<Longrightarrow> next_free s (int off) = Some (first_hit (wk_free (fst s)) off n)"
  proof -
    assume "off \<le> 8 * n"
    then have "off < 2 ^ 63" "8 * n \<le> 2 ^ 63" using wk_bits [OF wf] n by simp_all
    moreover have "n \<le> length (wk_bitmap (fst s))" using wf n by (simp add: wk_wf_def)
    ultimately have "next_free s (int off) = Some (within (fst s) (first_hit (\<lambda>k. \<not> bm_bit (wk_bitmap (fst s)) k) off n))"
      using atomic_next_available_alone [of n "wk_bitmap (fst s)" off] n by (simp add: next_free_def next_bit_spec_def)
    then show ?thesis using first_hit_within [OF wf] n by (simp add: wk_free_def [abs_def])
  qed
  assume free: "wk_free (fst s) k"
  then have k: "k < wk_length (fst s)" by (simp add: wk_free_def)
  show "beat_body s (int k) = Some (beat_act s k)" by (rule beat_body_runs [OF wf k])
  assume act: "beat_act s k = (s', more)"
  show "beat_inv n s'" using act inv k set_task_facts [OF wf k]
    by (auto simp: beat_act_def beat_inv_def split: if_splits list.splits)
  show "wk_free (fst s') j \<longleftrightarrow> wk_free (fst s) j" using act set_task_facts [OF wf k]
    by (auto simp: beat_act_def wk_free_def split: if_splits list.splits)
qed

lemma dispatch_fold:
  fixes s :: "worker \<times> nat list"
  assumes "beat_inv n s" "distinct ks" "fold_until dispatch.visit ks s = s'"
    "idle = filter (wk_idle (fst s)) ks" "view = sq_view (wk_queue (fst s))"
  shows "beat_inv n s' \<and> wk_bitmap (fst s') = wk_bitmap (fst s) \<and> wk_length (fst s') = wk_length (fst s)
     \<and> wk_failstry (fst s') = wk_failstry (fst s)
     \<and> sq_view (wk_queue (fst s')) = drop (length idle) view
     \<and> (\<forall>k. k \<notin> set (take (length view) idle) \<longrightarrow> wk_monitors (fst s') ! k = wk_monitors (fst s) ! k)
     \<and> map (\<lambda>k. wm_task (wk_monitors (fst s') ! k)) (take (length view) idle) = take (length idle) view
     \<and> (\<forall>k \<in> set (take (length view) idle). \<not> wm_finished (wk_monitors (fst s') ! k))
     \<and> snd s' = snd s @ filter (wk_free (fst s)) (takeWhile (\<lambda>k. k \<notin> set (drop (length view) idle)) ks)"
  using assms
proof (induction ks arbitrary: s idle view)
  case (Cons k ks)
  have not_in: "k \<notin> set (take m (filter (wk_idle (fst s)) ks))" "k \<notin> set (drop m (filter (wk_idle (fst s)) ks))" for m
    using Cons.prems(2) by (auto dest: in_set_takeD in_set_dropD)
  show ?case
  proof (cases "wk_free (fst s) k")
    case False
    then have "fold_until dispatch.visit ks s = s'" using Cons.prems(3) by (simp only: dispatch.fold_visit_Cons if_False)
    from Cons.IH [OF Cons.prems(1) _ this refl refl] show ?thesis
      using Cons.prems(2,4,5) False not_in by (simp add: wk_idle_def [of _ k])
  next
    case free: True
    then have k: "k < wk_length (fst s)" by (simp add: wk_free_def)
    show ?thesis
    proof (cases "wm_finished (wk_monitors (fst s) ! k)")
      case False
      then have step: "fold_until dispatch.visit ks (fst s, snd s @ [k]) = s'" using Cons.prems(3) free
        by (simp only: dispatch.fold_visit_Cons beat_act_def [of s k]) simp
      have "beat_inv n (fst s, snd s @ [k])" using Cons.prems(1) by (simp add: beat_inv_def)
      from Cons.IH [OF this _ step refl refl] show ?thesis
        using Cons.prems(2,4,5) free False not_in by (simp add: wk_idle_def [of _ k])
    next
      case fin: True
      have idle: "idle = k # filter (wk_idle (fst s)) ks" using Cons.prems(4) free fin by (simp add: wk_idle_def [of _ k])
      show ?thesis
      proof (cases view)
        case Nil
        then have "s' = s" using Cons.prems(3,5) free fin by (simp only: dispatch.fold_visit_Cons beat_act_def [of s k]) simp
        then show ?thesis using Nil idle Cons.prems(1,5) by simp
      next
        case view: (Cons v vs)
        then have v: "sq_view (wk_queue (fst s)) = v # vs" using Cons.prems(5) by simp
        define s1 where "s1 = (set_task (fst s) k v, snd s @ [k])"
        have wf: "wk_wf (fst s)" using Cons.prems(1) by (simp add: beat_inv_def)
        note facts = set_task_facts [OF wf k v]
        have step: "fold_until dispatch.visit ks s1 = s'" using Cons.prems(3) free fin v
          by (simp only: dispatch.fold_visit_Cons beat_act_def [of s k] s1_def) simp
        have inv: "beat_inv n s1" using Cons.prems(1) facts by (simp add: beat_inv_def s1_def)
        have free1: "wk_free (fst s1) = wk_free (fst s)" by (simp add: wk_free_def [abs_def] facts s1_def)
        have ks: "k \<notin> set ks" "distinct ks" using Cons.prems(2) by auto
        have rest: "wk_monitors (fst s1) ! j = wk_monitors (fst s) ! j" if "j \<noteq> k" for j using that by (simp add: facts s1_def)
        have idle1: "filter (wk_idle (fst s1)) ks = filter (wk_idle (fst s)) ks"
        proof (rule filter_cong [OF refl])
          fix j assume "j \<in> set ks"
          then have "j \<noteq> k" using ks(1) by auto
          then show "wk_idle (fst s1) j \<longleftrightarrow> wk_idle (fst s) j" by (simp add: wk_idle_def free1 rest)
        qed
        have "k < length (wk_monitors (fst s))" using k wf by (simp add: wk_wf_def)
        then have at_k: "wk_monitors (fst s1) ! k = (wk_monitors (fst s) ! k)\<lparr>wm_task := v, wm_finished := False\<rparr>"
          by (simp add: facts s1_def)
        have s1: "sq_view (wk_queue (fst s1)) = vs" "wk_bitmap (fst s1) = wk_bitmap (fst s)" "wk_length (fst s1) = wk_length (fst s)"
            "wk_failstry (fst s1) = wk_failstry (fst s)" "snd s1 = snd s @ [k]"
          by (simp_all add: facts s1_def)
        define idle' where "idle' = filter (wk_idle (fst s)) ks"
        note IH = Cons.IH [OF inv ks(2) step idle1 [symmetric] refl, unfolded s1 free1, folded idle'_def]
        have out: "k \<notin> set (take m idle')" "k \<notin> set (drop m idle')" for m using not_in by (simp_all add: idle'_def)
        have other: "j \<notin> set (take (length vs) idle') \<Longrightarrow> j \<noteq> k \<Longrightarrow> wk_monitors (fst s') ! j = wk_monitors (fst s) ! j" for j
          using IH rest by simp
        have here: "wk_monitors (fst s') ! k = (wk_monitors (fst s) ! k)\<lparr>wm_task := v, wm_finished := False\<rparr>"
          using IH out(1) at_k by simp
        show ?thesis using IH other here out free
          by (simp add: view idle idle'_def [symmetric])
      qed
    qed
  qed
qed simp

section \<open>The cleanup\<close>

definition wk_cleared :: "worker \<Rightarrow> nat \<Rightarrow> worker" where
  "wk_cleared wk k = wk\<lparr>wk_bitmap := abm_unmark (wk_bitmap wk) k\<rparr>"

definition cleanup_act :: "worker \<Rightarrow> nat \<Rightarrow> worker \<times> bool" where
  "cleanup_act wk k = (if wm_finished (wk_monitors wk ! k) then wk_cleared wk k else wk, True)"

lemma wk_cleared_facts:
  assumes "wk_wf wk" "k < wk_length wk"
  shows "wk_wf (wk_cleared wk k)" "wk_bitmap_length (wk_cleared wk k) = wk_bitmap_length wk"
    "bm_bit (wk_bitmap (wk_cleared wk k)) j \<longleftrightarrow> bm_bit (wk_bitmap wk) j \<and> j \<noteq> k"
    "wk_length (wk_cleared wk k) = wk_length wk" "wk_monitors (wk_cleared wk k) = wk_monitors wk"
  using assms abm_unmark_bits [of k "wk_bitmap wk"] by (auto simp: wk_cleared_def wk_wf_def)

lemma try_disable_alone_loop:
  assumes "k < 8 * length bm" "tries < maxtries"
  shows "worker_try_disable (\<lambda>_. (bm, bm)) (int k) maxtries tries = Some (Some (abm_unmark bm k))"
  using try_disable_steps [OF assms(1)] assms(2)
  by (simp add: worker_try_disable.simps [of _ _ _ tries] abm_unmark_def mcmpAtomicBitmapTryDisableBit_def
      run_call.simps [of try_disable_step] del: try_disable_step.simps)

interpretation cleaning: sweeping "\<lambda>wk. wk_wf wk \<and> wk_bitmap_length wk = n"
    "\<lambda>wk k. k < wk_length wk \<and> bm_bit (wk_bitmap wk) k" n next_busy cleanup_body cleanup_act for n
proof
  fix wk wk' :: worker and off k j :: nat and more
  assume inv: "wk_wf wk \<and> wk_bitmap_length wk = n"
  then have wf: "wk_wf wk" and n: "wk_bitmap_length wk = n" by simp_all
  show "off \<le> 8 * n \<Longrightarrow> next_busy wk (int off) = Some (first_hit (\<lambda>k. k < wk_length wk \<and> bm_bit (wk_bitmap wk) k) off n)"
  proof -
    assume "off \<le> 8 * n"
    then have "off < 2 ^ 63" "8 * n \<le> 2 ^ 63" using wk_bits [OF wf] n by simp_all
    moreover have "n \<le> length (wk_bitmap wk)" using wf n by (simp add: wk_wf_def)
    ultimately show ?thesis
      using atomic_next_occupied_alone [of n "wk_bitmap wk" off] n first_hit_within [OF wf, of "bm_bit (wk_bitmap wk)" off]
      by (simp add: next_busy_def next_bit_spec_def)
  qed
  assume hit: "k < wk_length wk \<and> bm_bit (wk_bitmap wk) k"
  then have k: "k < wk_length wk" by simp
  show "cleanup_body wk (int k) = Some (cleanup_act wk k)"
    using k wf wk_slot [OF wf k] try_disable_alone_loop [of k "wk_bitmap wk" 0 10]
    by (simp add: cleanup_body_def cleanup_act_def wmonitor_at_def wk_wf_def wk_cleared_def)
  assume act: "cleanup_act wk k = (wk', more)"
  show "wk_wf wk' \<and> wk_bitmap_length wk' = n" using act inv wk_cleared_facts [OF wf k]
    by (auto simp: cleanup_act_def split: if_splits)
  show "k < j \<Longrightarrow> (j < wk_length wk' \<and> bm_bit (wk_bitmap wk') j) \<longleftrightarrow> (j < wk_length wk \<and> bm_bit (wk_bitmap wk) j)"
    using act wk_cleared_facts(3,4) [OF wf k] by (auto simp: cleanup_act_def split: if_splits)
qed

lemma cleaning_fold:
  assumes "wk_wf wk" "fold_until cleaning.visit ks wk = wk'"
  shows "wk_wf wk' \<and> (\<exists>bitmap. wk' = wk\<lparr>wk_bitmap := bitmap\<rparr>)
     \<and> (\<forall>j. bm_bit (wk_bitmap wk') j \<longleftrightarrow>
          bm_bit (wk_bitmap wk) j \<and> \<not> (j \<in> set ks \<and> j < wk_length wk \<and> wm_finished (wk_monitors wk ! j)))"
  using assms
proof (induction ks arbitrary: wk)
  case Nil
  then show ?case by (auto intro: exI [of _ "wk_bitmap wk'"])
next
  case (Cons k ks)
  show ?case
  proof (cases "k < wk_length wk \<and> bm_bit (wk_bitmap wk) k \<and> wm_finished (wk_monitors wk ! k)")
    case False
    then have "fold_until cleaning.visit ks wk = wk'" using Cons.prems(2)
      by (auto simp only: cleaning.fold_visit_Cons cleanup_act_def [of wk k] prod.case if_True if_False split: if_splits)
    from Cons.IH [OF Cons.prems(1) this] show ?thesis using False by auto
  next
    case True
    then have k: "k < wk_length wk" by simp
    have "fold_until cleaning.visit ks (wk_cleared wk k) = wk'" using Cons.prems(2) True
      by (auto simp only: cleaning.fold_visit_Cons cleanup_act_def [of wk k] prod.case if_True if_False split: if_splits)
    note IH = Cons.IH [OF wk_cleared_facts(1) [OF Cons.prems(1) k] this]
    moreover have "\<exists>bitmap. wk' = wk\<lparr>wk_bitmap := bitmap\<rparr>" using IH by (auto simp: wk_cleared_def)
    ultimately show ?thesis using True by (auto simp: wk_cleared_facts(3-5) [OF Cons.prems(1) k])
  qed
qed

lemma worker_cleanup_runs:
  assumes "wk_wf wk"
  shows "\<exists>bitmap. worker_cleanup wk = Some (wk\<lparr>wk_bitmap := bitmap\<rparr>) \<and> wk_wf (wk\<lparr>wk_bitmap := bitmap\<rparr>)
     \<and> (\<forall>j < wk_length wk. bm_bit bitmap j \<longleftrightarrow> bm_bit (wk_bitmap wk) j \<and> \<not> wm_finished (wk_monitors wk ! j))"
proof -
  let ?n = "wk_bitmap_length wk"
  have "worker_cleanup wk = Some (fold_until cleaning.visit [0..<8 * ?n] wk)"
    using cleaning.sweep_is_fold [of wk ?n 0] assms by (simp add: worker_cleanup_def)
  moreover obtain bitmap where "fold_until cleaning.visit [0..<8 * ?n] wk = wk\<lparr>wk_bitmap := bitmap\<rparr>"
      "wk_wf (wk\<lparr>wk_bitmap := bitmap\<rparr>)"
      "\<forall>j. bm_bit bitmap j \<longleftrightarrow> bm_bit (wk_bitmap wk) j \<and> \<not> (j < 8 * ?n \<and> j < wk_length wk \<and> wm_finished (wk_monitors wk ! j))"
    using cleaning_fold [OF assms refl, of "[0..<8 * ?n]"] by (metis (no_types, lifting) atLeastLessThan_iff le0 set_upt
        worker.select_convs(6) worker.surjective worker.update_convs(6))
  ultimately show ?thesis using wk_slot [OF assms] by auto
qed

text \<open>The monitors that a beat finds free: those whose bit is clear, and after a failed clearing those that finished.\<close>

definition beat_free :: "worker \<Rightarrow> nat \<Rightarrow> bool" where
  "beat_free wk k \<longleftrightarrow> k < wk_length wk
     \<and> (\<not> bm_bit (wk_bitmap wk) k \<or> wk_failstry wk \<noteq> 0 \<and> wm_finished (wk_monitors wk ! k))"

definition beat_idle :: "worker \<Rightarrow> nat list" where
  "beat_idle wk = filter (\<lambda>k. beat_free wk k \<and> wm_finished (wk_monitors wk ! k)) [0..<wk_length wk]"

lemma filter_upt_below:
  assumes "\<And>k. P k \<Longrightarrow> k < n" "n \<le> m"
  shows "filter P (takeWhile Q [0..<m]) = filter P (takeWhile Q [0..<n])" "filter P [0..<m] = filter P [0..<n]"
proof -
  have split: "[0..<m] = [0..<n] @ [n..<m]" using assms(2) by (metis le0 le_add_diff_inverse upt_add_eq_append)
  have none: "filter P (takeWhile Q [n..<m]) = []" "filter P [n..<m] = []"
    using assms(1) by (auto simp: filter_empty_conv dest!: set_takeWhileD) (meson leD)+
  show "filter P [0..<m] = filter P [0..<n]" by (simp add: split none)
  show "filter P (takeWhile Q [0..<m]) = filter P (takeWhile Q [0..<n])"
  proof (cases "\<forall>x \<in> set [0..<n]. Q x")
    case True
    then have all: "takeWhile Q [0..<n] = [0..<n]" by (simp only: takeWhile_eq_all_conv)
    have "takeWhile Q ([0..<n] @ [n..<m]) = [0..<n] @ takeWhile Q [n..<m]" by (rule takeWhile_append2) (use True in blast)
    then show ?thesis by (simp only: split all filter_append none append_Nil2)
  next
    case False
    then show ?thesis unfolding split by (auto simp: takeWhile_append1)
  qed
qed

lemma worker_beat_runs:
  assumes wf: "wk_wf wk"
  defines "idle \<equiv> beat_idle wk" and "view \<equiv> sq_view (wk_queue wk)"
  shows "\<exists>wk' pings. worker_beat wk = Some (wk', pings) \<and> wk_wf wk' \<and> wk_failstry wk' = 0 \<and> wk_length wk' = wk_length wk
     \<and> sq_view (wk_queue wk') = drop (length idle) view
     \<and> (\<forall>k. k \<notin> set (take (length view) idle) \<longrightarrow> wk_monitors wk' ! k = wk_monitors wk ! k)
     \<and> map (\<lambda>k. wm_task (wk_monitors wk' ! k)) (take (length view) idle) = take (length idle) view
     \<and> (\<forall>k \<in> set (take (length view) idle). \<not> wm_finished (wk_monitors wk' ! k))
     \<and> (\<forall>k < wk_length wk. bm_bit (wk_bitmap wk') k \<longleftrightarrow> \<not> beat_free wk k)
     \<and> pings = filter (beat_free wk) (takeWhile (\<lambda>k. k \<notin> set (drop (length view) idle)) [0..<wk_length wk])"
proof -
  obtain wk1 where wk1: "(if wk_failstry wk \<noteq> 0 then worker_cleanup (wk\<lparr>wk_failstry := 0\<rparr>) else Some wk) = Some wk1"
      "wk_wf wk1" "wk_failstry wk1 = 0" "wk_length wk1 = wk_length wk" "wk_monitors wk1 = wk_monitors wk" "wk_queue wk1 = wk_queue wk"
      "\<forall>j < wk_length wk. bm_bit (wk_bitmap wk1) j \<longleftrightarrow> \<not> beat_free wk j"
  proof (cases "wk_failstry wk = 0")
    case True
    then show ?thesis using that [of wk] wf by (simp add: beat_free_def)
  next
    case False
    have "wk_wf (wk\<lparr>wk_failstry := 0\<rparr>)" using wf by (simp add: wk_wf_def)
    from worker_cleanup_runs [OF this] obtain bitmap where
        "worker_cleanup (wk\<lparr>wk_failstry := 0\<rparr>) = Some (wk\<lparr>wk_failstry := 0, wk_bitmap := bitmap\<rparr>)"
        "wk_wf (wk\<lparr>wk_failstry := 0, wk_bitmap := bitmap\<rparr>)"
        "\<forall>j < wk_length wk. bm_bit bitmap j \<longleftrightarrow> bm_bit (wk_bitmap wk) j \<and> \<not> wm_finished (wk_monitors wk ! j)"
      by auto
    then show ?thesis using that [of "wk\<lparr>wk_failstry := 0, wk_bitmap := bitmap\<rparr>"] False by (simp add: beat_free_def)
  qed
  define n where "n = wk_bitmap_length wk1"
  have inv: "beat_inv n (wk1, [])" using wk1(2) by (simp add: beat_inv_def n_def)
  obtain s where s: "fold_until dispatch.visit [0..<8 * n] (wk1, []) = s" by blast
  have run: "worker_beat wk = Some s"
    using dispatch.sweep_is_fold [OF inv, of 0] s wk1(1) by (simp add: worker_beat_def)
  have free: "wk_free wk1 = beat_free wk" using wk1(4,7) by (auto simp: wk_free_def beat_free_def fun_eq_iff)
  then have idle_pred: "wk_idle wk1 = (\<lambda>k. beat_free wk k \<and> wm_finished (wk_monitors wk ! k))"
    using wk1(5) by (auto simp: wk_idle_def fun_eq_iff)
  have le: "wk_length wk \<le> 8 * n" using wk1(2,4) by (simp add: n_def wk_wf_def)
  have idle: "filter (wk_idle wk1) [0..<8 * n] = idle"
    unfolding idle_pred idle_def beat_idle_def by (rule filter_upt_below(2) [OF _ le]) (simp add: beat_free_def)
  have pings: "filter (wk_free wk1) (takeWhile Q [0..<8 * n]) = filter (beat_free wk) (takeWhile Q [0..<wk_length wk])" for Q
    unfolding free by (rule filter_upt_below(1) [OF _ le]) (simp add: beat_free_def)
  have "view = sq_view (wk_queue (fst (wk1, [] :: nat list)))" "idle = filter (wk_idle (fst (wk1, [] :: nat list))) [0..<8 * n]"
    using wk1(6) idle by (simp_all add: view_def)
  from dispatch_fold [OF inv distinct_upt s this(2,1)]
  have "wk_wf (fst s) \<and> wk_bitmap (fst s) = wk_bitmap wk1 \<and> wk_length (fst s) = wk_length wk \<and> wk_failstry (fst s) = 0
     \<and> sq_view (wk_queue (fst s)) = drop (length idle) view
     \<and> (\<forall>k. k \<notin> set (take (length view) idle) \<longrightarrow> wk_monitors (fst s) ! k = wk_monitors wk ! k)
     \<and> map (\<lambda>k. wm_task (wk_monitors (fst s) ! k)) (take (length view) idle) = take (length idle) view
     \<and> (\<forall>k \<in> set (take (length view) idle). \<not> wm_finished (wk_monitors (fst s) ! k))
     \<and> snd s = filter (beat_free wk) (takeWhile (\<lambda>k. k \<notin> set (drop (length view) idle)) [0..<wk_length wk])"
    using wk1(3-5) pings by (simp add: beat_inv_def)
  then show ?thesis using run wk1(7) by (cases s) simp
qed

text \<open>
  C19: A beat hands the tasks of the queue, in their order, to the idle worker monitors, lowest position first, as far as
  there are both: they get their task and count as unfinished, the queue keeps the rest and the other monitors
  are untouched. It pings exactly the free monitors up to the first idle one that found no task: those
  with a new task and those with an old task that they have not begun. After a failed clearing of a bit, finished monitors count as free
  whatever their bit says, and the beat clears it.
\<close>

theorem worker_beat_dispatches:
  assumes "wk_wf wk" "idle = beat_idle wk" "view = sq_view (wk_queue wk)"
  shows "\<exists>wk' pings. worker_beat wk = Some (wk', pings) \<and> wk_wf wk' \<and> wk_failstry wk' = 0
     \<and> sq_view (wk_queue wk') = drop (length idle) view
     \<and> (\<forall>k. k \<notin> set (take (length view) idle) \<longrightarrow> wk_monitors wk' ! k = wk_monitors wk ! k)
     \<and> map (\<lambda>k. wm_task (wk_monitors wk' ! k)) (take (length view) idle) = take (length idle) view
     \<and> (\<forall>k \<in> set (take (length view) idle). \<not> wm_finished (wk_monitors wk' ! k))
     \<and> (\<forall>k < wk_length wk. bm_bit (wk_bitmap wk') k \<longleftrightarrow> \<not> beat_free wk k)
     \<and> pings = filter (beat_free wk) (takeWhile (\<lambda>k. k \<notin> set (drop (length view) idle)) [0..<wk_length wk])"
  using worker_beat_runs [OF assms(1)] unfolding assms(2,3) by blast

section \<open>The life of a worker\<close>

text \<open>The worker monitors of the positions \<open>is\<close> own distinct running entries of the monitor table.\<close>

definition staffed :: "monitors \<Rightarrow> wmonitor list \<Rightarrow> nat set \<Rightarrow> bool" where
  "staffed mt ms is \<longleftrightarrow> inj_on (\<lambda>i. wm_monitor (ms ! i)) is
     \<and> (\<forall>i \<in> is. wm_finished (ms ! i) \<and> wm_monitor (ms ! i) \<in> mt_used mt \<and> mo_running (mt_table mt ! wm_monitor (ms ! i)))"

lemma worker_start_ok:
  assumes "mt_wf mt" "i \<le> len" "length ms = len" "card (mt_used mt) + (len - i) \<le> 512" "staffed mt ms {..<i}"
  shows "\<exists>mt' ms'. worker_start_loop sub ctx len i mt ms = Some (mt', ms') \<and> mt_wf mt' \<and> length ms' = len
     \<and> staffed mt' ms' {..<len} \<and> mt_used mt' = mt_used mt \<union> (\<lambda>j. wm_monitor (ms' ! j)) ` {i..<len}
     \<and> (\<forall>j < i. ms' ! j = ms ! j) \<and> (\<forall>m \<in> mt_used mt. mt_table mt' ! m = mt_table mt ! m)
     \<and> mt_used mt \<inter> (\<lambda>j. wm_monitor (ms' ! j)) ` {i..<len} = {}"
  using assms
proof (induction "len - i" arbitrary: i mt ms)
  case 0
  then show ?case by (simp add: worker_start_loop.simps [of _ _ _ i])
next
  case (Suc n)
  then have i: "i < len" "n = len - Suc i" by auto
  have "card (mt_used mt) \<noteq> 512" using Suc.prems(4) i by simp
  from monitor_created [OF Suc.prems(1) this, of sub "ctx i"] obtain m mt1 where
      new: "mcmchMonitorCreate mt True sub (ctx i) = Some (mt1, MCMPST_SUCCESS, Some m)" "mt_wf mt1" "m < 512" "m \<notin> mt_used mt"
      "mt_used mt1 = insert m (mt_used mt)"
      "mt_table mt1 = (mt_table mt)[m := \<lparr>mo_static = True, mo_ctx = ctx i, mo_beat = sub, mo_running = False\<rparr>]"
    by blast
  note started = monitor_started [OF new(2,3)]
  define mt2 where "mt2 = mcmchMonitorStart mt1 m"
  define ms1 where "ms1 = ms[i := (ms ! i)\<lparr>wm_monitor := m, wm_finished := True\<rparr>]"
  have len: "length (mt_table mt) = 512" "length (mt_table mt1) = 512" "length ms1 = len"
    using Suc.prems(1,3) new(2) by (simp_all add: mt_wf_def ms1_def)
  have table: "mt_table mt2 ! j = (if j = m then (mt_table mt1 ! m)\<lparr>mo_running := True\<rparr> else mt_table mt ! j)" for j
    using started(3) new(3,6) len by (simp add: mt2_def nth_list_update)
  have used: "mt_used mt2 = insert m (mt_used mt)" using started(2) new(5) by (simp add: mt2_def)
  have ms1: "ms1 ! j = (if j = i then (ms ! i)\<lparr>wm_monitor := m, wm_finished := True\<rparr> else ms ! j)" for j
    using i Suc.prems(3) by (simp add: ms1_def nth_list_update)
  have old: "j < i \<Longrightarrow> wm_monitor (ms ! j) \<noteq> m" for j using Suc.prems(5) new(4) by (auto simp: staffed_def)
  have "staffed mt2 ms1 {..<Suc i}"
    using Suc.prems(5) old by (auto simp: staffed_def table used ms1 inj_on_def less_Suc_eq) blast+
  moreover have "card (mt_used mt2) + (len - Suc i) \<le> 512" using Suc.prems(4) i new(4) by (simp add: used mt_used_finite)
  moreover have "mt_wf mt2" using started(1) by (simp add: mt2_def)
  ultimately obtain mt' ms' where IH: "worker_start_loop sub ctx len (Suc i) mt2 ms1 = Some (mt', ms')" "mt_wf mt'" "length ms' = len"
      "staffed mt' ms' {..<len}" "mt_used mt' = mt_used mt2 \<union> (\<lambda>j. wm_monitor (ms' ! j)) ` {Suc i..<len}"
      "\<forall>j < Suc i. ms' ! j = ms1 ! j" "\<forall>m \<in> mt_used mt2. mt_table mt' ! m = mt_table mt2 ! m"
      "mt_used mt2 \<inter> (\<lambda>j. wm_monitor (ms' ! j)) ` {Suc i..<len} = {}"
    using Suc.hyps(1) [OF i(2), of mt2 ms1] len(3) i(1) by auto
  have run: "worker_start_loop sub ctx len i mt ms = Some (mt', ms')"
    using IH(1) new(1) i Suc.prems(3) by (simp add: worker_start_loop.simps [of _ _ _ i] mt2_def ms1_def)
  have mi: "wm_monitor (ms' ! i) = m" using IH(6) by (simp add: ms1)
  have image: "(\<lambda>j. wm_monitor (ms' ! j)) ` {i..<len} = insert m ((\<lambda>j. wm_monitor (ms' ! j)) ` {Suc i..<len})"
  proof -
    have "{i..<len} = insert i {Suc i..<len}" using i by auto
    then show ?thesis by (simp add: mi)
  qed
  show ?case using run IH used image table ms1 new(4) by auto
qed

lemma worker_start_full:
  assumes "mt_wf mt" "i \<le> len" "card (mt_used mt) \<le> 512" "512 < card (mt_used mt) + (len - i)"
  shows "worker_start_loop sub ctx len i mt ms = None"
  using assms
proof (induction "len - i" arbitrary: i mt ms)
  case 0
  then show ?case by simp
next
  case (Suc n)
  then have i: "i < len" "n = len - Suc i" by auto
  show ?case
  proof (cases "card (mt_used mt) = 512")
    case True
    then show ?thesis using monitor_full [OF Suc.prems(1)] i by (simp add: worker_start_loop.simps [of _ _ _ i])
  next
    case False
    from monitor_created [OF Suc.prems(1) this, of sub "ctx i"] obtain m mt1 where
        new: "mcmchMonitorCreate mt True sub (ctx i) = Some (mt1, MCMPST_SUCCESS, Some m)" "mt_wf mt1" "m < 512" "m \<notin> mt_used mt"
        "mt_used mt1 = insert m (mt_used mt)" by blast
    note started = monitor_started [OF new(2,3)]
    have "card (mt_used (mcmchMonitorStart mt1 m)) = Suc (card (mt_used mt))"
      using started(2) new(4,5) by (simp add: mt_used_finite)
    then have "worker_start_loop sub ctx len (Suc i) (mcmchMonitorStart mt1 m) ms' = None" for ms'
      using Suc.hyps(1) [OF i(2) started(1)] Suc.prems(3,4) i False by simp
    then show ?thesis using new(1) i by (simp add: worker_start_loop.simps [of _ _ _ i])
  qed
qed

lemma worker_destroy_ok:
  "mt_wf mt \<Longrightarrow> distinct (map wm_monitor ms) \<Longrightarrow> set (map wm_monitor ms) \<subseteq> mt_used mt \<Longrightarrow>
     \<forall>m \<in> set ms. mo_running (mt_table mt ! wm_monitor m) \<Longrightarrow>
     \<exists>mt'. worker_destroy_loop mt ms = Some mt' \<and> mt_wf mt' \<and> mt_used mt' = mt_used mt - set (map wm_monitor ms)"
proof (induction ms arbitrary: mt)
  case (Cons m ms)
  then obtain mt1 where mt1: "mcmchMonitorDestroy mt (wm_monitor m) = Some (mt1, MCMPST_SUCCESS)" "mt_wf mt1"
      "mt_used mt1 = mt_used mt - {wm_monitor m}"
      "mt_table mt1 = (mt_table mt)[wm_monitor m := (mt_table mt ! wm_monitor m)\<lparr>mo_running := False\<rparr>]"
    using monitor_destroyed [of mt "wm_monitor m"] by auto
  have "\<forall>m' \<in> set ms. mo_running (mt_table mt1 ! wm_monitor m')"
  proof
    fix m' assume "m' \<in> set ms"
    then have "wm_monitor m' \<in> wm_monitor ` set ms" by (rule imageI)
    then have "wm_monitor m' \<noteq> wm_monitor m" using Cons.prems(2) by auto
    then show "mo_running (mt_table mt1 ! wm_monitor m')" using mt1(4) Cons.prems(4) \<open>m' \<in> set ms\<close> by simp
  qed
  moreover have "distinct (map wm_monitor ms)" "set (map wm_monitor ms) \<subseteq> mt_used mt1"
    using Cons.prems(2,3) by (simp_all add: mt1(3) subset_Diff_insert)
  ultimately obtain mt' where "worker_destroy_loop mt1 ms = Some mt'" "mt_wf mt'" "mt_used mt' = mt_used mt1 - set (map wm_monitor ms)"
    using Cons.IH [OF mt1(2)] by blast
  then show ?case using mt1 by auto
qed simp

text \<open>
  C20: Creating a worker, starting it and destroying it, when the monitor table has room for the master and all \<open>len\<close>
  workers: the start gives every position a monitor of its own and marks it finished, and the destruction frees exactly
  what the worker took. With room for the master but not for all the workers, the start goes through an uninitialised pointer. The
  bitmap and \<^verbatim>\<open>failstry\<close> of the started worker are what the memory held; when that was set bits and 0, a
  beat dispatches and pings nothing, whatever is queued.
\<close>

theorem worker_lifecycle:
  assumes "mt_wf mt" "sq_inv queue" "len < 2 ^ 58" "card (mt_used mt) < 512"
  shows "\<exists>mt1 wk. mcmchWorkerCreate (\<lambda>_. True) junk junk_try junk_mon beat ctx queue len mt = Some (mt1, Inr wk)
     \<and> (if 512 < card (mt_used mt) + 1 + len then mcmchWorkerStart sub ctxs mt1 wk = None
        else \<exists>mt2 wk2 mt3. mcmchWorkerStart sub ctxs mt1 wk = Some (mt2, wk2, MCMPST_SUCCESS) \<and> wk_wf wk2
          \<and> wk_bitmap wk2 = map junk [0..<(len + 7) div 8] \<and> wk_failstry wk2 = junk_try
          \<and> staffed mt2 (wk_monitors wk2) {..<len} \<and> card (mt_used mt2) = card (mt_used mt) + 1 + len
          \<and> mcmchWorkerDestroy mt2 wk2 = Some (mt3, MCMPST_SUCCESS) \<and> mt_used mt3 = mt_used mt
          \<and> (junk_try = 0 \<and> (\<forall>k < len. bm_bit (wk_bitmap wk2) k) \<longrightarrow>
               (\<exists>wk3. worker_beat wk2 = Some (wk3, []) \<and> sq_view (wk_queue wk3) = sq_view queue)))"
proof -
  define blen where "blen = (len + 7) div 8"
  have "blen \<le> len + 7" by (simp add: blen_def)
  then have small: "32 * len < size_max" "len + 7 < size_max" "64 + blen + 32 * len < size_max" using assms(3) by simp_all
  from monitor_created [OF assms(1) less_imp_neq [OF assms(4)], of beat ctx] obtain m mt0 where
      new: "mcmchMonitorCreate mt True beat ctx = Some (mt0, MCMPST_SUCCESS, Some m)" "mt_wf mt0" "m < 512" "m \<notin> mt_used mt"
      "mt_used mt0 = insert m (mt_used mt)" by blast
  note started = monitor_started [OF new(2,3)]
  define mt1 where "mt1 = mcmchMonitorStart mt0 m"
  define wk where "wk = \<lparr>wk_master = m, wk_queue = queue, wk_bitmap_length = blen, wk_length = len, wk_failstry = junk_try,
     wk_bitmap = map junk [0..<blen], wk_monitors = map junk_mon [0..<len]\<rparr>"
  have created: "mcmchWorkerCreate (\<lambda>_. True) junk junk_try junk_mon beat ctx queue len mt = Some (mt1, Inr wk)"
    using small new(1) by (simp add: mcmchWorkerCreate_def blen_def [symmetric] wk_def mt1_def Let_def min_def)
  have wf1: "mt_wf mt1" and used1: "mt_used mt1 = insert m (mt_used mt)" using started new(5) by (simp_all add: mt1_def)
  then have card1: "card (mt_used mt1) = card (mt_used mt) + 1" using new(4) by (simp add: mt_used_finite)
  have run1: "mo_running (mt_table mt1 ! m)" using started(3) new(2,3) by (simp add: mt1_def mt_wf_def)
  show ?thesis
  proof (cases "512 < card (mt_used mt) + 1 + len")
    case True
    then have "worker_start_loop sub ctxs len 0 mt1 (map junk_mon [0..<len]) = None"
      using worker_start_full [OF wf1, of 0 len sub ctxs] card1 assms(4) by simp
    then show ?thesis using True created by (simp add: mcmchWorkerStart_def wk_def)
  next
    case False
    have "staffed mt1 (map junk_mon [0..<len]) {..<0}" by (simp add: staffed_def)
    then obtain mt2 ms where start: "worker_start_loop sub ctxs len 0 mt1 (map junk_mon [0..<len]) = Some (mt2, ms)" "mt_wf mt2"
        "length ms = len" "staffed mt2 ms {..<len}" "mt_used mt2 = mt_used mt1 \<union> (\<lambda>j. wm_monitor (ms ! j)) ` {0..<len}"
        "\<forall>k \<in> mt_used mt1. mt_table mt2 ! k = mt_table mt1 ! k"
        "mt_used mt1 \<inter> (\<lambda>j. wm_monitor (ms ! j)) ` {0..<len} = {}"
      using worker_start_ok [OF wf1, of 0 len "map junk_mon [0..<len]" sub ctxs] False card1 by auto
    define wk2 where "wk2 = wk\<lparr>wk_monitors := ms\<rparr>"
    have mons: "set (map wm_monitor ms) = (\<lambda>j. wm_monitor (ms ! j)) ` {0..<len}"
    proof -
      have "set ms = (\<lambda>j. ms ! j) ` {0..<len}" using start(3) by (auto simp: set_conv_nth)
      then show ?thesis by (simp add: image_image)
    qed
    have dist: "distinct (map wm_monitor ms)"
      using start(3,4) by (auto simp: distinct_conv_nth staffed_def inj_on_def)
    have card2: "card (mt_used mt2) = card (mt_used mt) + 1 + len"
    proof -
      have "card ((\<lambda>j. wm_monitor (ms ! j)) ` {0..<len}) = len"
        using start(4) card_image [of "\<lambda>j. wm_monitor (ms ! j)" "{0..<len}"] by (simp add: staffed_def lessThan_atLeast0)
      then show ?thesis using start(5,7) card1 by (simp add: card_Un_disjoint mt_used_finite)
    qed
    have m2: "m \<in> mt_used mt2" "mo_running (mt_table mt2 ! m)" using start(5,6) used1 run1 by auto
    from monitor_destroyed [OF start(2) this] obtain mt3 where mt3: "mcmchMonitorDestroy mt2 m = Some (mt3, MCMPST_SUCCESS)" "mt_wf mt3"
        "mt_used mt3 = mt_used mt2 - {m}" "mt_table mt3 = (mt_table mt2)[m := (mt_table mt2 ! m)\<lparr>mo_running := False\<rparr>]"
      by blast
    have not_m: "wm_monitor x \<noteq> m" if "x \<in> set ms" for x
      using that start(7) used1 mons by auto
    have "mo_running (mt_table mt3 ! wm_monitor x)" if "x \<in> set ms" for x
      using start(3,4) not_m [OF that] that by (auto simp: mt3(4) staffed_def in_set_conv_nth)
    then have "\<forall>x \<in> set ms. mo_running (mt_table mt3 ! wm_monitor x)" by blast
    moreover have "m \<notin> set (map wm_monitor ms)" using not_m by auto
    then have "set (map wm_monitor ms) \<subseteq> mt_used mt3"
      unfolding mt3(3) subset_Diff_insert [of _ _ m "{}"] using start(5) mons by auto
    ultimately obtain mt4 where mt4: "worker_destroy_loop mt3 ms = Some mt4" "mt_used mt4 = mt_used mt3 - set (map wm_monitor ms)"
      using worker_destroy_ok [OF mt3(2) dist] by blast
    have "mt_used mt4 = mt_used mt" using mt4(2) mt3(3) start(5,7) used1 new(4) mons by auto
    moreover have "mcmchWorkerDestroy mt2 wk2 = Some (mt4, MCMPST_SUCCESS)"
      using mt3(1) mt4(1) start(3) by (simp add: mcmchWorkerDestroy_def wk2_def wk_def)
    moreover have wf: "wk_wf wk2" using assms(2,3) start(3) by (simp add: wk2_def wk_def wk_wf_def blen_def)
    moreover have "\<exists>wk3. worker_beat wk2 = Some (wk3, []) \<and> sq_view (wk_queue wk3) = sq_view queue"
      if "junk_try = 0" "\<forall>k < len. bm_bit (wk_bitmap wk2) k"
    proof -
      have none: "beat_free wk2 = (\<lambda>_. False)" using that by (auto simp: beat_free_def wk2_def wk_def fun_eq_iff)
      then have "beat_idle wk2 = []" by (simp add: beat_idle_def)
      then show ?thesis using worker_beat_runs [OF wf] none by (auto simp: wk2_def wk_def)
    qed
    moreover have "mcmchWorkerStart sub ctxs mt1 wk = Some (mt2, wk2, MCMPST_SUCCESS)"
      using start(1) by (simp add: mcmchWorkerStart_def wk2_def wk_def)
    moreover have "wk_bitmap wk2 = map junk [0..<(len + 7) div 8]" "wk_failstry wk2 = junk_try" "wk_monitors wk2 = ms"
      by (simp_all add: wk2_def wk_def blen_def)
    ultimately show ?thesis using False created card2 start(4)
      by (intro exI [of _ mt1] exI [of _ wk]) auto
  qed
qed

theorem worker_lifecycle_witness:
  "\<exists>mt1 wk mt2 wk2. mcmchWorkerCreate (\<lambda>_. True) (\<lambda>_. 255) 0 (\<lambda>_. \<lparr>wm_monitor = 0, wm_task = 0, wm_finished = False\<rparr>) 1 2
       sample_queue 3 \<lparr>mt_slots = replicate 64 0, mt_table = replicate 512
      \<lparr>mo_static = False, mo_ctx = 0, mo_beat = 0, mo_running = False\<rparr>\<rparr> = Some (mt1, Inr wk)
     \<and> mcmchWorkerStart 3 (\<lambda>i. i) mt1 wk = Some (mt2, wk2, MCMPST_SUCCESS)"
proof -
  let ?mt = "\<lparr>mt_slots = replicate 64 0, mt_table = replicate 512
      \<lparr>mo_static = False, mo_ctx = 0, mo_beat = 0, mo_running = False\<rparr>\<rparr>"
  have wf: "mt_wf ?mt" by (simp add: mt_wf_def bm_bit_def)
  have "mt_used ?mt = {}" by (auto simp: mt_used_def plain_slots.used_def bm_bit_def)
  then show ?thesis
    using worker_lifecycle [OF wf sample_queue_ok(1), of 3 "\<lambda>_. 255" 0 "\<lambda>_. \<lparr>wm_monitor = 0, wm_task = 0, wm_finished = False\<rparr>" 1 2 3 "\<lambda>i. i"]
    by auto
qed

text \<open>Three worker monitors: the first is busy, the second has a task that it has not begun, the third is idle.\<close>

definition sample_worker :: worker where
  "sample_worker = \<lparr>wk_master = 0, wk_queue = sample_queue, wk_bitmap_length = 1, wk_length = 3, wk_failstry = 0, wk_bitmap = [1],
     wk_monitors = [\<lparr>wm_monitor = 1, wm_task = 7, wm_finished = False\<rparr>, \<lparr>wm_monitor = 2, wm_task = 6, wm_finished = False\<rparr>,
        \<lparr>wm_monitor = 3, wm_task = 5, wm_finished = True\<rparr>]\<rparr>"

theorem worker_beat_dispatches_witness:
  "\<exists>wk'. worker_beat sample_worker = Some (wk', [1, 2]) \<and> wm_task (wk_monitors wk' ! 2) = 3 \<and> sq_view (wk_queue wk') = [1]"
proof -
  have wf: "wk_wf sample_worker" using sample_queue_ok(1) by (simp add: sample_worker_def wk_wf_def)
  have free: "filter (beat_free sample_worker) [0, 1, 2] = [1, 2]" by (simp add: beat_free_def sample_worker_def bm_bit_def)
  have idle: "beat_idle sample_worker = [2]"
    by (simp add: beat_idle_def beat_free_def sample_worker_def bm_bit_def upt_rec)
  have len: "[0..<wk_length sample_worker] = [0, 1, 2]" by (simp add: sample_worker_def upt_rec)
  have view: "sq_view (wk_queue sample_worker) = [3, 1]" using sample_queue_ok(2) by (simp add: sample_worker_def)
  show ?thesis
    using worker_beat_dispatches [OF wf idle [symmetric] view [symmetric]] free by (auto simp: len)
qed

end
