(* ===== verification/Machine.thy ===== *)
theory Machine
  imports Mcmp_Prelude
begin

text \<open>
  Threads as deterministic machines with inputs: one input for each step, saying what the environment
  answers at that point, and \<open>None\<close> when an input does not fit the point. A run is a list of inputs. The
  locale states once that what every step keeps holds after every run.
\<close>

fun runs :: "('i \<Rightarrow> 's \<Rightarrow> 's option) \<Rightarrow> 'i list \<Rightarrow> 's \<Rightarrow> 's option" where
  "runs next [] s = Some s"
| "runs next (i # is) s = do { s' \<leftarrow> next i s; runs next is s' }"

lemma runs_append: "runs next (is @ js) s = do { s' \<leftarrow> runs next is s; runs next js s' }"
  by (induction "is" arbitrary: s) (auto split: Option.bind_splits)

locale machine =
  fixes step :: "'i \<Rightarrow> 's \<Rightarrow> 's option"
    and inv :: "'s \<Rightarrow> bool"
  assumes step_inv: "inv s \<Longrightarrow> step i s = Some s' \<Longrightarrow> inv s'"
begin

lemma runs_inv: "inv s \<Longrightarrow> runs step is s = Some s' \<Longrightarrow> inv s'"
  by (induction "is" arbitrary: s) (auto split: Option.bind_splits intro: step_inv)

end

end
