(* ===== verification/Monitor_System.thy ===== *)
theory Monitor_System
  imports Monitor Machine
begin

text \<open>
  A started monitor as a concurrent system: its thread, the threads that ping it and the one that destroys
  it (\<^verbatim>\<open>routines/src/linux/monitor.c\<close>, \<open>__priv__mcmch_monitor_handler\<close>, \<open>mcmchMonitorPing\<close>,
  \<open>mcmchMonitorDestroy\<close>), one step for each access to the running flag and for each call of the system. A signal
  sent to the thread is pending until a \<^verbatim>\<open>sigwait\<close> consumes it, and two that are sent before are one; a signal that
  the thread does not block ends the process, which is its default action. A new thread inherits the mask of the thread that
  started it, and blocks \<^verbatim>\<open>SIGUSR1\<close> itself only when it runs.
\<close>

section \<open>The system\<close>

datatype thread_pc = Th_New | Th_Test | Th_Wait | Th_Check int errno | Th_Beat int errno | Th_End

datatype owner_pc = Ow_Idle | Ow_Kill | Ow_Join | Ow_Free | Ow_Done

text \<open>\<open>mx_beats\<close> records the calls of the handler: the function, its status and its context.\<close>

record mon_sys =
  mx_table :: monitors
  mx_pc :: thread_pc
  mx_blocked :: bool
  mx_pending :: bool
  mx_owner :: owner_pc
  mx_beats :: "(nat \<times> mcmpst \<times> nat) list"
  mx_pings :: nat
  mx_killed :: bool

datatype mon_input = Ping | Thread int errno | Owner

abbreviation mx_running :: "mon_sys \<Rightarrow> nat \<Rightarrow> bool" where
  "mx_running s m \<equiv> mo_running (mt_table (mx_table s) ! m)"

definition mon_signal :: "mon_sys \<Rightarrow> mon_sys" where
  "mon_signal s = (if mx_pc s = Th_End then s else if mx_blocked s then s\<lparr>mx_pending := True\<rparr> else s\<lparr>mx_killed := True\<rparr>)"

definition mcmchMonitorPing :: "mon_sys \<Rightarrow> mon_sys \<times> mcmpst" where
  "mcmchMonitorPing s = (mon_signal s, MCMPST_SUCCESS)"

text \<open>What \<^verbatim>\<open>sigwait\<close> documents: it returns 0 and has consumed a pending signal of its set.\<close>

definition sigwait_returns :: "bool \<Rightarrow> int \<Rightarrow> bool" where
  "sigwait_returns pending status \<longleftrightarrow> pending \<and> status = 0"

definition mx_beat :: "nat \<Rightarrow> mcmpst \<Rightarrow> mon_sys \<Rightarrow> mon_sys" where
  "mx_beat m st s = (let mo = mt_table (mx_table s) ! m in s\<lparr>mx_beats := mx_beats s @ [(mo_beat mo, st, mo_ctx mo)]\<rparr>)"

fun mon_thread_at :: "thread_pc \<Rightarrow> int \<Rightarrow> errno \<Rightarrow> nat \<Rightarrow> mon_sys \<Rightarrow> mon_sys option" where
  "mon_thread_at Th_New _ _ m s = Some (s\<lparr>mx_blocked := True, mx_pc := Th_Test\<rparr>)"
| "mon_thread_at Th_Test _ _ m s = Some (s\<lparr>mx_pc := if mx_running s m then Th_Wait else Th_End\<rparr>)"
| "mon_thread_at Th_Wait status err m s =
     (if sigwait_returns (mx_pending s) status then Some (s\<lparr>mx_pending := False, mx_pc := Th_Check status err\<rparr>) else None)"
| "mon_thread_at (Th_Check status err) _ _ m s =
     Some (s\<lparr>mx_pc := if \<not> mx_running s m then Th_End else Th_Beat status err\<rparr>)"
| "mon_thread_at (Th_Beat status err) _ _ m s =
     (let s = mx_beat m MCMPST_SUCCESS s
      in Some (if status = -1 then
                 (case err of
                    EAGAIN \<Rightarrow> mx_beat m MCMPST_OVTIMEOUT s\<lparr>mx_pc := Th_Test\<rparr>
                  | EINTR \<Rightarrow> s\<lparr>mx_pc := Th_Test\<rparr>
                  | OtherError \<Rightarrow> mx_beat m MCMPST_CRITICAL s\<lparr>mx_pc := Th_End\<rparr>)
               else s\<lparr>mx_pc := Th_Test\<rparr>))"
| "mon_thread_at Th_End _ _ m s = None"

fun mon_owner_at :: "owner_pc \<Rightarrow> nat \<Rightarrow> mon_sys \<Rightarrow> mon_sys option" where
  "mon_owner_at Ow_Idle m s =
     Some (s\<lparr>mx_table := (mx_table s)\<lparr>mt_table := (mt_table (mx_table s))[m := (mt_table (mx_table s) ! m)\<lparr>mo_running := False\<rparr>]\<rparr>,
       mx_owner := Ow_Kill\<rparr>)"
| "mon_owner_at Ow_Kill m s = Some ((mon_signal s)\<lparr>mx_owner := Ow_Join\<rparr>)"
| "mon_owner_at Ow_Join m s = (if mx_pc s = Th_End then Some (s\<lparr>mx_owner := Ow_Free\<rparr>) else None)"
| "mon_owner_at Ow_Free m s =
     (if mo_static (mt_table (mx_table s) ! m)
      then do { slots \<leftarrow> mcmpBitmapDisableBit (mt_slots (mx_table s)) (int m);
                Some (s\<lparr>mx_table := (mx_table s)\<lparr>mt_slots := slots\<rparr>, mx_owner := Ow_Done\<rparr>) }
      else Some (s\<lparr>mx_owner := Ow_Done\<rparr>))"
| "mon_owner_at Ow_Done m s = None"

text \<open>Nothing runs in a process that ended; a thread that was joined can no longer be signalled.\<close>

fun mon_step :: "nat \<Rightarrow> mon_input \<Rightarrow> mon_sys \<Rightarrow> mon_sys option" where
  "mon_step m i s = (if mx_killed s then None else case i of
       Ping \<Rightarrow> if mx_owner s = Ow_Free \<or> mx_owner s = Ow_Done then None
               else Some ((fst (mcmchMonitorPing s))\<lparr>mx_pings := mx_pings s + 1\<rparr>)
     | Thread status err \<Rightarrow> mon_thread_at (mx_pc s) status err m s
     | Owner \<Rightarrow> mon_owner_at (mx_owner s) m s)"

declare mon_step.simps [simp del]

definition mon_started :: "monitors \<Rightarrow> nat \<Rightarrow> bool \<Rightarrow> mon_sys" where
  "mon_started mt m inherited = \<lparr>mx_table = mcmchMonitorStart mt m, mx_pc = Th_New, mx_blocked = inherited, mx_pending = False,
     mx_owner = Ow_Idle, mx_beats = [], mx_pings = 0, mx_killed = False\<rparr>"

section \<open>What every step keeps\<close>

abbreviation stopped :: "monitors \<Rightarrow> nat \<Rightarrow> monitors" where
  "stopped mt m \<equiv> mt\<lparr>mt_table := (mt_table mt)[m := (mt_table mt ! m)\<lparr>mo_running := False\<rparr>]\<rparr>"

fun in_hand :: "thread_pc \<Rightarrow> nat" where
  "in_hand (Th_Check _ _) = 1"
| "in_hand (Th_Beat _ _) = 1"
| "in_hand _ = 0"

fun beating :: "thread_pc \<Rightarrow> nat" where
  "beating (Th_Beat _ _) = 1"
| "beating _ = 0"

lemma in_hand_beating: "beating p \<le> in_hand p"
  by (cases p) simp_all

fun clean_wait :: "thread_pc \<Rightarrow> bool" where
  "clean_wait (Th_Check status _) = (status = 0)"
| "clean_wait (Th_Beat status _) = (status = 0)"
| "clean_wait _ = True"

definition signalled :: "owner_pc \<Rightarrow> bool" where
  "signalled ow \<longleftrightarrow> ow = Ow_Join \<or> ow = Ow_Free \<or> ow = Ow_Done"

text \<open>The table during the destruction, step by step, from the table \<open>mt\<close> with the started monitor.\<close>

definition mon_table :: "monitors \<Rightarrow> nat \<Rightarrow> owner_pc \<Rightarrow> monitors" where
  "mon_table mt m ow = (case ow of Ow_Idle \<Rightarrow> mt | Ow_Done \<Rightarrow> fst (the (mcmchMonitorDestroy mt m)) | _ \<Rightarrow> stopped mt m)"

text \<open>
  Beats are paid for by pings: until the destruction sends its signal, a wake-up under way and a pending signal are
  paid for too; after it only a wake-up that found the flag set is.
\<close>

definition mon_paid :: "mon_sys \<Rightarrow> nat \<Rightarrow> bool" where
  "mon_paid s k \<longleftrightarrow> (if signalled (mx_owner s) then k + beating (mx_pc s) \<le> mx_pings s
     else k + in_hand (mx_pc s) + of_bool (mx_pending s) \<le> mx_pings s)"

definition mon_ctl :: "bool \<Rightarrow> monitors \<Rightarrow> nat \<Rightarrow> mon_sys \<Rightarrow> bool" where
  "mon_ctl inherited mt m s \<longleftrightarrow> mx_table s = mon_table mt m (mx_owner s)
     \<and> (mx_owner s = Ow_Free \<or> mx_owner s = Ow_Done \<longrightarrow> mx_pc s = Th_End)
     \<and> (mx_owner s = Ow_Join \<and> mx_pc s = Th_Wait \<longrightarrow> mx_pending s)
     \<and> (mx_owner s = Ow_Idle \<longrightarrow> mx_pc s \<noteq> Th_End)
     \<and> (mx_pc s \<noteq> Th_New \<longrightarrow> mx_blocked s) \<and> (inherited \<longrightarrow> mx_blocked s) \<and> (mx_killed s \<longrightarrow> \<not> inherited)
     \<and> clean_wait (mx_pc s)"

definition mon_inv :: "bool \<Rightarrow> monitors \<Rightarrow> nat \<Rightarrow> mon_sys \<Rightarrow> bool" where
  "mon_inv inherited mt m s \<longleftrightarrow> mon_ctl inherited mt m s
     \<and> (\<exists>k. mx_beats s = replicate k (mo_beat (mt_table mt ! m), MCMPST_SUCCESS, mo_ctx (mt_table mt ! m)) \<and> mon_paid s k)"

lemma mon_inv_step:
  assumes "mon_inv inherited mt m s" "mon_ctl inherited mt m s'" "mx_beats s' = mx_beats s"
    "\<And>k. mon_paid s k \<Longrightarrow> mon_paid s' k"
  shows "mon_inv inherited mt m s'"
  using assms by (auto simp: mon_inv_def)

lemma mon_inv_ctl: "mon_inv inherited mt m s \<Longrightarrow> mon_ctl inherited mt m s"
  by (simp add: mon_inv_def)

text \<open>A monitor in use whose flag is set.\<close>

definition mon_up :: "monitors \<Rightarrow> nat \<Rightarrow> bool" where
  "mon_up mt m \<longleftrightarrow> mt_wf mt \<and> m \<in> mt_used mt \<and> mo_running (mt_table mt ! m)"

lemma mon_up_size: "mon_up mt m \<Longrightarrow> m < length (mt_table mt)"
  using mt_used_static [of mt m] by (simp add: mon_up_def mt_wf_def)

lemma mon_table_entries:
  assumes "mon_up mt m"
  shows "mt_table (mon_table mt m ow) =
     (if ow = Ow_Idle then mt_table mt else (mt_table mt)[m := (mt_table mt ! m)\<lparr>mo_running := False\<rparr>])"
proof (cases "ow = Ow_Done")
  case True
  then show ?thesis using monitor_destroyed assms unfolding mon_up_def by (force simp: mon_table_def)
qed (cases ow, simp_all add: mon_table_def)

lemma mon_table_entry:
  assumes "mon_up mt m"
  shows "mo_running (mt_table (mon_table mt m ow) ! m) \<longleftrightarrow> ow = Ow_Idle"
    "mo_beat (mt_table (mon_table mt m ow) ! m) = mo_beat (mt_table mt ! m)"
    "mo_ctx (mt_table (mon_table mt m ow) ! m) = mo_ctx (mt_table mt ! m)"
proof -
  have up: "mo_running (mt_table mt ! m)" using assms by (simp add: mon_up_def)
  show "mo_running (mt_table (mon_table mt m ow) ! m) \<longleftrightarrow> ow = Ow_Idle"
    "mo_beat (mt_table (mon_table mt m ow) ! m) = mo_beat (mt_table mt ! m)"
    "mo_ctx (mt_table (mon_table mt m ow) ! m) = mo_ctx (mt_table mt ! m)"
    by (simp_all add: mon_table_entries [OF assms] mon_up_size [OF assms] up)
qed

text \<open>The last step of the destruction gives the table that the destruction in one step gives.\<close>

lemma mon_table_freed:
  assumes "mon_up mt m"
  shows "\<exists>slots. mo_static (mt_table (stopped mt m) ! m) \<and> mcmpBitmapDisableBit (mt_slots mt) (int m) = Some slots
     \<and> mcmchMonitorDestroy mt m = Some ((stopped mt m)\<lparr>mt_slots := slots\<rparr>, MCMPST_SUCCESS)"
proof -
  have m: "mo_static (mt_table mt ! m)" "m < length (mt_table mt)" "mo_running (mt_table mt ! m)"
    using assms mt_used_static mon_up_size by (auto simp: mon_up_def)
  obtain mt' where "mcmchMonitorDestroy mt m = Some (mt', MCMPST_SUCCESS)"
    using monitor_destroyed assms unfolding mon_up_def by blast
  then show ?thesis using m by (auto simp: mcmchMonitorDestroy_def split: Option.bind_splits)
qed

lemma mon_running: "mon_up mt m \<Longrightarrow> mon_ctl inherited mt m s \<Longrightarrow> mx_running s m \<longleftrightarrow> mx_owner s = Ow_Idle"
  by (simp add: mon_ctl_def mon_table_entry(1))

lemma mon_beat_inv:
  assumes "mon_up mt m" "mon_inv inherited mt m s" "mx_pc s = Th_Beat st er" "mon_thread_at (Th_Beat st er) status err m s = Some s'"
  shows "mon_inv inherited mt m s'"
proof -
  let ?x = "(mo_beat (mt_table mt ! m), MCMPST_SUCCESS, mo_ctx (mt_table mt ! m))"
  note ctl = mon_inv_ctl [OF assms(2)]
  obtain k where k: "mx_beats s = replicate k ?x" "mon_paid s k" using assms(2) unfolding mon_inv_def by blast
  have "mx_beats s @ [?x] = replicate (Suc k) ?x" using k(1) by (simp add: replicate_append_same)
  moreover have "s' = s\<lparr>mx_beats := mx_beats s @ [?x], mx_pc := Th_Test\<rparr>"
    using ctl assms(3,4) mon_table_entry [OF assms(1)] by (auto simp: mon_ctl_def mx_beat_def Let_def)
  ultimately have s': "s' = s\<lparr>mx_beats := replicate (Suc k) ?x, mx_pc := Th_Test\<rparr>" by (simp only:)
  have "mon_paid s' (Suc k)" using k(2) assms(3) by (auto simp: s' mon_paid_def simp del: replicate.simps split: if_splits)
  moreover have "mon_ctl inherited mt m s'" using ctl assms(3) by (auto simp: mon_ctl_def s' simp del: replicate.simps)
  ultimately show ?thesis unfolding mon_inv_def by (auto simp: s' intro!: exI [of _ "Suc k"])
qed

lemma mon_thread_inv:
  assumes "mon_up mt m" "mon_inv inherited mt m s" "mon_thread_at (mx_pc s) status err m s = Some s'"
  shows "mon_inv inherited mt m s'"
proof (cases "\<exists>st er. mx_pc s = Th_Beat st er")
  case True
  then show ?thesis using mon_beat_inv [OF assms(1,2)] assms(3) by fastforce
next
  case False
  note ctl = mon_inv_ctl [OF assms(2)]
  have same: "mx_table s' = mx_table s \<and> mx_owner s' = mx_owner s \<and> mx_killed s' = mx_killed s \<and> (mx_blocked s \<longrightarrow> mx_blocked s')"
    using False assms(3) by (cases "mx_pc s") (auto split: if_splits)
  have pc: "mx_pc s' \<noteq> Th_New \<and> mx_pc s \<noteq> Th_End \<and> (mx_pc s = Th_New \<longrightarrow> mx_blocked s') \<and> (mx_pc s' = Th_Wait \<longrightarrow> mx_owner s = Ow_Idle)
      \<and> (mx_pc s' = Th_End \<longrightarrow> mx_owner s \<noteq> Ow_Idle) \<and> (clean_wait (mx_pc s) \<longrightarrow> clean_wait (mx_pc s'))"
    using False assms(3) mon_running [OF assms(1) ctl]
    by (cases "mx_pc s") (auto simp: sigwait_returns_def split: if_splits)
  have "mon_ctl inherited mt m s'" using ctl same pc unfolding mon_ctl_def by (cases "mx_owner s") auto
  moreover have "mon_paid s' k" if "mon_paid s k" for k
    using that False assms(3) mon_running [OF assms(1) ctl]
    by (cases "mx_pc s") (auto simp: mon_paid_def sigwait_returns_def signalled_def split: if_splits)
  moreover have "mx_beats s' = mx_beats s"
    using False assms(3) by (cases "mx_pc s") (auto split: if_splits)
  ultimately show ?thesis by (intro mon_inv_step [OF assms(2)])
qed

lemma mon_signal_beats [simp]: "mx_beats (mon_signal s) = mx_beats s" "mx_owner (mon_signal s) = mx_owner s"
  "mx_table (mon_signal s) = mx_table s" "mx_pc (mon_signal s) = mx_pc s" "mx_blocked (mon_signal s) = mx_blocked s"
  by (simp_all add: mon_signal_def)

lemma mon_signal_flags:
  "mx_pending (mon_signal s) \<longleftrightarrow> mx_pending s \<or> mx_pc s \<noteq> Th_End \<and> mx_blocked s"
  "mx_killed (mon_signal s) \<longleftrightarrow> mx_killed s \<or> mx_pc s \<noteq> Th_End \<and> \<not> mx_blocked s"
  by (auto simp: mon_signal_def)

lemma mon_ping_inv:
  assumes "mon_inv inherited mt m s"
  shows "mon_inv inherited mt m ((mon_signal s)\<lparr>mx_pings := mx_pings s + 1\<rparr>)"
proof (rule mon_inv_step [OF assms])
  show "mon_ctl inherited mt m ((mon_signal s)\<lparr>mx_pings := mx_pings s + 1\<rparr>)"
    using mon_inv_ctl [OF assms] by (auto simp: mon_ctl_def mon_signal_flags)
  show "mon_paid ((mon_signal s)\<lparr>mx_pings := mx_pings s + 1\<rparr>) k" if "mon_paid s k" for k
    using that by (auto simp: mon_paid_def mon_signal_flags of_bool_def split: if_splits)
qed simp

lemma mon_owner_inv:
  assumes "mon_up mt m" "mon_inv inherited mt m s" "mon_owner_at (mx_owner s) m s = Some s'"
  shows "mon_inv inherited mt m s'"
proof -
  note ctl = mon_inv_ctl [OF assms(2)]
  have free: "mx_table s' = mon_table mt m Ow_Done" "s' = s\<lparr>mx_table := mx_table s', mx_owner := Ow_Done\<rparr>"
    if "mx_owner s = Ow_Free"
    using that ctl assms(3) mon_table_freed [OF assms(1)] by (auto simp: mon_ctl_def mon_table_def)
  have "mon_ctl inherited mt m s'"
  proof (cases "mx_owner s = Ow_Free")
    case True
    then show ?thesis using ctl free by (cases s') (simp add: mon_ctl_def)
  next
    case False
    then show ?thesis using ctl assms(3)
      by (cases "mx_owner s") (auto simp: mon_ctl_def mon_table_def mon_signal_flags split: if_splits)
  qed
  moreover have "mx_beats s' = mx_beats s \<and> mx_pings s' = mx_pings s \<and> mx_pc s' = mx_pc s
      \<and> (mx_owner s' \<noteq> Ow_Join \<longrightarrow> mx_pending s' = mx_pending s) \<and> (signalled (mx_owner s) \<longrightarrow> signalled (mx_owner s'))
      \<and> (\<not> signalled (mx_owner s) \<and> signalled (mx_owner s') \<longrightarrow> mx_owner s' = Ow_Join)"
    using assms(3) by (cases "mx_owner s") (auto simp: signalled_def mon_signal_def split: if_splits Option.bind_splits)
  ultimately show ?thesis
    using in_hand_beating [of "mx_pc s"]
    by (intro mon_inv_step [OF assms(2)]) (auto simp: mon_paid_def signalled_def of_bool_def split: if_splits)
qed

lemma mon_step_inv:
  "mon_up mt m \<Longrightarrow> mon_inv inherited mt m s \<Longrightarrow> mon_step m i s = Some s' \<Longrightarrow> mon_inv inherited mt m s'"
  using mon_ping_inv [of inherited mt m s] mon_thread_inv [of mt m inherited s] mon_owner_inv [of mt m inherited s s']
  by (cases i) (auto simp: mon_step.simps mcmchMonitorPing_def split: if_splits)

text \<open>The law of the machine holds for a monitor that is up; for others the invariant is not claimed.\<close>

interpretation mon: machine "mon_step m" "\<lambda>s. mon_up mt m \<longrightarrow> mon_inv inherited mt m s" for m mt inherited
  by unfold_locales (blast intro: mon_step_inv)

lemma mon_started_inv: "mon_inv inherited (mcmchMonitorStart mt m) m (mon_started mt m inherited)"
  by (simp add: mon_inv_def mon_ctl_def mon_started_def mon_table_def mon_paid_def signalled_def)

section \<open>Pings and beats\<close>

text \<open>A ping at which the handler had been called \<open>n\<close> times is answered, or will be.\<close>

definition mon_answering :: "nat \<Rightarrow> mon_sys \<Rightarrow> bool" where
  "mon_answering n s \<longleftrightarrow> n < length (mx_beats s) \<or> n = length (mx_beats s)
     \<and> (mx_pc s = Th_End \<or> mx_killed s \<and> mx_pc s = Th_New \<or> mx_pending s \<or> in_hand (mx_pc s) = 1)"

lemma mon_thread_answering:
  "mon_answering n s \<Longrightarrow> \<not> mx_killed s \<Longrightarrow> mon_thread_at (mx_pc s) status err m s = Some s' \<Longrightarrow> mon_answering n s'"
  by (cases "mx_pc s") (auto simp: mon_answering_def mx_beat_def Let_def split: if_splits errno.splits)

lemma mon_owner_answering: "mon_answering n s \<Longrightarrow> mon_owner_at (mx_owner s) m s = Some s' \<Longrightarrow> mon_answering n s'"
  by (cases "mx_owner s") (auto simp: mon_answering_def mon_signal_flags split: if_splits Option.bind_splits)

lemma mon_step_answering: "mon_answering n s \<Longrightarrow> mon_step m i s = Some s' \<Longrightarrow> mon_answering n s'"
  using mon_thread_answering [of n s] mon_owner_answering [of n s m s']
  by (cases i) (auto simp: mon_step.simps mcmchMonitorPing_def mon_answering_def mon_signal_flags split: if_splits)

interpretation ans: machine "mon_step m" "mon_answering n" for m n
  by unfold_locales (rule mon_step_answering)

lemma mon_up_started: "mt_wf mt \<Longrightarrow> m \<in> mt_used mt \<Longrightarrow> mon_up (mcmchMonitorStart mt m) m"
  using mt_used_static [of mt m] monitor_started [of mt m] by (simp add: mon_up_def mt_wf_def)

lemma mon_runs_inv:
  assumes "mt_wf mt" "m \<in> mt_used mt" "runs (mon_step m) is (mon_started mt m inherited) = Some s"
  shows "mon_inv inherited (mcmchMonitorStart mt m) m s"
  using mon.runs_inv [OF _ assms(3), of "mcmchMonitorStart mt m" inherited] mon_started_inv mon_up_started [OF assms(1,2)]
  by blast

lemma monitor_entry_started:
  "mt_wf mt \<Longrightarrow> m \<in> mt_used mt \<Longrightarrow> mo_beat (mt_table (mcmchMonitorStart mt m) ! m) = mo_beat (mt_table mt ! m)
     \<and> mo_ctx (mt_table (mcmchMonitorStart mt m) ! m) = mo_ctx (mt_table mt ! m)"
  using mt_used_static [of mt m] by (simp add: mcmchMonitorStart_def mt_wf_def)

lemma mon_ping_answering:
  assumes "mon_ctl inherited mt m s" "mon_step m Ping s = Some s'"
  shows "mon_answering (length (mx_beats s)) s'"
  using assms by (auto simp: mon_step.simps mcmchMonitorPing_def mon_answering_def mon_signal_flags mon_ctl_def split: if_splits)

text \<open>
  C8: A monitor answers its pings: in every interleaving of its thread, the threads that ping it and the one that destroys it,
  the handler is called only with MCMPST_SUCCESS and the context of its creation and at most as many times as there were
  pings; and a ping is never lost: when the thread is back in its wait with no signal pending, the handler has been called since the ping.
\<close>
theorem monitor_answers_pings:
  assumes "mt_wf mt" "m \<in> mt_used mt" "runs (mon_step m) is (mon_started mt m inherited) = Some s"
  shows "(\<exists>k \<le> mx_pings s. mx_beats s = replicate k (mo_beat (mt_table mt ! m), MCMPST_SUCCESS, mo_ctx (mt_table mt ! m)))
    \<and> (\<forall>js s'. runs (mon_step m) (Ping # js) s = Some s' \<and> mx_pc s' = Th_Wait \<and> \<not> mx_pending s'
         \<longrightarrow> length (mx_beats s) < length (mx_beats s'))"
proof (intro conjI allI impI)
  note inv = mon_runs_inv [OF assms]
  show "\<exists>k \<le> mx_pings s. mx_beats s = replicate k (mo_beat (mt_table mt ! m), MCMPST_SUCCESS, mo_ctx (mt_table mt ! m))"
    using inv monitor_entry_started [OF assms(1,2)] by (auto simp: mon_inv_def mon_paid_def split: if_splits)
  fix js s' assume *: "runs (mon_step m) (Ping # js) s = Some s' \<and> mx_pc s' = Th_Wait \<and> \<not> mx_pending s'"
  then obtain t where t: "mon_step m Ping s = Some t" "runs (mon_step m) js t = Some s'"
    by (auto split: Option.bind_splits)
  have "mon_answering (length (mx_beats s)) s'"
    using ans.runs_inv [OF mon_ping_answering [OF mon_inv_ctl [OF inv] t(1)] t(2)] .
  then show "length (mx_beats s) < length (mx_beats s')" using * by (simp add: mon_answering_def)
qed

text \<open>A started monitor: the first entry of an empty table, with handler 7 and context 9.\<close>

definition sample_monitors :: monitors where
  "sample_monitors = fst (the (mcmchMonitorCreate \<lparr>mt_slots = replicate 64 0, mt_table = replicate 512
      \<lparr>mo_static = False, mo_ctx = 0, mo_beat = 0, mo_running = False\<rparr>\<rparr> True 7 9))"

lemma sample_monitors:
  "mt_wf sample_monitors" "mt_used sample_monitors = {0}" "mo_beat (mt_table sample_monitors ! 0) = 7"
  "mo_ctx (mt_table sample_monitors ! 0) = 9"
proof -
  let ?mt = "\<lparr>mt_slots = replicate 64 0, mt_table = replicate 512
      \<lparr>mo_static = False, mo_ctx = 0, mo_beat = 0, mo_running = False\<rparr>\<rparr>"
  have wf: "mt_wf ?mt" by (simp add: mt_wf_def bm_bit_def)
  have empty: "mt_used ?mt = {}" by (auto simp: mt_used_def plain_slots.used_def bm_bit_def)
  then obtain m mt' where new: "mcmchMonitorCreate ?mt True 7 9 = Some (mt', MCMPST_SUCCESS, Some m)" "mt_wf mt'"
      "{..<m} \<subseteq> mt_used ?mt" "mt_used mt' = insert m (mt_used ?mt)"
      "mt_table mt' = (mt_table ?mt)[m := \<lparr>mo_static = True, mo_ctx = 9, mo_beat = 7, mo_running = False\<rparr>]"
    using monitor_created [OF wf, of 7 9] by auto
  then have "m = 0" using empty by (cases m) auto
  then show "mt_wf sample_monitors" "mt_used sample_monitors = {0}" "mo_beat (mt_table sample_monitors ! 0) = 7"
      "mo_ctx (mt_table sample_monitors ! 0) = 9"
    using new empty by (simp_all add: sample_monitors_def)
qed

lemma sample_running: "mo_running (mt_table (mcmchMonitorStart sample_monitors 0) ! 0)"
  using mon_up_started [OF sample_monitors(1), of 0] by (simp add: sample_monitors(2) mon_up_def)

lemma sample_entry: "mo_beat (mt_table (mcmchMonitorStart sample_monitors 0) ! 0) = 7"
  "mo_ctx (mt_table (mcmchMonitorStart sample_monitors 0) ! 0) = 9"
  using monitor_entry_started [OF sample_monitors(1), of 0] by (simp_all add: sample_monitors)

lemmas mon_run_simps = mon_step.simps mcmchMonitorPing_def mon_signal_def mon_started_def sigwait_returns_def mx_beat_def

theorem monitor_answers_pings_witness:
  "\<exists>s s'. runs (mon_step 0) [Thread 0 EAGAIN, Thread 0 EAGAIN] (mon_started sample_monitors 0 False) = Some s
     \<and> runs (mon_step 0) [Ping, Ping, Thread 0 EAGAIN, Thread 0 EAGAIN, Thread 0 EAGAIN, Thread 0 EAGAIN] s = Some s'
     \<and> mx_pings s' = 2 \<and> mx_beats s' = [(7, MCMPST_SUCCESS, 9)] \<and> length (mx_beats s) < length (mx_beats s')"
proof -
  let ?s0 = "mon_started sample_monitors 0 False"
  have "\<exists>s. runs (mon_step 0) [Thread 0 EAGAIN, Thread 0 EAGAIN] ?s0 = Some s"
    by (simp add: mon_run_simps)
  then obtain s where s: "runs (mon_step 0) [Thread 0 EAGAIN, Thread 0 EAGAIN] ?s0 = Some s" ..
  then have "\<exists>s'. runs (mon_step 0) [Ping, Ping, Thread 0 EAGAIN, Thread 0 EAGAIN, Thread 0 EAGAIN, Thread 0 EAGAIN] s = Some s'
     \<and> mx_pc s' = Th_Wait \<and> \<not> mx_pending s' \<and> mx_pings s' = 2 \<and> mx_beats s' = [(7, MCMPST_SUCCESS, 9)]"
    by (auto simp: mon_run_simps sample_running sample_entry)
  then show ?thesis
    using monitor_answers_pings [OF sample_monitors(1) _ s] s sample_monitors(2) by blast
qed

section \<open>The destruction\<close>

fun thread_left :: "thread_pc \<Rightarrow> nat" where
  "thread_left Th_New = 2"
| "thread_left Th_Test = 1"
| "thread_left Th_Wait = 2"
| "thread_left (Th_Check _ _) = 1"
| "thread_left (Th_Beat _ _) = 2"
| "thread_left Th_End = 0"

fun owner_left :: "owner_pc \<Rightarrow> nat" where
  "owner_left Ow_Idle = 4"
| "owner_left Ow_Kill = 3"
| "owner_left Ow_Join = 2"
| "owner_left Ow_Free = 1"
| "owner_left Ow_Done = 0"

definition mon_left :: "mon_sys \<Rightarrow> nat" where
  "mon_left s = thread_left (mx_pc s) + owner_left (mx_owner s)"

lemma mon_step_left:
  assumes "mon_up mt m" "mon_ctl inherited mt m s" "mx_owner s \<noteq> Ow_Idle" "mon_step m i s = Some s'"
  shows "mx_owner s' \<noteq> Ow_Idle" "mon_left s' + of_bool (i \<noteq> Ping) \<le> mon_left s"
proof -
  note off = mon_running [OF assms(1,2)]
  have clean: "clean_wait (mx_pc s)" using assms(2) by (simp add: mon_ctl_def)
  have thread: "mx_owner s' = mx_owner s \<and> thread_left (mx_pc s') < thread_left (mx_pc s)"
    if "mon_thread_at (mx_pc s) status err m s = Some s'" for status err
    using that off clean assms(3) by (cases "mx_pc s") (auto simp: mx_beat_def Let_def split: if_splits)
  have owner: "mx_owner s' \<noteq> Ow_Idle \<and> mx_pc s' = mx_pc s \<and> owner_left (mx_owner s') < owner_left (mx_owner s)"
    if "mon_owner_at (mx_owner s) m s = Some s'"
    using that assms(3) by (cases "mx_owner s") (auto split: if_splits Option.bind_splits)
  have "mx_owner s' \<noteq> Ow_Idle \<and> mon_left s' + of_bool (i \<noteq> Ping) \<le> mon_left s"
  proof (cases i)
    case Ping
    then have "s' = (mon_signal s)\<lparr>mx_pings := mx_pings s + 1\<rparr>"
      using assms(4) by (simp add: mon_step.simps mcmchMonitorPing_def split: if_splits)
    then show ?thesis using assms(3) Ping by (simp add: mon_left_def)
  next
    case (Thread status err)
    then have "mon_thread_at (mx_pc s) status err m s = Some s'" using assms(4) by (simp add: mon_step.simps split: if_splits)
    from thread [OF this] show ?thesis using assms(3) Thread by (simp add: mon_left_def)
  next
    case Owner
    then have "mon_owner_at (mx_owner s) m s = Some s'" using assms(4) by (simp add: mon_step.simps split: if_splits)
    from owner [OF this] show ?thesis using Owner by (simp add: mon_left_def)
  qed
  then show "mx_owner s' \<noteq> Ow_Idle" "mon_left s' + of_bool (i \<noteq> Ping) \<le> mon_left s" by simp_all
qed

lemma mon_runs_left:
  assumes "mon_up mt m"
  shows "mon_inv inherited mt m s \<Longrightarrow> mx_owner s \<noteq> Ow_Idle \<Longrightarrow> runs (mon_step m) js s = Some s' \<Longrightarrow>
     mon_left s' + length (filter (\<lambda>i. i \<noteq> Ping) js) \<le> mon_left s"
proof (induction js arbitrary: s)
  case (Cons i js)
  then obtain t where t: "mon_step m i s = Some t" "runs (mon_step m) js t = Some s'" by (auto split: Option.bind_splits)
  note left = mon_step_left [OF assms mon_inv_ctl [OF Cons.prems(1)] Cons.prems(2) t(1)]
  show ?case
    using left(2) Cons.IH [OF mon_step_inv [OF assms Cons.prems(1) t(1)] left(1) t(2)] by (cases "i = Ping") simp_all
qed simp

lemma mon_can_step:
  assumes "mon_up mt m" "mon_ctl inherited mt m s" "\<not> mx_killed s" "mx_owner s \<noteq> Ow_Done"
  shows "\<exists>i s'. i \<noteq> Ping \<and> mon_step m i s = Some s'"
proof (cases "mon_owner_at (mx_owner s) m s")
  case (Some s')
  then show ?thesis using assms(3) by (intro exI [of _ Owner]) (simp add: mon_step.simps)
next
  case None
  have "mon_owner_at Ow_Free m s \<noteq> None" if "mx_owner s = Ow_Free"
    using that assms(2) mon_table_freed [OF assms(1)] by (auto simp: mon_ctl_def mon_table_def)
  with None have "mx_owner s = Ow_Join \<and> mx_pc s \<noteq> Th_End"
    using assms(4) by (cases "mx_owner s") (simp_all split: if_splits)
  then have "mx_pc s \<noteq> Th_End \<and> (mx_pc s = Th_Wait \<longrightarrow> mx_pending s)" using assms(2) by (simp add: mon_ctl_def)
  then have "\<exists>s'. mon_thread_at (mx_pc s) 0 EAGAIN m s = Some s'"
    by (cases "mx_pc s") (simp_all add: sigwait_returns_def Let_def)
  then show ?thesis using assms(3) by (auto intro!: exI [of _ "Thread 0 EAGAIN"] simp: mon_step.simps)
qed

text \<open>
  C30: Destroying a monitor takes effect as one step whatever its thread and the threads that ping it do meanwhile: when the
  destruction has returned, the thread has ended and the table is the one that mcmchMonitorDestroy gives on the table of the
  started monitor, with the status MCMPST_SUCCESS.
\<close>
theorem monitor_destroy_atomic:
  assumes "mt_wf mt" "m \<in> mt_used mt" "runs (mon_step m) is (mon_started mt m inherited) = Some s"
  shows "(mx_owner s = Ow_Idle \<longrightarrow> mx_table s = mcmchMonitorStart mt m \<and> mx_pc s \<noteq> Th_End)
    \<and> (mx_owner s = Ow_Done \<longrightarrow> mx_pc s = Th_End
         \<and> mcmchMonitorDestroy (mcmchMonitorStart mt m) m = Some (mx_table s, MCMPST_SUCCESS))"
  using mon_inv_ctl [OF mon_runs_inv [OF assms]] mon_table_freed [OF mon_up_started [OF assms(1,2)]]
  by (auto simp: mon_ctl_def mon_table_def)

text \<open>
  C12: Destroying a monitor ends: once it has begun, at most five more steps of the thread and of the destruction happen, however
  many pings come in between, and until it has returned one of the two can take a step; provided the
  process was not ended by a ping that came before the thread blocked the signal, which cannot happen when the
  thread inherited the mask.
\<close>
theorem monitor_destroy_ends:
  assumes "mt_wf mt" "m \<in> mt_used mt" "runs (mon_step m) is (mon_started mt m inherited) = Some s" "mx_owner s \<noteq> Ow_Idle"
  shows "(\<forall>js s'. runs (mon_step m) js s = Some s' \<longrightarrow> length (filter (\<lambda>i. i \<noteq> Ping) js) \<le> 5)
    \<and> (mx_owner s \<noteq> Ow_Done \<and> \<not> mx_killed s \<longrightarrow> (\<exists>i s'. i \<noteq> Ping \<and> mon_step m i s = Some s'))
    \<and> (mx_killed s \<longrightarrow> \<not> inherited)"
proof -
  note up = mon_up_started [OF assms(1,2)] and inv = mon_runs_inv [OF assms(1-3)]
  have "thread_left (mx_pc s) \<le> 2" by (cases "mx_pc s") simp_all
  moreover have "owner_left (mx_owner s) \<le> 3" using assms(4) by (cases "mx_owner s") simp_all
  ultimately have "mon_left s \<le> 5" by (simp add: mon_left_def)
  then have "length (filter (\<lambda>i. i \<noteq> Ping) js) \<le> 5" if "runs (mon_step m) js s = Some s'" for js s'
    using mon_runs_left [OF up inv assms(4) that] by simp
  moreover have "mx_killed s \<longrightarrow> \<not> inherited" using mon_inv_ctl [OF inv] by (simp add: mon_ctl_def)
  ultimately show ?thesis using mon_can_step [OF up mon_inv_ctl [OF inv]] by blast
qed

lemma sample_static: "mo_static (mt_table (mcmchMonitorStart sample_monitors 0) ! 0)" "0 < length (mt_table (mcmchMonitorStart sample_monitors 0))"
  "\<exists>slots. mcmpBitmapDisableBit (mt_slots (mcmchMonitorStart sample_monitors 0)) 0 = Some slots"
proof -
  have up: "mon_up (mcmchMonitorStart sample_monitors 0) 0"
    using mon_up_started [OF sample_monitors(1), of 0] by (simp add: sample_monitors(2))
  show "0 < length (mt_table (mcmchMonitorStart sample_monitors 0))" by (rule mon_up_size [OF up])
  then show "mo_static (mt_table (mcmchMonitorStart sample_monitors 0) ! 0)"
    "\<exists>slots. mcmpBitmapDisableBit (mt_slots (mcmchMonitorStart sample_monitors 0)) 0 = Some slots"
    using mon_table_freed [OF up] by auto
qed

definition sample_destruction :: "mon_input list" where
  "sample_destruction = [Thread 0 EAGAIN, Thread 0 EAGAIN, Ping, Owner, Thread 0 EAGAIN, Owner, Thread 0 EAGAIN, Owner, Owner]"

theorem monitor_destroy_atomic_witness:
  "\<exists>s. runs (mon_step 0) sample_destruction (mon_started sample_monitors 0 False) = Some s
     \<and> mx_beats s = [] \<and> mcmchMonitorDestroy (mcmchMonitorStart sample_monitors 0) 0 = Some (mx_table s, MCMPST_SUCCESS)"
proof -
  obtain slots where slots: "mcmpBitmapDisableBit (mt_slots (mcmchMonitorStart sample_monitors 0)) 0 = Some slots"
    using sample_static(3) ..
  have "\<exists>s. runs (mon_step 0) sample_destruction (mon_started sample_monitors 0 False) = Some s
      \<and> mx_owner s = Ow_Done \<and> mx_beats s = []"
    using sample_static(1,2) slots by (simp add: sample_destruction_def mon_run_simps sample_running)
  then obtain s where s: "runs (mon_step 0) sample_destruction (mon_started sample_monitors 0 False) = Some s"
      "mx_owner s = Ow_Done" "mx_beats s = []" by blast
  then show ?thesis using monitor_destroy_atomic [OF sample_monitors(1) _ s(1)] sample_monitors(2) by simp
qed

theorem monitor_destroy_ends_witness:
  "\<exists>s i s'. runs (mon_step 0) [Thread 0 EAGAIN, Thread 0 EAGAIN, Owner, Ping] (mon_started sample_monitors 0 True) = Some s
     \<and> i \<noteq> Ping \<and> mon_step 0 i s = Some s'"
proof -
  have "\<exists>s. runs (mon_step 0) [Thread 0 EAGAIN, Thread 0 EAGAIN, Owner, Ping] (mon_started sample_monitors 0 True) = Some s
      \<and> mx_owner s = Ow_Kill \<and> \<not> mx_killed s"
    using sample_static(1,2) by (simp add: mon_run_simps sample_running)
  then obtain s where s: "runs (mon_step 0) [Thread 0 EAGAIN, Thread 0 EAGAIN, Owner, Ping] (mon_started sample_monitors 0 True) = Some s"
      "mx_owner s = Ow_Kill" "\<not> mx_killed s" by blast
  then have "mx_owner s \<noteq> Ow_Idle" "mx_owner s \<noteq> Ow_Done" by simp_all
  then show ?thesis using monitor_destroy_ends [OF sample_monitors(1) _ s(1)] s sample_monitors(2) by blast
qed

text \<open>The window at the start of a thread: a ping that comes before the thread has blocked the signal ends the process.\<close>

lemma monitor_ping_too_early:
  "\<exists>s. runs (mon_step m) [Ping] (mon_started mt m False) = Some s \<and> mx_killed s \<and> (\<forall>i. mon_step m i s = None)"
  by (simp add: mon_run_simps)

end
