(* ===== verification/Worker_System.thy ===== *)
theory Worker_System
  imports Worker Monitor_System
begin

text \<open>
  The worker as a concurrent system: threads that push tasks, the master that beats and the worker
  monitors of \<^verbatim>\<open>routines/src/linux/worker.c\<close>, interleaved. A push and a beat are one step each, a worker
  monitor takes one step for each attempt on its bit, for the call of the handler and for the mark
  that it finished; a ping is a pending signal, so two pings before the monitor wakes are one.
\<close>

record wsys =
  ws_worker :: worker
  ws_pc :: "nat \<Rightarrow> sub_pc"
  ws_ping :: "nat \<Rightarrow> bool"
  ws_pushed :: "nat list"
  ws_taken :: "nat list"
  ws_ran :: "nat list"

abbreviation ws_view :: "worker \<Rightarrow> nat list" where
  "ws_view wk \<equiv> sq_view (wk_queue wk)"

text \<open>A beat is asked for by a ping of the master monitor, whose thread then runs it; the monitors that have a thread are a map.\<close>

definition mcmchWorkerBeat :: "worker \<Rightarrow> (nat \<rightharpoonup> mon_sys) \<Rightarrow> ((nat \<rightharpoonup> mon_sys) \<times> mcmpst) ub" where
  "mcmchWorkerBeat wk ms = do {
     s \<leftarrow> ms (wk_master wk);
     Some (ms(wk_master wk \<mapsto> fst (mcmchMonitorPing s)), MCMPST_SUCCESS) }"

inductive ws_move :: "wsys \<Rightarrow> wsys \<Rightarrow> bool" where
  push: "mcmpSetQueuePush (wk_queue (ws_worker s)) v = Some (q, st) \<Longrightarrow>
     ws_move s (s\<lparr>ws_worker := (ws_worker s)\<lparr>wk_queue := q\<rparr>,
       ws_pushed := if st = MCMPST_SUCCESS then ws_pushed s @ [v] else ws_pushed s\<rparr>)"
| beat: "worker_beat (ws_worker s) = Some (wk, pings) \<Longrightarrow>
     ws_move s (s\<lparr>ws_worker := wk, ws_ping := (\<lambda>i. ws_ping s i \<or> i \<in> set pings),
       ws_taken := ws_taken s @ take (length (ws_view (ws_worker s)) - length (ws_view wk)) (ws_view (ws_worker s))\<rparr>)"
| wake: "i < wk_length (ws_worker s) \<Longrightarrow> ws_pc s i = Asleep \<Longrightarrow> ws_ping s i \<Longrightarrow>
     ws_move s (s\<lparr>ws_pc := (ws_pc s)(i := Trying 0), ws_ping := (ws_ping s)(i := False)\<rparr>)"
| sub: "i < wk_length (ws_worker s) \<Longrightarrow> ws_pc s i \<noteq> Asleep \<Longrightarrow>
     sub_step i c (ws_worker s, ws_ran s) (ws_pc s i) = Some ((wk, rs), p) \<Longrightarrow>
     ws_move s (s\<lparr>ws_worker := wk, ws_ran := rs, ws_pc := (ws_pc s)(i := p)\<rparr>)"

text \<open>Runs in which no monitor gives up clearing its bit.\<close>

definition ws_step :: "wsys \<Rightarrow> wsys \<Rightarrow> bool" where
  "ws_step s s' \<longleftrightarrow> ws_move s s' \<and> wk_failstry (ws_worker s') = 0"

definition ws_init :: "wsys \<Rightarrow> bool" where
  "ws_init s \<longleftrightarrow> wk_wf (ws_worker s) \<and> wk_failstry (ws_worker s) = 0 \<and> ws_view (ws_worker s) = []
     \<and> (\<forall>i < wk_length (ws_worker s). \<not> bm_bit (wk_bitmap (ws_worker s)) i \<and> wm_finished (wk_monitors (ws_worker s) ! i))
     \<and> ws_pc s = (\<lambda>_. Asleep) \<and> ws_ping s = (\<lambda>_. False) \<and> ws_pushed s = [] \<and> ws_taken s = [] \<and> ws_ran s = []"

section \<open>The invariant\<close>

fun owning :: "sub_pc \<Rightarrow> bool" where
  "owning Asleep = False"
| "owning (Trying _) = False"
| "owning _ = True"

fun past_handler :: "sub_pc \<Rightarrow> bool" where
  "past_handler Ran = True"
| "past_handler (Cleaning _) = True"
| "past_handler _ = False"

abbreviation task_of :: "wsys \<Rightarrow> nat \<Rightarrow> nat" where
  "task_of s i \<equiv> wm_task (wk_monitors (ws_worker s) ! i)"

abbreviation begun :: "wsys \<Rightarrow> nat \<Rightarrow> bool" where
  "begun s i \<equiv> wm_finished (wk_monitors (ws_worker s) ! i)"

definition ws_pending :: "wsys \<Rightarrow> nat set" where
  "ws_pending s = {task_of s i | i. i < wk_length (ws_worker s) \<and> \<not> begun s i}"

definition mon_ok :: "wsys \<Rightarrow> nat \<Rightarrow> bool" where
  "mon_ok s i \<longleftrightarrow> (bm_bit (wk_bitmap (ws_worker s)) i \<longleftrightarrow> owning (ws_pc s i))
     \<and> (past_handler (ws_pc s i) \<longrightarrow> task_of s i \<in> set (ws_ran s))
     \<and> (ws_ping s i \<or> ws_pc s i \<noteq> Asleep \<longrightarrow> task_of s i \<in> set (ws_taken s))"

definition ws_inv :: "wsys \<Rightarrow> bool" where
  "ws_inv s \<longleftrightarrow> wk_wf (ws_worker s) \<and> wk_failstry (ws_worker s) = 0
     \<and> ws_pushed s = ws_taken s @ ws_view (ws_worker s)
     \<and> set (ws_taken s) = set (ws_ran s) \<union> ws_pending s
     \<and> (\<forall>i < wk_length (ws_worker s). mon_ok s i)"

lemma ws_inv_push:
  assumes "ws_inv s" "mcmpSetQueuePush (wk_queue (ws_worker s)) v = Some (q, st)"
    "s' = s\<lparr>ws_worker := (ws_worker s)\<lparr>wk_queue := q\<rparr>,
       ws_pushed := if st = MCMPST_SUCCESS then ws_pushed s @ [v] else ws_pushed s\<rparr>"
  shows "ws_inv s'"
proof -
  have inv: "sq_inv (wk_queue (ws_worker s))" using assms(1) by (simp add: ws_inv_def wk_wf_def)
  have "sq_inv q \<and> sq_view q = ws_view (ws_worker s) @ (if st = MCMPST_SUCCESS then [v] else [])"
  proof (cases "sq_accepts (wk_queue (ws_worker s)) v")
    case True
    then show ?thesis using set_fifo.push_accepts [OF inv True] assms(2) by auto
  next
    case False
    then show ?thesis using set_fifo.push_refuses [OF inv False] assms(2) inv by auto
  qed
  moreover have "ws_pending s' = ws_pending s" "mon_ok s' = mon_ok s" by (simp_all add: assms(3) ws_pending_def mon_ok_def fun_eq_iff)
  ultimately show ?thesis using assms(1) unfolding ws_inv_def wk_wf_def by (simp add: assms(3))
qed

lemma ws_inv_beat:
  assumes inv: "ws_inv s" and beat: "worker_beat (ws_worker s) = Some (wk', pings)"
    and s': "s' = s\<lparr>ws_worker := wk', ws_ping := (\<lambda>i. ws_ping s i \<or> i \<in> set pings),
       ws_taken := ws_taken s @ take (length (ws_view (ws_worker s)) - length (ws_view wk')) (ws_view (ws_worker s))\<rparr>"
  shows "ws_inv s'"
proof -
  define wk where "wk = ws_worker s"
  define idle where "idle = beat_idle wk"
  define view where "view = ws_view wk"
  define got where "got = take (length view) idle"
  have wf: "wk_wf wk" and quiet: "wk_failstry wk = 0" using inv by (simp_all add: ws_inv_def wk_def)
  have free: "beat_free wk k \<longleftrightarrow> k < wk_length wk \<and> \<not> bm_bit (wk_bitmap wk) k" for k using quiet by (simp add: beat_free_def)
  obtain wk2 pings2 where R: "worker_beat wk = Some (wk2, pings2)"
    and after2: "wk_wf wk2" "wk_failstry wk2 = 0" "wk_length wk2 = wk_length wk" "ws_view wk2 = drop (length idle) view"
      "\<forall>k. k \<notin> set got \<longrightarrow> wk_monitors wk2 ! k = wk_monitors wk ! k"
      "map (\<lambda>k. wm_task (wk_monitors wk2 ! k)) got = take (length idle) view"
      "\<forall>k \<in> set got. \<not> wm_finished (wk_monitors wk2 ! k)"
      "\<forall>k < wk_length wk. bm_bit (wk_bitmap wk2) k \<longleftrightarrow> \<not> beat_free wk k"
      "pings2 = filter (beat_free wk) (takeWhile (\<lambda>k. k \<notin> set (drop (length view) idle)) [0..<wk_length wk])"
    using worker_beat_runs [OF wf, folded idle_def view_def, folded got_def] by (elim exE conjE) (rule that)
  have "wk2 = wk'" "pings2 = pings" using R beat by (simp_all add: wk_def)
  note after = after2 [unfolded this]
  have got: "k < wk_length wk \<and> \<not> bm_bit (wk_bitmap wk) k \<and> wm_finished (wk_monitors wk ! k)" if "k \<in> set got" for k
    using in_set_takeD [OF that [unfolded got_def]] by (simp add: idle_def beat_idle_def free)
  have taken': "ws_taken s' = ws_taken s @ take (length idle) view"
  proof -
    have "take (length view - length (drop (length idle) view)) view = take (length idle) view"
      by (cases "length idle \<le> length view") simp_all
    then show ?thesis using after(4) by (simp add: s' wk_def [symmetric] view_def [symmetric])
  qed
  have tasks: "(\<lambda>k. wm_task (wk_monitors wk' ! k)) ` set got = set (take (length idle) view)"
    using arg_cong [OF after(6), of set] by simp
  have pinged: "k \<in> set got \<or> \<not> wm_finished (wk_monitors wk ! k)" if "k \<in> set pings" for k
  proof -
    have k: "beat_free wk k" "k < wk_length wk" "k \<notin> set (drop (length view) idle)"
      using that by (auto simp: after(9) dest: set_takeWhileD)
    have "k \<in> set idle \<Longrightarrow> k \<in> set got" using k(3) append_take_drop_id [of "length view" idle]
      by (metis Un_iff got_def set_append)
    then show ?thesis using k(1,2) by (auto simp: idle_def beat_idle_def)
  qed
  have pend: "ws_pending s' = {wm_task (wk_monitors wk ! i) | i. i < wk_length wk \<and> \<not> wm_finished (wk_monitors wk ! i)} \<union> set (take (length idle) view)"
  proof -
    have "ws_pending s' = {wm_task (wk_monitors wk' ! i) | i. i < wk_length wk \<and> i \<notin> set got \<and> \<not> wm_finished (wk_monitors wk' ! i)}
        \<union> (\<lambda>k. wm_task (wk_monitors wk' ! k)) ` set got"
      using after(3,7) got by (auto simp: ws_pending_def s')
    moreover have "{wm_task (wk_monitors wk' ! i) | i. i < wk_length wk \<and> i \<notin> set got \<and> \<not> wm_finished (wk_monitors wk' ! i)}
        = {wm_task (wk_monitors wk ! i) | i. i < wk_length wk \<and> \<not> wm_finished (wk_monitors wk ! i)}"
      using after(5) got by (auto; metis)
    ultimately show ?thesis using tasks by simp
  qed
  have old: "set (ws_taken s) = set (ws_ran s) \<union> {wm_task (wk_monitors wk ! i) | i. i < wk_length wk \<and> \<not> wm_finished (wk_monitors wk ! i)}"
    "ws_pushed s = ws_taken s @ view"
    and each: "\<And>i. i < wk_length wk \<Longrightarrow> mon_ok s i"
    using inv by (simp_all add: ws_inv_def ws_pending_def wk_def view_def)
  have s'_eqs: "ws_worker s' = wk'" "ws_pushed s' = ws_pushed s" "ws_ran s' = ws_ran s" "ws_pc s' = ws_pc s"
      "ws_ping s' i \<longleftrightarrow> ws_ping s i \<or> i \<in> set pings" for i by (simp_all add: s')
  have new_each: "mon_ok s' i" if i: "i < wk_length wk" for i
  proof -
    have bit: "bm_bit (wk_bitmap wk') i \<longleftrightarrow> bm_bit (wk_bitmap wk) i" using after(8) free i by simp
    show ?thesis
    proof (cases "i \<in> set got")
      case True
      then have "\<not> owning (ws_pc s i)" using got each [OF i] by (simp add: mon_ok_def wk_def)
      moreover have "past_handler p \<Longrightarrow> owning p" for p by (cases p) auto
      moreover have "wm_task (wk_monitors wk' ! i) \<in> set (ws_taken s')" using True tasks taken' by auto
      ultimately show ?thesis using each [OF i] bit by (auto simp: mon_ok_def s'_eqs wk_def)
    next
      case False
      then have same: "wk_monitors wk' ! i = wk_monitors wk ! i" using after(5) by simp
      have "i \<in> set pings \<Longrightarrow> wm_task (wk_monitors wk ! i) \<in> set (ws_taken s)" using pinged [of i] False old(1) i by auto
      then show ?thesis using each [OF i] bit taken' by (auto simp: mon_ok_def s'_eqs same wk_def)
    qed
  qed
  have "ws_pushed s = ws_taken s' @ ws_view wk'" using old(2) taken' after(4) by simp
  moreover have "set (ws_taken s') = set (ws_ran s) \<union> ws_pending s'" using taken' pend old(1) by auto
  ultimately show ?thesis unfolding ws_inv_def using after(1-3) new_each by (simp add: s'_eqs)
qed

text \<open>A step of monitor \<open>i\<close> that changes at most its own bit, its own monitor and its program counter.\<close>

lemma ws_inv_own:
  assumes inv: "ws_inv s" and i: "i < wk_length (ws_worker s)"
    and wk: "wk_wf wk" "wk_failstry wk = 0" "wk_length wk = wk_length (ws_worker s)" "wk_queue wk = wk_queue (ws_worker s)"
    and others: "\<And>j. j < wk_length (ws_worker s) \<Longrightarrow> j \<noteq> i \<Longrightarrow>
       wk_monitors wk ! j = wk_monitors (ws_worker s) ! j \<and> (bm_bit (wk_bitmap wk) j \<longleftrightarrow> bm_bit (wk_bitmap (ws_worker s)) j)"
    and task: "wm_task (wk_monitors wk ! i) = task_of s i"
    and fin: "wm_finished (wk_monitors wk ! i) = begun s i \<or> task_of s i \<in> set rs \<and> wm_finished (wk_monitors wk ! i)"
    and rs: "set (ws_ran s) \<subseteq> set rs" "set rs \<subseteq> insert (task_of s i) (set (ws_ran s))" "task_of s i \<in> set (ws_taken s)"
    and pc: "bm_bit (wk_bitmap wk) i \<longleftrightarrow> owning p" "past_handler p \<Longrightarrow> task_of s i \<in> set rs"
  shows "ws_inv (s\<lparr>ws_worker := wk, ws_ran := rs, ws_pc := (ws_pc s)(i := p)\<rparr>)"
proof -
  let ?s = "s\<lparr>ws_worker := wk, ws_ran := rs, ws_pc := (ws_pc s)(i := p)\<rparr>"
  have old: "set (ws_taken s) = set (ws_ran s) \<union> ws_pending s" "ws_pushed s = ws_taken s @ ws_view (ws_worker s)"
      "\<And>j. j < wk_length (ws_worker s) \<Longrightarrow> mon_ok s j"
    using inv by (simp_all add: ws_inv_def)
  have "mon_ok ?s j" if j: "j < wk_length (ws_worker s)" for j
    using old(3) [OF j] others [OF j] task pc rs by (cases "j = i") (auto simp: mon_ok_def)
  moreover have "set rs \<union> ws_pending ?s = set (ws_taken s)"
  proof -
    have same: "wm_task (wk_monitors wk ! j) = task_of s j" if "j < wk_length (ws_worker s)" for j
      using others [OF that] task by (cases "j = i") auto
    have "x \<in> ws_pending ?s \<Longrightarrow> x \<in> set (ws_taken s)" for x
    proof -
      assume "x \<in> ws_pending ?s"
      then obtain j where j: "j < wk_length (ws_worker s)" "x = task_of s j" "\<not> wm_finished (wk_monitors wk ! j)"
        using same wk(3) by (auto simp: ws_pending_def)
      then show ?thesis using others [OF j(1)] fin rs(3) old(1) by (cases "j = i") (auto simp: ws_pending_def)
    qed
    moreover have "x \<in> set rs \<union> ws_pending ?s" if x: "x \<in> ws_pending s" for x
    proof -
      obtain j where j: "j < wk_length (ws_worker s)" "x = task_of s j" "\<not> begun s j" using x by (auto simp: ws_pending_def)
      show ?thesis
      proof (cases "wm_finished (wk_monitors wk ! j)")
        case True
        then show ?thesis using others [OF j(1)] j fin by (cases "j = i") auto
      next
        case False
        then show ?thesis using j same [OF j(1)] wk(3) by (auto simp: ws_pending_def)
      qed
    qed
    ultimately show ?thesis using old(1) rs by blast
  qed
  ultimately show ?thesis unfolding ws_inv_def using wk old(2) by simp
qed

lemma ws_inv_sub:
  assumes inv: "ws_inv s" and i: "i < wk_length (ws_worker s)" "ws_pc s i \<noteq> Asleep"
    and sub: "sub_step i c (ws_worker s, ws_ran s) (ws_pc s i) = Some ((wk, rs), p)" and quiet: "wk_failstry wk = 0"
  shows "ws_inv (s\<lparr>ws_worker := wk, ws_ran := rs, ws_pc := (ws_pc s)(i := p)\<rparr>)"
proof -
  define w where "w = ws_worker s"
  have wf: "wk_wf w" "wk_failstry w = 0" and ok: "mon_ok s i" using inv i by (simp_all add: ws_inv_def w_def)
  have slot: "i < 8 * length (wk_bitmap w)" using wk_slot [OF wf(1)] i(1) by (simp add: w_def subset_insertI)
  have mons: "i < length (wk_monitors w)" "length (wk_monitors w) = wk_length w" using wf(1) i(1) by (simp_all add: wk_wf_def w_def)
  have taken: "task_of s i \<in> set (ws_taken s)" using ok i(2) by (simp add: mon_ok_def)
  obtain be ste where en: "mcmpAtomicBitmapTryEnableBit (wk_bitmap w) (int i) = Some (be, ste)"
      "ste = (if bm_bit (wk_bitmap w) i then MCMPST_ALROP else MCMPST_SUCCESS)"
      "length be = length (wk_bitmap w)" "\<forall>j. bm_bit be j \<longleftrightarrow> bm_bit (wk_bitmap w) j \<or> j = i"
    using try_enable_ok [OF slot] by auto
  obtain bd where di: "mcmpAtomicBitmapTryDisableBit (wk_bitmap w) (int i) = Some (bd, MCMPST_SUCCESS)"
      "length bd = length (wk_bitmap w)" "\<forall>j. bm_bit bd j \<longleftrightarrow> bm_bit (wk_bitmap w) j \<and> j \<noteq> i"
    using try_disable_ok [OF slot] by auto
  note own = ws_inv_own [OF inv i(1), of wk rs p]
  note sub' = sub [folded w_def]
  show ?thesis
  proof (cases "ws_pc s i")
    case Asleep
    then show ?thesis using i(2) by simp
  next
    case (Trying t)
    then have clear: "\<not> bm_bit (wk_bitmap w) i" using ok by (simp add: mon_ok_def w_def)
    from Trying sub' en clear consider "wk = w" "rs = ws_ran s" "p = Asleep \<or> p = Trying (t + 1)"
        | "wk = w\<lparr>wk_bitmap := be\<rparr>" "rs = ws_ran s" "p = Secured"
      by (auto split: if_splits)
    then show ?thesis
    proof cases
      case 1
      from 1(3) show ?thesis using own 1(1,2) wf taken clear by (elim disjE) (simp_all add: w_def subset_insertI)
    next
      case 2
      then have "wk_wf wk" using wf(1) en(3) by (simp add: wk_wf_def)
      then show ?thesis using own 2 quiet taken en(4) by (simp add: w_def subset_insertI)
    qed
  next
    case Secured
    then have "wk = w" "rs = ws_ran s @ [task_of s i]" "p = Ran"
      using sub' mons by (auto simp: wmonitor_at_def w_def)
    moreover have "bm_bit (wk_bitmap w) i" using ok Secured by (simp add: mon_ok_def w_def)
    ultimately show ?thesis using own wf taken by (simp add: w_def subset_insertI)
  next
    case Ran
    then have "wk = w\<lparr>wk_monitors := (wk_monitors w)[i := (wk_monitors w ! i)\<lparr>wm_finished := True\<rparr>]\<rparr>" "rs = ws_ran s" "p = Cleaning 0"
      using sub' mons by (auto simp: wmonitor_at_def)
    moreover have "bm_bit (wk_bitmap w) i" "task_of s i \<in> set (ws_ran s)" using ok Ran by (simp_all add: mon_ok_def w_def)
    moreover from calculation(1) have "wk_wf wk" using wf(1) by (simp add: wk_wf_def)
    ultimately show ?thesis using own wf(2) taken mons by (simp add: w_def subset_insertI)
  next
    case (Cleaning t)
    then have set: "bm_bit (wk_bitmap w) i" "task_of s i \<in> set (ws_ran s)" using ok by (simp_all add: mon_ok_def w_def)
    from Cleaning sub' di(1) quiet wf(2) consider "wk = w" "rs = ws_ran s" "p = Cleaning (t + 1)"
        | "wk = w\<lparr>wk_bitmap := bd\<rparr>" "rs = ws_ran s" "p = Asleep"
      by (auto split: if_splits)
    then show ?thesis
    proof cases
      case 1
      then show ?thesis using own wf taken set by (simp add: w_def subset_insertI)
    next
      case 2
      then have "wk_wf wk" using wf(1) di(2) by (simp add: wk_wf_def)
      then show ?thesis using own 2 quiet taken di(3) set by (simp add: w_def subset_insertI)
    qed
  qed
qed

lemma ws_inv_wake:
  assumes "ws_inv s" "ws_pc s i = Asleep" "ws_ping s i"
  shows "ws_inv (s\<lparr>ws_pc := (ws_pc s)(i := Trying 0), ws_ping := (ws_ping s)(i := False)\<rparr>)"
proof -
  let ?s = "s\<lparr>ws_pc := (ws_pc s)(i := Trying 0), ws_ping := (ws_ping s)(i := False)\<rparr>"
  have "ws_pending ?s = ws_pending s" by (simp add: ws_pending_def)
  moreover have "mon_ok ?s j" if "mon_ok s j" for j using that assms(2,3) by (cases "j = i") (auto simp: mon_ok_def)
  ultimately show ?thesis using assms(1) unfolding ws_inv_def by simp
qed

lemma ws_step_inv: "ws_inv s \<Longrightarrow> ws_step s t \<Longrightarrow> ws_inv t"
  by (auto simp: ws_step_def elim!: ws_move.cases intro: ws_inv_push ws_inv_beat ws_inv_wake ws_inv_sub)

lemma ws_init_inv: "ws_init s \<Longrightarrow> ws_inv s"
  by (auto simp: ws_init_def ws_inv_def ws_pending_def mon_ok_def)

interpretation ws: invariant_system ws_init ws_step ws_inv
  by unfold_locales (auto intro: ws_init_inv ws_step_inv)


section \<open>A task that runs twice\<close>

text \<open>What is known of a reachable state of a worker with one monitor after the task 0 was pushed.\<close>

definition single :: "wsys \<Rightarrow> nat list \<Rightarrow> bool \<Rightarrow> bool \<Rightarrow> sub_pc \<Rightarrow> nat list \<Rightarrow> bool" where
  "single s view fin ping p rs \<longleftrightarrow> reachable ws_init ws_step s \<and> wk_length (ws_worker s) = 1 \<and> ws_pushed s = [0]
     \<and> ws_view (ws_worker s) = view \<and> (begun s 0 \<longleftrightarrow> fin) \<and> (ws_ping s 0 \<longleftrightarrow> ping) \<and> ws_pc s 0 = p \<and> ws_ran s = rs
     \<and> (view = [] \<longrightarrow> task_of s 0 = 0)"

lemma single_inv:
  assumes "single s view fin ping p rs"
  shows "wk_wf (ws_worker s)" "wk_failstry (ws_worker s) = 0" "bm_bit (wk_bitmap (ws_worker s)) 0 \<longleftrightarrow> owning p"
  using assms ws.reach_inv [of s] by (auto simp: single_def ws_inv_def mon_ok_def)

lemma single_beat:
  assumes "single s view fin ping p rs" "fin \<and> view = [0] \<or> \<not> fin \<and> view = []" "\<not> owning p"
  shows "\<exists>s'. single s' [] False True p rs"
proof -
  let ?wk = "ws_worker s"
  note inv = single_inv [OF assms(1)]
  have s: "wk_length ?wk = 1" "ws_view ?wk = view" "begun s 0 \<longleftrightarrow> fin" using assms(1) by (simp_all add: single_def)
  have free: "beat_free ?wk k \<longleftrightarrow> k = 0" for k using inv s(1) assms(3) by (auto simp: beat_free_def)
  have idle: "beat_idle ?wk = (if fin then [0] else [])" using s by (simp add: beat_idle_def free)
  obtain wk' pings where run: "worker_beat ?wk = Some (wk', pings)" and after: "wk_failstry wk' = 0" "wk_length wk' = 1"
      "ws_view wk' = drop (length (beat_idle ?wk)) view"
      "\<forall>k. k \<notin> set (take (length view) (beat_idle ?wk)) \<longrightarrow> wk_monitors wk' ! k = wk_monitors ?wk ! k"
      "map (\<lambda>k. wm_task (wk_monitors wk' ! k)) (take (length view) (beat_idle ?wk)) = take (length (beat_idle ?wk)) view"
      "\<forall>k \<in> set (take (length view) (beat_idle ?wk)). \<not> wm_finished (wk_monitors wk' ! k)"
      "pings = filter (beat_free ?wk) (takeWhile (\<lambda>k. k \<notin> set (drop (length view) (beat_idle ?wk))) [0..<1])"
    using worker_beat_runs [OF inv(1)] unfolding s(1,2) by (elim exE conjE) (rule that)
  let ?s' = "s\<lparr>ws_worker := wk', ws_ping := (\<lambda>i. ws_ping s i \<or> i \<in> set pings),
       ws_taken := ws_taken s @ take (length (ws_view ?wk) - length (ws_view wk')) (ws_view ?wk)\<rparr>"
  have "ws_step s ?s'" using ws_move.beat [OF run] after(1) by (simp add: ws_step_def)
  then have "reachable ws_init ws_step ?s'" using assms(1) by (auto simp: single_def intro: reachable.step)
  then show ?thesis using assms after idle free
    by (intro exI [of _ ?s']) (auto simp: single_def)
qed

lemma single_wake:
  assumes "single s view fin True Asleep rs"
  shows "\<exists>s'. single s' view fin False (Trying 0) rs"
proof -
  let ?s' = "s\<lparr>ws_pc := (ws_pc s)(0 := Trying 0), ws_ping := (ws_ping s)(0 := False)\<rparr>"
  have "ws_step s ?s'" using ws_move.wake [of 0 s] assms single_inv(2) [OF assms] by (simp add: ws_step_def single_def)
  then have "reachable ws_init ws_step ?s'" using assms by (auto simp: single_def intro: reachable.step)
  then show ?thesis using assms by (intro exI [of _ ?s']) (simp add: single_def)
qed

lemma single_sub:
  assumes "single s view fin ping p rs" "p = Trying 0 \<or> p = Secured \<or> p = Ran \<or> p = Cleaning 0" "view = []"
  shows "\<exists>s'. single s' view (fin \<or> p = Ran) ping
     (case p of Trying _ \<Rightarrow> Secured | Secured \<Rightarrow> Ran | Ran \<Rightarrow> Cleaning 0 | _ \<Rightarrow> Asleep) (if p = Secured then rs @ [0] else rs)"
proof -
  let ?wk = "ws_worker s"
  note inv = single_inv [OF assms(1)]
  have s: "wk_length ?wk = 1" "ws_pc s 0 = p" "ws_ran s = rs" "task_of s 0 = 0" using assms by (simp_all add: single_def)
  then have mons: "wmonitor_at ?wk 0 = Some (wk_monitors ?wk ! 0)" "length (wk_monitors ?wk) = 1" and slot: "0 < 8 * length (wk_bitmap ?wk)"
    using inv(1) by (simp_all add: wmonitor_at_def wk_wf_def)
  obtain wk rs' q where run: "sub_step 0 False (?wk, ws_ran s) (ws_pc s 0) = Some ((wk, rs'), q)"
      and after: "q = (case p of Trying _ \<Rightarrow> Secured | Secured \<Rightarrow> Ran | Ran \<Rightarrow> Cleaning 0 | _ \<Rightarrow> Asleep)"
        "rs' = (if p = Secured then rs @ [0] else rs)" "wk_failstry wk = 0" "wk_length wk = 1" "wk_queue wk = wk_queue ?wk"
        "wm_task (wk_monitors wk ! 0) = 0" "wm_finished (wk_monitors wk ! 0) \<longleftrightarrow> begun s 0 \<or> p = Ran"
    using assms(2) s inv mons try_enable_ok [OF slot] try_disable_ok [OF slot] by fastforce
  let ?s' = "s\<lparr>ws_worker := wk, ws_ran := rs', ws_pc := (ws_pc s)(0 := q)\<rparr>"
  have "ws_step s ?s'" using ws_move.sub [OF _ _ run] s(1,2) assms(2) after(3) by (auto simp: ws_step_def)
  then have "reachable ws_init ws_step ?s'" using assms(1) by (auto simp: single_def intro: reachable.step)
  then show ?thesis using assms(1,3) after
    by (intro exI [of _ ?s']) (simp add: single_def)
qed

lemma single_run:
  assumes "single s [] fin ping (Trying 0) rs"
  shows "\<exists>s'. single s' [] True ping Asleep (rs @ [0])"
proof -
  obtain s2 where "single s2 [] fin ping Secured rs" using single_sub [OF assms] by auto
  then obtain s3 where "single s3 [] fin ping Ran (rs @ [0])" using single_sub [of s2 "[]" fin ping Secured rs] by auto
  then obtain s4 where "single s4 [] True ping (Cleaning 0) (rs @ [0])" using single_sub [of s3 "[]" fin ping Ran "rs @ [0]"] by auto
  then show ?thesis using single_sub [of s4 "[]" True ping "Cleaning 0" "rs @ [0]"] by auto
qed

lemma single_start: "\<exists>s. single s [0] True False Asleep []"
proof -
  obtain sq where sq: "sq_inv sq" "sq_view sq = []" "sq_length sq = 2"
    using sq_fresh [of 2 "\<lambda>_. True"] by auto
  define wk where "wk = \<lparr>wk_master = 0, wk_queue = sq, wk_bitmap_length = 1, wk_length = 1, wk_failstry = 0, wk_bitmap = [0],
     wk_monitors = [\<lparr>wm_monitor = 1, wm_task = 7, wm_finished = True\<rparr>]\<rparr>"
  let ?s = "\<lparr>ws_worker = wk, ws_pc = \<lambda>_. Asleep, ws_ping = \<lambda>_. False, ws_pushed = [], ws_taken = [], ws_ran = []\<rparr>"
  have init: "ws_init ?s" using sq by (simp add: ws_init_def wk_def wk_wf_def bm_bit_def)
  have acc: "sq_accepts sq 0" using sq by (simp add: sq_accepts_def)
  from set_fifo.push_accepts [OF sq(1) acc] obtain q where
      push: "mcmpSetQueuePush sq 0 = Some (q, MCMPST_SUCCESS)" "sq_inv q" "sq_view q = [0]" using sq(2) by auto
  let ?s' = "?s\<lparr>ws_worker := wk\<lparr>wk_queue := q\<rparr>, ws_pushed := [0]\<rparr>"
  have "ws_step ?s ?s'" using ws_move.push [of ?s 0 q MCMPST_SUCCESS] push(1) by (simp add: ws_step_def wk_def)
  then have "reachable ws_init ws_step ?s'" using init by (blast intro: reachable.intros)
  then show ?thesis using push by (intro exI [of _ ?s']) (simp add: single_def wk_def)
qed

text \<open>The task is run, and the second ping is still pending.\<close>

lemma single_pinged_twice: "\<exists>s. single s [] True True Asleep [0]"
proof -
  obtain s0 where "single s0 [0] True False Asleep []" using single_start by blast
  then obtain s1 where "single s1 [] False True Asleep []" using single_beat [of s0 "[0]" True False Asleep "[]"] by auto
  then obtain s2 where "single s2 [] False False (Trying 0) []" using single_wake by blast
  then obtain s3 where "single s3 [] False True (Trying 0) []" using single_beat [of s2 "[]" False False "Trying 0" "[]"] by auto
  then show ?thesis using single_run [of s3 False True "[]"] by auto
qed

text \<open>
  A task that is pushed once can be run twice: when a second beat falls between the wake-up of a worker monitor and the
  setting of its bit, it pings the monitor again, and the monitor runs its finished task once more.
\<close>

lemma worker_runs_task_twice:
  "\<exists>s. reachable ws_init ws_step s \<and> ws_pushed s = [0] \<and> ws_ran s = [0, 0]"
proof -
  obtain s where "single s [] True True Asleep [0]" using single_pinged_twice by blast
  then obtain s' where "single s' [] True False (Trying 0) [0]" using single_wake by blast
  then obtain t where "single t [] True False Asleep [0, 0]" using single_run [of s' True False "[0]"] by auto
  then show ?thesis by (auto simp: single_def)
qed


end
