(* ===== verification/Stress_Test.thy ===== *)
theory Stress_Test
  imports Worker_System
begin

text \<open>
  The stress test \<^verbatim>\<open>cli/src/linux/test3.c\<close>: a program that pushes the jobs 0 to 999 in batches of 50, asks the worker for a
  beat after each batch, goes on asking until the queue is empty and then destroys the worker. Its main thread is interleaved with the
  master and the worker monitors of \<open>Worker_System\<close>. Sleeping and printing are left out; \<open>njobs\<close> and \<open>batch\<close> are the program's
  \<^verbatim>\<open>total_jobs\<close> and \<^verbatim>\<open>step\<close>.
\<close>

section \<open>The program\<close>










section \<open>The queue keeps its length\<close>




section \<open>What the program keeps\<close>











section \<open>A run\<close>



end
