(* ===== verification/Datagram.thy ===== *)
theory Datagram
  imports Status
begin

text \<open>
  The server's datagrams: \<^verbatim>\<open>server/src/common/server.c\<close> parses and dispatches one, \<^verbatim>\<open>server/src/linux/server.c\<close>
  opens the sockets and receives into one buffer for all the events of an update, and \<^verbatim>\<open>include/mcmp/protocol.h\<close>
  lays out a datagram. The server uses the constants of the protocol under names (\<^verbatim>\<open>MCH_PROTO_...\<close>)
  that the repository does not define; they are the fields of a parameter, and \<open>mcmp_proto\<close> holds the values that the
  header gives under its names. The handshake of an accepted connection is modelled in \<^verbatim>\<open>Handshake\<close>; here the
  model records the public key and the nonce that it is called with.
\<close>

unbundle bit_operations_syntax

section \<open>The protocol\<close>

definition MCMP_HEADER_SIZE :: nat where "MCMP_HEADER_SIZE = 64"
definition MCMP_PAYLOAD_SIZE :: nat where "MCMP_PAYLOAD_SIZE = 1024"
definition MCMP_DGRAM_MAXSIZE :: nat where "MCMP_DGRAM_MAXSIZE = MCMP_HEADER_SIZE + MCMP_PAYLOAD_SIZE"

definition MCMP_MAKE_OPC :: "32 word \<Rightarrow> 32 word \<Rightarrow> 32 word" where
  "MCMP_MAKE_OPC opc c = push_bit 24 opc OR (c AND 0x00FFFFFF)"

record proto =
  pr_sigv1 :: "64 word"
  pr_ack :: "32 word"
  pr_rck :: "32 word"
  pr_fragment :: "32 word"
  pr_request :: "32 word"
  pr_accept_conn :: "32 word"

definition mcmp_proto :: proto where
  "mcmp_proto = \<lparr>pr_sigv1 = 0x4D434D5000000000, pr_ack = 0x00, pr_rck = 0x01, pr_fragment = 0x02, pr_request = 0x03,
     pr_accept_conn = 0x000000\<rparr>"

text \<open>A base datagram is the signature and the operation; an accept datagram adds a key and a nonce.\<close>

definition sizeof_base :: nat where "sizeof_base = 8 + 4"
definition sizeof_accept :: nat where "sizeof_accept = sizeof_base + 32 + 8"

text \<open>A big-endian number of \<open>k\<close> bytes at offset \<open>i\<close>: \<^verbatim>\<open>memcpy\<close> and \<^verbatim>\<open>be64toh\<close> or \<^verbatim>\<open>be32toh\<close>.\<close>

definition load_be :: "nat \<Rightarrow> byte list \<Rightarrow> nat \<Rightarrow> 'a::len word ub" where
  "load_be k m i = (if i + k \<le> length m then Some (le_word (rev (take k (drop i m)))) else None)"

section \<open>Dispatch of one datagram\<close>

text \<open>What a datagram leads to; the handlers of the last three are empty.\<close>

datatype handled =
    Dropped
  | Ack_Accept "byte list" "byte list"
  | Ack_Ignored
  | Rck "32 word"
  | Fragment "32 word"
  | Request "32 word"
  | No_Handler

text \<open>The comparisons of the signed size with a \<^verbatim>\<open>sizeof\<close> are unsigned.\<close>

definition handle_ack :: "proto \<Rightarrow> 32 word \<Rightarrow> byte list \<Rightarrow> int \<Rightarrow> handled ub" where
  "handle_ack pr subop dgram sz =
     (if subop = pr_accept_conn pr then
        if size_cast sz < sizeof_accept then Some Ack_Ignored
        else if length dgram < sizeof_accept then None
        else Some (Ack_Accept (take 32 (drop sizeof_base dgram)) (take 8 (drop (sizeof_base + 32) dgram)))
      else Some Ack_Ignored)"

definition proccess_dgram :: "proto \<Rightarrow> byte list \<Rightarrow> int \<Rightarrow> handled ub" where
  "proccess_dgram pr dgram sz =
     (if size_cast sz < sizeof_base then Some Dropped
      else do {
        sigversion \<leftarrow> load_be 8 dgram 0;
        (if sigversion \<noteq> pr_sigv1 pr then Some Dropped
         else do {
           operation \<leftarrow> load_be 4 dgram 8;
           let opc = operation AND 0xFF000000;
           let subop = operation AND 0x00FFFFFF;
           (if opc = pr_ack pr then handle_ack pr subop dgram sz
            else if opc = pr_rck pr then Some (Rck subop)
            else if opc = pr_fragment pr then Some (Fragment subop)
            else if opc = pr_request pr then Some (Request subop)
            else Some No_Handler) }) })"

section \<open>An update of the server\<close>

text \<open>
  \<^verbatim>\<open>recvfrom\<close> either fails with -1, leaving the buffer, or writes a datagram, cut to the buffer's size, over the
  buffer's start and returns the number of bytes written.
\<close>

fun recvfrom :: "byte list \<Rightarrow> byte list option \<Rightarrow> byte list \<times> int" where
  "recvfrom buf None = (buf, -1)"
| "recvfrom buf (Some d) = (let d' = take (length buf) d in (spliced buf 0 d', int (length d')))"

text \<open>
  The loop over the events from the \<open>i\<close>-th on; the array of the server holds 8. \<open>buf\<close> is the one buffer on the
  stack, uninitialised at first.
\<close>

fun server_update_loop :: "proto \<Rightarrow> byte list \<Rightarrow> nat \<Rightarrow> byte list option list \<Rightarrow> handled list ub" where
  "server_update_loop pr buf i [] = Some []"
| "server_update_loop pr buf i (r # rs) =
     (if 8 \<le> i then None
      else case recvfrom buf r of (buf', sz) \<Rightarrow> do {
        h \<leftarrow> proccess_dgram pr buf' sz;
        hs \<leftarrow> server_update_loop pr buf' (i + 1) rs;
        Some (h # hs) })"

definition mcmchServerUpdate :: "proto \<Rightarrow> byte list \<Rightarrow> byte list option list \<Rightarrow> (handled list \<times> mcmpst) ub" where
  "mcmchServerUpdate pr junk recvs = do {
     hs \<leftarrow> server_update_loop pr junk 0 recvs; Some (hs, MCMPST_SUCCESS) }"

section \<open>The sockets\<close>

text \<open>What the calls to the operating system return is an input (\<open>ep\<close>, \<open>s1\<close>, \<open>s2\<close>); which calls are made is recorded.\<close>

datatype syscall = Bind int | Epoll_Add int | Close int

record server =
  sv_listen4fd :: int
  sv_listen6fd :: int
  sv_epollfd :: int

definition load_ipv4_server :: "int \<Rightarrow> server \<Rightarrow> server \<times> syscall list" where
  "load_ipv4_server sock sv = (let sv' = sv\<lparr>sv_listen4fd := sock\<rparr> in (sv', [Bind (sv_listen4fd sv')]))"

text \<open>The IPv6 part stores its socket, an IPv4 one, in the IPv4 descriptor, and binds the IPv6 descriptor.\<close>

definition load_ipv6_server :: "int \<Rightarrow> server \<Rightarrow> server \<times> syscall list" where
  "load_ipv6_server sock sv = (let sv' = sv\<lparr>sv_listen4fd := sock\<rparr> in (sv', [Bind (sv_listen6fd sv')]))"

definition mcmchServerCreate :: "bool \<Rightarrow> int \<Rightarrow> int \<Rightarrow> int \<Rightarrow> (server \<times> syscall list) ub" where
  "mcmchServerCreate malloc_ok ep s1 s2 =
     (if \<not> malloc_ok then None
      else let sv = \<lparr>sv_listen4fd = -1, sv_listen6fd = -1, sv_epollfd = ep\<rparr>;
               (sv4, calls4) = load_ipv4_server s1 sv;
               (sv6, calls6) = load_ipv6_server s2 sv4
           in Some (sv6, calls4 @ calls6 @ [Epoll_Add (sv_listen4fd sv6), Epoll_Add (sv_listen6fd sv6)]))"

definition mcmchServerClose :: "server \<Rightarrow> syscall list \<times> mcmpst" where
  "mcmchServerClose sv = ([Close (sv_listen4fd sv), Close (sv_listen6fd sv), Close (sv_epollfd sv)], MCMPST_SUCCESS)"

section \<open>Numbers in a datagram\<close>

definition be_bytes :: "nat \<Rightarrow> 'a::len word \<Rightarrow> byte list" where
  "be_bytes k w = rev (map (\<lambda>i. ucast (drop_bit (8 * i) w)) [0..<k])"

lemma length_be_bytes [simp]: "length (be_bytes k w) = k"
  by (simp add: be_bytes_def)

lemma be_roundtrip:
  fixes w :: "'a::len word"
  assumes "LENGTH('a) \<le> 8 * k"
  shows "le_word (rev (be_bytes k w)) = w"
proof (rule bit_word_eqI)
  fix n assume n: "n < LENGTH('a)"
  then have "n div 8 < k" using assms by auto
  moreover have "8 * (n div 8) + n mod 8 = n" by simp
  ultimately show "bit (le_word (rev (be_bytes k w)) :: 'a word) n \<longleftrightarrow> bit w n"
    using n assms by (simp add: be_bytes_def bit_le_word bit_ucast_iff bit_drop_bit_eq)
qed

lemma load_be_at:
  fixes w :: "'a::len word"
  assumes "LENGTH('a) \<le> 8 * k" "i = length xs"
  shows "load_be k (xs @ be_bytes k w @ ys) i = Some w"
  using be_roundtrip [OF assms(1)] assms(2) by (simp add: load_be_def)

text \<open>A datagram with an operation and a body, and one that asks for a connection.\<close>

definition base_dgram :: "proto \<Rightarrow> 32 word \<Rightarrow> byte list \<Rightarrow> byte list" where
  "base_dgram pr operation body = be_bytes 8 (pr_sigv1 pr) @ be_bytes 4 operation @ body"

definition accept_dgram :: "proto \<Rightarrow> byte list \<Rightarrow> byte list \<Rightarrow> byte list" where
  "accept_dgram pr key nonce = base_dgram pr (MCMP_MAKE_OPC (pr_ack pr) (pr_accept_conn pr)) (key @ nonce)"

lemma base_dgram_loads:
  "load_be 8 (base_dgram pr operation body) 0 = Some (pr_sigv1 pr)"
  "load_be 4 (base_dgram pr operation body) 8 = Some operation"
  using load_be_at [of 8 0 "[]" "pr_sigv1 pr" "be_bytes 4 operation @ body"]
    load_be_at [of 4 8 "be_bytes 8 (pr_sigv1 pr)" operation body]
  by (simp_all add: base_dgram_def)

lemma opc_fields:
  "MCMP_MAKE_OPC opc c AND 0x00FFFFFF = c AND 0x00FFFFFF" "MCMP_MAKE_OPC opc c AND 0xFF000000 = push_bit 24 opc"
proof -
  have masks: "(0x00FFFFFF :: 32 word) = mask 24" "(0xFF000000 :: 32 word) = NOT (mask 24)"
    by (simp_all add: mask_eq_exp_minus_1)
  show "MCMP_MAKE_OPC opc c AND 0x00FFFFFF = c AND 0x00FFFFFF"
    unfolding MCMP_MAKE_OPC_def masks by (rule bit_word_eqI) (auto simp: bit_simps)
  show "MCMP_MAKE_OPC opc c AND 0xFF000000 = push_bit 24 opc"
    unfolding MCMP_MAKE_OPC_def masks by (rule bit_word_eqI) (auto simp: bit_simps)
qed

lemma base_dgram_runs:
  "proccess_dgram pr (base_dgram pr (MCMP_MAKE_OPC opc c) body) (int (12 + length body)) =
     (if size_cast (int (12 + length body)) < sizeof_base then Some Dropped
      else let subop = c AND 0x00FFFFFF in
      if push_bit 24 opc = pr_ack pr
        then handle_ack pr subop (base_dgram pr (MCMP_MAKE_OPC opc c) body) (int (12 + length body))
      else if push_bit 24 opc = pr_rck pr then Some (Rck subop)
      else if push_bit 24 opc = pr_fragment pr then Some (Fragment subop)
      else if push_bit 24 opc = pr_request pr then Some (Request subop)
      else Some No_Handler)"
  by (simp add: proccess_dgram_def base_dgram_loads opc_fields Let_def)

lemma accept_parsed:
  assumes "length key = 32" "length nonce = 8"
  shows "proccess_dgram mcmp_proto (accept_dgram mcmp_proto key nonce) 52 = Some (Ack_Accept key nonce)"
proof -
  have "length (accept_dgram mcmp_proto key nonce) = 52" using assms by (simp add: accept_dgram_def base_dgram_def)
  moreover have "drop 12 (accept_dgram mcmp_proto key nonce) = key @ nonce"
    by (simp add: accept_dgram_def base_dgram_def)
  moreover have "drop 44 (accept_dgram mcmp_proto key nonce) = nonce"
    using assms(1) by (simp add: accept_dgram_def base_dgram_def)
  moreover have "size_cast 52 = 52" by (simp add: size_cast_def)
  ultimately have "handle_ack mcmp_proto 0 (accept_dgram mcmp_proto key nonce) 52 = Some (Ack_Accept key nonce)"
    using assms by (simp add: handle_ack_def mcmp_proto_def sizeof_accept_def sizeof_base_def)
  moreover have "proccess_dgram mcmp_proto (accept_dgram mcmp_proto key nonce) 52
      = handle_ack mcmp_proto 0 (accept_dgram mcmp_proto key nonce) 52"
    using base_dgram_runs [of mcmp_proto "pr_ack mcmp_proto" "pr_accept_conn mcmp_proto" "key @ nonce"] assms
    by (simp add: accept_dgram_def sizeof_base_def size_cast_def) (simp add: mcmp_proto_def)
  ultimately show ?thesis by simp
qed

text \<open>
  C27: With the header's constants a connection request is parsed back to its key and nonce. The other operations never
  reach their handlers: their codes are compared unshifted with the top byte of the operation in place, and a
  datagram made with \<^verbatim>\<open>MCMP_MAKE_OPC\<close> and the code of a rejection, fragment or request finds no handler.
\<close>

theorem dgram_dispatch:
  assumes "length key = 32" "length nonce = 8" "length body \<le> 1076"
  shows "proccess_dgram mcmp_proto (accept_dgram mcmp_proto key nonce) 52 = Some (Ack_Accept key nonce)
     \<and> (\<forall>opc \<in> {pr_rck mcmp_proto, pr_fragment mcmp_proto, pr_request mcmp_proto}.
          proccess_dgram mcmp_proto (base_dgram mcmp_proto (MCMP_MAKE_OPC opc c) body) (int (12 + length body)) = Some No_Handler)"
proof (intro conjI ballI)
  show "proccess_dgram mcmp_proto (accept_dgram mcmp_proto key nonce) 52 = Some (Ack_Accept key nonce)"
    by (rule accept_parsed [OF assms(1,2)])
  fix opc assume "opc \<in> {pr_rck mcmp_proto, pr_fragment mcmp_proto, pr_request mcmp_proto}"
  moreover have "\<not> size_cast (int (12 + length body)) < sizeof_base"
    using assms(3) by (subst size_cast_nat) (simp_all add: sizeof_base_def)
  ultimately show "proccess_dgram mcmp_proto (base_dgram mcmp_proto (MCMP_MAKE_OPC opc c) body) (int (12 + length body)) = Some No_Handler"
    unfolding base_dgram_runs by (auto simp: mcmp_proto_def)
qed

theorem dgram_dispatch_witness:
  "proccess_dgram mcmp_proto (accept_dgram mcmp_proto (replicate 32 7) (replicate 8 9)) 52
      = Some (Ack_Accept (replicate 32 7) (replicate 8 9))
     \<and> proccess_dgram mcmp_proto (base_dgram mcmp_proto (MCMP_MAKE_OPC 1 0) [5]) 13 = Some No_Handler"
  using dgram_dispatch [of "replicate 32 7" "replicate 8 9" "[5]" 0] by (simp add: mcmp_proto_def)

section \<open>Updates\<close>

lemma prefix_part: "i + k \<le> length d \<Longrightarrow> take (length d) m = d \<Longrightarrow> take k (drop i m) = take k (drop i d)"
  by (metis drop_take min.absorb1 add_diff_cancel_left' diff_le_mono take_take)

lemma load_be_prefix:
  "i + k \<le> length d \<Longrightarrow> length d \<le> length m \<Longrightarrow> take (length d) m = d \<Longrightarrow> load_be k m i = load_be k d i"
  using prefix_part [of i k d m] by (simp add: load_be_def)

lemma process_prefix:
  assumes "take (length d) m = d" "length d \<le> length m" "length m < size_max" "length d \<le> n" "n < size_max" "n < 52 \<Longrightarrow> n = length d" "52 \<le> n \<Longrightarrow> 52 \<le> length d"
  shows "proccess_dgram pr m (int n) = proccess_dgram pr d (int (length d))"
proof -
  have sizes: "size_cast (int n) = n" "size_cast (int (length d)) = length d" using assms by simp_all
  show ?thesis
  proof (cases "length d < 12")
    case True
    then have "n < 12" using assms(6,7) by linarith
    then show ?thesis using True sizes by (simp add: proccess_dgram_def sizeof_base_def)
  next
    case False
    have loads: "load_be 8 m 0 = (load_be 8 d 0 :: 64 word ub)" "load_be 4 m 8 = (load_be 4 d 8 :: 32 word ub)"
      using load_be_prefix [of 0 8 d m] load_be_prefix [of 8 4 d m] False assms(1,2) by simp_all
    have acc: "handle_ack pr subop m (int n) = handle_ack pr subop d (int (length d))" for subop
    proof (cases "length d < 52")
      case True
      then have "n < 52" using assms(6,7) by linarith
      then show ?thesis using True sizes by (simp add: handle_ack_def sizeof_accept_def sizeof_base_def)
    next
      case far: False
      then have "52 \<le> n" using assms(4) by linarith
      have "take 32 (drop 12 m) = take 32 (drop 12 d)" "take 8 (drop 44 m) = take 8 (drop 44 d)"
        using far prefix_part [OF _ assms(1), of 12 32] prefix_part [OF _ assms(1), of 44 8] by simp_all
      then show ?thesis using far sizes assms(2) \<open>52 \<le> n\<close> by (simp add: handle_ack_def sizeof_accept_def sizeof_base_def)
    qed
    have "\<not> n < 12" using False assms(4) by linarith
    then show ?thesis using False unfolding proccess_dgram_def sizes loads acc sizeof_base_def by simp
  qed
qed

lemma update_received:
  "length buf = MCMP_DGRAM_MAXSIZE \<Longrightarrow> i + length ds \<le> 8 \<Longrightarrow>
     \<forall>d \<in> set ds. length d \<le> MCMP_DGRAM_MAXSIZE \<and> proccess_dgram pr d (int (length d)) \<noteq> None \<Longrightarrow>
     server_update_loop pr buf i (map Some ds) = Some (map (\<lambda>d. the (proccess_dgram pr d (int (length d)))) ds)"
proof (induction ds arbitrary: buf i)
  case (Cons d ds)
  let ?buf = "spliced buf 0 d"
  have d: "length d \<le> length buf" using Cons.prems by simp
  have "length ?buf = MCMP_DGRAM_MAXSIZE" using d Cons.prems(1) by simp
  moreover from this have "server_update_loop pr ?buf (i + 1) (map Some ds)
      = Some (map (\<lambda>d. the (proccess_dgram pr d (int (length d)))) ds)"
    using Cons.IH [of ?buf "i + 1"] Cons.prems(2,3) by simp
  moreover have "proccess_dgram pr ?buf (int (length d)) = proccess_dgram pr d (int (length d))"
  proof (rule process_prefix)
    show "take (length d) ?buf = d" by (simp add: spliced_def)
  qed (use d Cons.prems(1) in \<open>simp_all add: MCMP_DGRAM_MAXSIZE_def MCMP_HEADER_SIZE_def MCMP_PAYLOAD_SIZE_def\<close>)
  ultimately show ?case using d Cons.prems by auto
qed simp

lemma update_overrun: "i \<le> 8 \<Longrightarrow> 8 < i + length rs \<Longrightarrow> server_update_loop pr buf i rs = None"
proof (induction rs arbitrary: buf i)
  case (Cons r rs)
  show ?case
  proof (cases "i = 8")
    case False
    then have "server_update_loop pr b (i + 1) rs = None" for b using Cons.IH [of "i + 1" b] Cons.prems by auto
    then show ?thesis by (auto split: prod.splits)
  qed simp
qed simp

lemma process_defined: "length d \<le> 2 ^ 32 \<Longrightarrow> proccess_dgram pr d (int (length d)) \<noteq> None"
  by (simp add: proccess_dgram_def handle_ack_def load_be_def Let_def sizeof_base_def sizeof_accept_def split: Option.bind_splits)

text \<open>
  C28: An update that receives up to 8 datagrams handles each as if it were alone: what was in the buffer, from earlier datagrams
  or from the uninitialised stack, has no influence. But a receive that fails is not noticed: the unsigned comparison of the size -1 lets
  it pass as a full datagram, and the datagram received before it is handled once more. A ninth event is read behind the array of events.
\<close>

theorem server_update_isolates:
  assumes "length junk = MCMP_DGRAM_MAXSIZE" "\<forall>d \<in> set ds. length d \<le> MCMP_DGRAM_MAXSIZE" "length ds \<le> 8"
    and "52 \<le> length d" "length d \<le> MCMP_DGRAM_MAXSIZE" "length rs = 9"
  shows "mcmchServerUpdate pr junk (map Some ds) = Some (map (\<lambda>d. the (proccess_dgram pr d (int (length d)))) ds, MCMPST_SUCCESS)
     \<and> (\<exists>h. proccess_dgram pr d (int (length d)) = Some h \<and> mcmchServerUpdate pr junk [Some d, None] = Some ([h, h], MCMPST_SUCCESS))
     \<and> mcmchServerUpdate pr junk rs = None"
proof (intro conjI)
  have small: "length d' \<le> 2 ^ 32" if "length d' \<le> MCMP_DGRAM_MAXSIZE" for d' :: "byte list"
    using that by (simp add: MCMP_DGRAM_MAXSIZE_def MCMP_HEADER_SIZE_def MCMP_PAYLOAD_SIZE_def)
  show "mcmchServerUpdate pr junk (map Some ds) = Some (map (\<lambda>d. the (proccess_dgram pr d (int (length d)))) ds, MCMPST_SUCCESS)"
    using update_received [OF assms(1), of 0 ds pr] assms(2,3) process_defined small by (simp add: mcmchServerUpdate_def)
  let ?buf = "spliced junk 0 d"
  have len: "length ?buf = MCMP_DGRAM_MAXSIZE" "length d \<le> length ?buf" using assms(1,5) by simp_all
  have pre: "take (length d) ?buf = d" by (simp add: spliced_def)
  have big: "length ?buf < size_max" using len by (simp add: MCMP_DGRAM_MAXSIZE_def MCMP_HEADER_SIZE_def MCMP_PAYLOAD_SIZE_def)
  obtain h where h: "proccess_dgram pr d (int (length d)) = Some h" using process_defined [OF small [OF assms(5)], of pr] by auto
  have first: "proccess_dgram pr ?buf (int (length d)) = Some h"
    using process_prefix [OF pre len(2) big] len(2) big assms(4) h by simp
  have "proccess_dgram pr ?buf (int (size_max - 1)) = Some h"
    using process_prefix [OF pre len(2) big, of "size_max - 1"] len(2) big assms(4) h by simp
  moreover have "proccess_dgram pr ?buf (-1) = proccess_dgram pr ?buf (int (size_max - 1))"
  proof -
    have "size_cast (-1) = size_cast (int (size_max - 1))" by (simp add: size_cast_def)
    then show ?thesis unfolding proccess_dgram_def handle_ack_def by (simp only:)
  qed
  ultimately have "server_update_loop pr junk 0 [Some d, None] = Some [h, h]" using first assms(1,5) by simp
  then show "\<exists>h. proccess_dgram pr d (int (length d)) = Some h \<and> mcmchServerUpdate pr junk [Some d, None] = Some ([h, h], MCMPST_SUCCESS)"
    using h by (simp add: mcmchServerUpdate_def)
  show "mcmchServerUpdate pr junk rs = None" using update_overrun [of 0 rs] assms(6) by (simp add: mcmchServerUpdate_def)
qed

theorem server_update_isolates_witness:
  "\<exists>h. mcmchServerUpdate mcmp_proto (replicate 1088 0) [Some (replicate 60 1), None] = Some ([h, h], MCMPST_SUCCESS)"
  using server_update_isolates [of "replicate 1088 0" "[]" "replicate 60 1" "replicate 9 None" mcmp_proto]
  by (auto simp: MCMP_DGRAM_MAXSIZE_def MCMP_HEADER_SIZE_def MCMP_PAYLOAD_SIZE_def)

section \<open>The sockets of a server\<close>

text \<open>
  A server binds its first socket and lets the event queue watch the second, which it never binds; the IPv6 descriptor is never opened, so what is
  bound and what is watched have no open descriptor in common and no datagram reaches an update. Closing closes the second
  socket and leaves the first, whose descriptor was overwritten, open.
\<close>

lemma server_sockets:
  assumes "distinct [ep, s1, s2, -1]"
  shows "\<exists>sv calls. mcmchServerCreate True ep s1 s2 = Some (sv, calls)
     \<and> {fd. Bind fd \<in> set calls} \<inter> {fd. Epoll_Add fd \<in> set calls} = {-1}
     \<and> Bind s1 \<in> set calls \<and> Close s1 \<notin> set (fst (mcmchServerClose sv)) \<and> Close s2 \<in> set (fst (mcmchServerClose sv))"
  using assms by (auto simp: mcmchServerCreate_def mcmchServerClose_def load_ipv4_server_def load_ipv6_server_def)

lemma server_sockets_witness:
  "\<exists>sv calls. mcmchServerCreate True 3 4 5 = Some (sv, calls) \<and> Bind 4 \<in> set calls \<and> Close 4 \<notin> set (fst (mcmchServerClose sv))"
  using server_sockets [of 3 4 5] by auto

end
