(* ===== verification/Handshake.thy ===== *)
theory Handshake
  imports Datagram
begin

text \<open>
  The handshake of an accepted connection, as far as \<^verbatim>\<open>server/src/linux/server.c\<close> has it
  (\<open>__protected__mcmch_ack_accept_client\<close>): it makes a key pair, derives a shared secret from the client's public key and
  hashes it with the two nonces into a key, which it then drops. The cryptography is libsodium's: its three functions are
  parameters. \<open>keypair\<close> is told whether the public key, which it writes, is a null pointer, and is \<open>None\<close> when
  that is undefined; \<open>scalarmult\<close> is \<open>None\<close> when it refuses a public key; \<open>generichash\<close> takes the length of its result.
\<close>

record crypto_info =
  ci_shared :: "byte list"
  ci_sv_nonce :: "64 word"
  ci_nonce :: "64 word"

text \<open>The bytes of the record in memory, on a little-endian machine.\<close>

definition host_bytes :: "64 word \<Rightarrow> byte list" where
  "host_bytes w = rev (be_bytes 8 w)"

definition crypto_bytes :: "crypto_info \<Rightarrow> byte list" where
  "crypto_bytes ci = ci_shared ci @ host_bytes (ci_sv_nonce ci) @ host_bytes (ci_nonce ci)"

definition ack_accept_client ::
  "(bool \<Rightarrow> byte list ub) \<Rightarrow> (byte list \<Rightarrow> byte list \<Rightarrow> byte list option) \<Rightarrow> (nat \<Rightarrow> byte list \<Rightarrow> byte list)
     \<Rightarrow> byte list \<Rightarrow> byte list \<Rightarrow> byte list option ub" where
  "ack_accept_client keypair scalarmult generichash pkey nonce = do {
     skey \<leftarrow> keypair True;
     (case scalarmult skey pkey of
        None \<Rightarrow> Some None
      | Some shared \<Rightarrow> do {
          host_nonce \<leftarrow> load_be 8 nonce 0;
          let crypto = \<lparr>ci_shared = shared, ci_sv_nonce = 0, ci_nonce = host_nonce\<rparr>;
          Some (Some (generichash 32 (crypto_bytes crypto))) }) }"

text \<open>A datagram from its parsing to the key that its handshake computes, if it comes to one.\<close>

definition handshake ::
  "(bool \<Rightarrow> byte list ub) \<Rightarrow> (byte list \<Rightarrow> byte list \<Rightarrow> byte list option) \<Rightarrow> (nat \<Rightarrow> byte list \<Rightarrow> byte list)
     \<Rightarrow> proto \<Rightarrow> byte list \<Rightarrow> int \<Rightarrow> byte list option ub" where
  "handshake keypair scalarmult generichash pr dgram sz = do {
     h \<leftarrow> proccess_dgram pr dgram sz;
     (case h of Ack_Accept pkey nonce \<Rightarrow> ack_accept_client keypair scalarmult generichash pkey nonce | _ \<Rightarrow> Some None) }"

lemma be_bytes_of:
  assumes "length bs = 8"
  shows "be_bytes 8 (le_word (rev bs) :: 64 word) = bs"
proof (rule nth_equalityI)
  fix i assume "i < length (be_bytes 8 (le_word (rev bs) :: 64 word))"
  then have i: "i < 8" by simp
  then have "[0..<8] ! (7 - i) = 7 - i" by (subst nth_upt) simp_all
  with i have at: "be_bytes 8 w ! i = ucast (drop_bit (8 * (7 - i)) w)" for w :: "64 word"
    by (simp add: be_bytes_def rev_nth)
  show "be_bytes 8 (le_word (rev bs) :: 64 word) ! i = bs ! i"
  proof (rule bit_word_eqI)
    fix n assume n: "n < LENGTH(8)"
    then have "(8 * (7 - i) + n) div 8 = 7 - i" "(8 * (7 - i) + n) mod 8 = n" "8 * (7 - i) + n < 64" using i by auto
    then show "bit (be_bytes 8 (le_word (rev bs) :: 64 word) ! i) n \<longleftrightarrow> bit (bs ! i) n"
      using i n assms by (simp add: at bit_ucast_iff bit_drop_bit_eq bit_le_word rev_nth)
  qed
qed (use assms in simp)

lemma host_bytes_of: "length bs = 8 \<Longrightarrow> host_bytes (le_word (rev bs)) = rev bs"
  by (simp add: host_bytes_def be_bytes_of)

lemma host_bytes_zero: "host_bytes 0 = replicate 8 0"
  by (simp add: host_bytes_def be_bytes_def numeral_eq_Suc)

text \<open>
  C32: A connection request is turned into a key as follows: the key hashes the secret that the new key pair shares with the client's public
  key, a server nonce of zero and the client's nonce in the byte order of the machine; a public key that is refused gives none; and nothing of the
  client is used before the key pair is made, so that where writing a public key through a null pointer is undefined, so is every
  connection request. No other datagram comes to a handshake.
\<close>
theorem handshake_key:
  assumes "length pkey = 32" "length nonce = 8"
  shows "handshake keypair scalarmult generichash mcmp_proto (accept_dgram mcmp_proto pkey nonce) 52 =
     (case keypair True of None \<Rightarrow> None
      | Some skey \<Rightarrow> Some (map_option (\<lambda>shared. generichash 32 (shared @ replicate 8 0 @ rev nonce)) (scalarmult skey pkey)))
    \<and> (proccess_dgram mcmp_proto dgram sz \<noteq> None \<and> (\<forall>k n. proccess_dgram mcmp_proto dgram sz \<noteq> Some (Ack_Accept k n))
        \<longrightarrow> handshake keypair scalarmult generichash mcmp_proto dgram sz = Some None)"
proof
  have "load_be 8 nonce 0 = Some (le_word (rev nonce) :: 64 word)" using assms(2) by (simp add: load_be_def)
  moreover have "proccess_dgram mcmp_proto (accept_dgram mcmp_proto pkey nonce) 52 = Some (Ack_Accept pkey nonce)"
    by (rule accept_parsed [OF assms])
  ultimately show "handshake keypair scalarmult generichash mcmp_proto (accept_dgram mcmp_proto pkey nonce) 52 =
     (case keypair True of None \<Rightarrow> None
      | Some skey \<Rightarrow> Some (map_option (\<lambda>shared. generichash 32 (shared @ replicate 8 0 @ rev nonce)) (scalarmult skey pkey)))"
    using assms(2)
    by (simp add: handshake_def ack_accept_client_def crypto_bytes_def host_bytes_of host_bytes_zero split: option.split)
  show "proccess_dgram mcmp_proto dgram sz \<noteq> None \<and> (\<forall>k n. proccess_dgram mcmp_proto dgram sz \<noteq> Some (Ack_Accept k n))
        \<longrightarrow> handshake keypair scalarmult generichash mcmp_proto dgram sz = Some None"
    by (auto simp: handshake_def split: handled.split)
qed

text \<open>A key pair function that accepts the null pointer, a secret that is the client's key and a hash that cuts.\<close>

theorem handshake_key_witness:
  "handshake (\<lambda>_. Some []) (\<lambda>_ pkey. Some pkey) (\<lambda>n bs. take n (rev bs)) mcmp_proto
       (accept_dgram mcmp_proto (replicate 32 7) [1, 2, 3, 4, 5, 6, 7, 8]) 52
     = Some (Some ([1, 2, 3, 4, 5, 6, 7, 8] @ replicate 8 0 @ replicate 16 7))
    \<and> handshake (\<lambda>null. if null then None else Some []) (\<lambda>_ pkey. Some pkey) (\<lambda>n bs. take n (rev bs)) mcmp_proto
       (accept_dgram mcmp_proto (replicate 32 7) (replicate 8 9)) 52 = None
    \<and> handshake (\<lambda>_. Some []) (\<lambda>_ pkey. Some pkey) (\<lambda>n bs. take n (rev bs)) mcmp_proto [] 0 = Some None"
proof -
  have "proccess_dgram mcmp_proto [] 0 = Some Dropped" by (simp add: proccess_dgram_def sizeof_base_def size_cast_def)
  then show ?thesis
    using handshake_key [of "replicate 32 7" "[1, 2, 3, 4, 5, 6, 7, 8]" "\<lambda>_. Some []" "\<lambda>_ pkey. Some pkey" "\<lambda>n bs. take n (rev bs)" "[]" 0]
      handshake_key [of "replicate 32 7" "replicate 8 9" "\<lambda>null. if null then None else Some []" "\<lambda>_ pkey. Some pkey" "\<lambda>n bs. take n (rev bs)"]
    by simp
qed

end
