(* ===== verification/Environment.thy ===== *)
theory Environment
  imports Status
begin

text \<open>
  The environment and its log: \<^verbatim>\<open>src/common/mcmp.c\<close>, \<^verbatim>\<open>src/linux/mcmp.c\<close>, \<^verbatim>\<open>src/common/log.c\<close> and
  \<^verbatim>\<open>src/linux/log.c\<close>. Paths, messages and lines are C strings without their terminator. What is
  written where is recorded; the descriptor that opening a file gives, the formatted time and the
  message after \<^verbatim>\<open>vsnprintf\<close> has expanded its arguments, but not yet cut it, are inputs.
\<close>

section \<open>The environment\<close>

record env =
  env_logfilepath :: "string option"
  env_loglevel :: "8 word"
  env_logfd :: int

definition MCMPLOG_INFO :: "8 word" where "MCMPLOG_INFO = 2"
definition MCMPLOG_MAX_LINE_SIZE :: nat where "MCMPLOG_MAX_LINE_SIZE = 4096"

definition loglevels :: "string list" where
  "loglevels = [''TRACE'', ''DEBUG'', ''INFO '', ''WARN '', ''ERROR'']"

definition mcmpNormalizeEnv :: "env \<Rightarrow> env" where
  "mcmpNormalizeEnv env = env\<lparr>env_logfilepath := None, env_loglevel := MCMPLOG_INFO\<rparr>"

definition mcmpInitilizeEnvironment :: "bool \<Rightarrow> env \<Rightarrow> mcmpst + env" where
  "mcmpInitilizeEnvironment malloc_ok junk =
     (if \<not> malloc_ok then Inl MCMPST_OUT_OF_MEM else Inr ((mcmpNormalizeEnv junk)\<lparr>env_logfd := -1\<rparr>))"

definition mcmpSetEnvLogFileName :: "env \<Rightarrow> string \<Rightarrow> env \<times> mcmpst" where
  "mcmpSetEnvLogFileName env logfile =
     (case logfile of c # _ \<Rightarrow> if c = CHR ''/'' then (env\<lparr>env_logfilepath := Some logfile\<rparr>, MCMPST_SUCCESS)
        else (env, MCMPST_NOT_ABSPATH) | [] \<Rightarrow> (env, MCMPST_NOT_ABSPATH))"

definition mcmpSetEnvLogLevel :: "env \<Rightarrow> 8 word \<Rightarrow> env \<times> mcmpst" where
  "mcmpSetEnvLogLevel env level = (env\<lparr>env_loglevel := level\<rparr>, MCMPST_SUCCESS)"

text \<open>\<open>open_file\<close> is the \<^verbatim>\<open>open\<close> of the operating system; a path never set is a null pointer, which it refuses with -1.\<close>

definition mcmchOpenLogFile :: "(string option \<Rightarrow> int) \<Rightarrow> env \<Rightarrow> env \<times> mcmpst" where
  "mcmchOpenLogFile open_file env =
     (let logfd = open_file (env_logfilepath env)
      in if logfd = -1 then (env, MCMPST_NOT_IMPLEMENTED) else (env\<lparr>env_logfd := logfd\<rparr>, MCMPST_SUCCESS))"

section \<open>Writing lines\<close>

datatype log_event = Write_Stdout string | Write_File int string | Close_File int

definition mcmchlogWriteLine :: "env option \<Rightarrow> 8 word \<Rightarrow> string \<Rightarrow> log_event list \<times> mcmpst" where
  "mcmchlogWriteLine env level line =
     ((case env of None \<Rightarrow> [Write_Stdout line]
       | Some e \<Rightarrow> (if env_loglevel e \<le> level then [Write_Stdout line] else [])
           @ (if env_logfd e \<noteq> -1 then [Write_File (env_logfd e) line] else [])), MCMPST_SUCCESS)"

text \<open>\<^verbatim>\<open>snprintf\<close> into a buffer of \<open>n\<close> bytes leaves room for the terminator.\<close>

definition cut :: "nat \<Rightarrow> string \<Rightarrow> string" where
  "cut n s = take (n - 1) s"

definition mcmplogFormatted :: "env option \<Rightarrow> 8 word \<Rightarrow> string \<Rightarrow> string \<Rightarrow> (log_event list \<times> mcmpst) ub" where
  "mcmplogFormatted env level now message =
     (if length loglevels \<le> unat level then None
      else Some (mcmchlogWriteLine env level (cut MCMPLOG_MAX_LINE_SIZE
        (''['' @ now @ ''] ['' @ loglevels ! unat level @ ''] : '' @ message @ [CHR 0x0A]))))"

definition mcmchlog :: "env option \<Rightarrow> 8 word \<Rightarrow> string \<Rightarrow> string \<Rightarrow> (log_event list \<times> mcmpst) ub" where
  "mcmchlog env level now message = mcmplogFormatted env level now (cut (MCMPLOG_MAX_LINE_SIZE - 100) message)"

section \<open>Closing\<close>

definition mcmchCloseLogFile :: "string \<Rightarrow> env \<Rightarrow> (env \<times> log_event list \<times> mcmpst) ub" where
  "mcmchCloseLogFile now env =
     (let logfd = env_logfd env
      in if logfd = -1 then Some (env, [], MCMPST_NOT_IMPLEMENTED)
         else do {
           (evs, _) \<leftarrow> mcmchlog (Some env) MCMPLOG_INFO now ''Closing log file.'';
           Some (env\<lparr>env_logfd := -1\<rparr>, evs @ [Close_File logfd], MCMPST_SUCCESS) })"

text \<open>Closing the environment frees it; what it writes is the result.\<close>

definition mcmpEnvClose :: "string \<Rightarrow> env \<Rightarrow> log_event list ub" where
  "mcmpEnvClose now env = do {
     (evs, _) \<leftarrow> mcmchlog (Some env) MCMPLOG_INFO now ''Closing environment context.'';
     (_, evs', _) \<leftarrow> mcmchCloseLogFile now env;
     Some (evs @ evs') }"

section \<open>Properties\<close>

definition log_line :: "8 word \<Rightarrow> string \<Rightarrow> string \<Rightarrow> string" where
  "log_line level now message = ''['' @ now @ ''] ['' @ loglevels ! unat level @ ''] : '' @ take 3995 message @ [CHR 0x0A]"

definition log_targets :: "env option \<Rightarrow> 8 word \<Rightarrow> string \<Rightarrow> log_event list" where
  "log_targets env level line = fst (mcmchlogWriteLine env level line)"

lemma level_names: "unat level < 5 \<Longrightarrow> length (loglevels ! unat level) = 5"
proof -
  assume "unat level < 5"
  then have "unat level \<in> {0, 1, 2, 3, 4}" by auto
  then show ?thesis by (auto simp: loglevels_def)
qed

lemma log_runs:
  assumes "length now \<le> 63" "unat level < 5"
  shows "mcmchlog env level now message = Some (log_targets env level (log_line level now message), MCMPST_SUCCESS)"
proof -
  have "length (log_line level now message) \<le> 4095"
    using assms(1) level_names [OF assms(2)] by (simp add: log_line_def)
  then have "cut MCMPLOG_MAX_LINE_SIZE (log_line level now message) = log_line level now message"
    by (simp add: cut_def MCMPLOG_MAX_LINE_SIZE_def)
  then show ?thesis using assms(2)
    by (simp add: mcmchlog_def mcmplogFormatted_def cut_def MCMPLOG_MAX_LINE_SIZE_def log_line_def log_targets_def
        mcmchlogWriteLine_def loglevels_def)
qed

text \<open>
  A message that is logged at one of the five levels becomes one line, with the message cut to 3995 characters, that always fits its
  buffer and always ends in a line break. The line goes to the standard output when there is no environment or the level reaches its threshold, and to
  the log file whenever one is open, whatever the level. A level behind the fifth reads behind the table of names.
\<close>

lemma log_line_complete:
  assumes "length now \<le> 63"
  shows "(unat level < 5 \<longrightarrow> mcmchlog env level now message = Some ((case env of None \<Rightarrow> [Write_Stdout (log_line level now message)]
       | Some e \<Rightarrow> (if env_loglevel e \<le> level then [Write_Stdout (log_line level now message)] else [])
           @ (if env_logfd e \<noteq> -1 then [Write_File (env_logfd e) (log_line level now message)] else [])), MCMPST_SUCCESS)
       \<and> length (log_line level now message) < MCMPLOG_MAX_LINE_SIZE)
     \<and> (5 \<le> unat level \<longrightarrow> mcmchlog env level now message = None)"
proof -
  have "length (log_line level now message) < MCMPLOG_MAX_LINE_SIZE" if "unat level < 5"
    using assms level_names [OF that] by (simp add: log_line_def MCMPLOG_MAX_LINE_SIZE_def)
  moreover have "mcmchlog env level now message = None" if "5 \<le> unat level"
    using that by (simp add: mcmchlog_def mcmplogFormatted_def loglevels_def)
  ultimately show ?thesis using log_runs [OF assms, of level env message]
    by (simp add: log_targets_def mcmchlogWriteLine_def split: option.splits)
qed

lemma log_line_complete_witness:
  "mcmchlog None 4 ''now'' ''broken'' = Some ([Write_Stdout (log_line 4 ''now'' ''broken'')], MCMPST_SUCCESS)
     \<and> mcmchlog None 5 ''now'' ''broken'' = None"
  using log_line_complete [of "''now''" 4 None "''broken''"] log_line_complete [of "''now''" 5 None "''broken''"] by simp

text \<open>
  C39: A session: an environment that is initialised, given an absolute path, opened on it and closed writes the two closing lines to the file, in
  order, and then closes it; they appear on the standard output too as long as the level is at most \<^verbatim>\<open>MCMPLOG_INFO\<close>. A path that is not
  absolute is refused and leaves the environment without a file, and nothing is then written to or closed but the first closing line.
\<close>

theorem log_session:
  assumes "length now \<le> 63" "open_file (Some (CHR ''/'' # path)) = fd" "fd \<noteq> -1" "open_file None = -1" "c \<noteq> CHR ''/''"
  shows "\<exists>e0 e1 e2 e3 l1 l2. mcmpInitilizeEnvironment True junk = Inr e0 \<and> env_loglevel e0 = MCMPLOG_INFO
     \<and> mcmpSetEnvLogFileName e0 (CHR ''/'' # path) = (e1, MCMPST_SUCCESS) \<and> mcmpSetEnvLogLevel e1 level = (e2, MCMPST_SUCCESS)
     \<and> mcmchOpenLogFile open_file e2 = (e3, MCMPST_SUCCESS)
     \<and> l1 = log_line MCMPLOG_INFO now ''Closing environment context.'' \<and> l2 = log_line MCMPLOG_INFO now ''Closing log file.''
     \<and> mcmpEnvClose now e3 = Some (if level \<le> MCMPLOG_INFO
          then [Write_Stdout l1, Write_File fd l1, Write_Stdout l2, Write_File fd l2, Close_File fd]
          else [Write_File fd l1, Write_File fd l2, Close_File fd])
     \<and> mcmpSetEnvLogFileName e0 (c # path) = (e0, MCMPST_NOT_ABSPATH) \<and> mcmchOpenLogFile open_file e0 = (e0, MCMPST_NOT_IMPLEMENTED)
     \<and> mcmpEnvClose now e0 = Some [Write_Stdout l1]"
proof -
  have lv: "unat MCMPLOG_INFO < 5" by (simp add: MCMPLOG_INFO_def)
  note log = log_runs [OF assms(1) lv]
  show ?thesis using assms
    by (auto simp: mcmpInitilizeEnvironment_def mcmpNormalizeEnv_def mcmpSetEnvLogFileName_def mcmpSetEnvLogLevel_def
        mcmchOpenLogFile_def mcmpEnvClose_def mcmchCloseLogFile_def log log_targets_def mcmchlogWriteLine_def Let_def)
qed

theorem log_session_witness:
  "\<exists>e0. mcmpInitilizeEnvironment True \<lparr>env_logfilepath = None, env_loglevel = 9, env_logfd = 0\<rparr> = Inr e0
     \<and> mcmpSetEnvLogFileName e0 ''logs'' = (e0, MCMPST_NOT_ABSPATH)"
  using log_session [of "''now''" "\<lambda>p. if p = None then -1 else 3" "''ogs''" 3 "CHR ''l''" "\<lparr>env_logfilepath = None, env_loglevel = 9, env_logfd = 0\<rparr>" 1]
  by auto

end
