(* ===== verification/Time_Stamp.thy ===== *)
theory Time_Stamp
  imports Environment
begin

text \<open>
  The time stamps of log lines: \<^verbatim>\<open>src/linux/utilities.c\<close> (\<open>mcmchCurrentTime\<close>, \<open>mcmchStrftime\<close>) and their use in
  \<^verbatim>\<open>src/common/log.c\<close>. \<^verbatim>\<open>localtime\<close> depends on the time zone of the machine and is a parameter, with the ranges that it
  documents for its fields; \<^verbatim>\<open>strftime\<close> is modelled for the conversions that the program uses.
\<close>

section \<open>Broken-down times\<close>

record tm =
  tm_sec :: int
  tm_min :: int
  tm_hour :: int
  tm_mday :: int
  tm_mon :: int
  tm_year :: int

text \<open>What \<^verbatim>\<open>localtime\<close> documents: months from 0, years since 1900 in an \<^verbatim>\<open>int\<close>, a leap second.\<close>

definition tm_valid :: "tm \<Rightarrow> bool" where
  "tm_valid t \<longleftrightarrow> tm_sec t \<in> {0..60} \<and> tm_min t \<in> {0..59} \<and> tm_hour t \<in> {0..23} \<and> tm_mday t \<in> {1..31}
     \<and> tm_mon t \<in> {0..11} \<and> tm_year t \<in> {- (2 ^ 31)..<2 ^ 31}"

section \<open>The C library's formatting\<close>

definition digit :: "nat \<Rightarrow> char" where
  "digit d = char_of (48 + d mod 10)"

fun dec :: "nat \<Rightarrow> string" where
  "dec n = (if n < 10 then [digit n] else dec (n div 10) @ [digit n])"

declare dec.simps [simp del]

definition dec_int :: "int \<Rightarrow> string" where
  "dec_int z = (if z < 0 then ''-'' @ dec (nat (- z)) else dec (nat z))"

definition dec2 :: "int \<Rightarrow> string" where
  "dec2 z = [digit (nat z div 10), digit (nat z)]"

definition conversion :: "char \<Rightarrow> tm \<Rightarrow> string" where
  "conversion c t = (if c = CHR ''Y'' then dec_int (tm_year t + 1900) else if c = CHR ''m'' then dec2 (tm_mon t + 1)
     else if c = CHR ''d'' then dec2 (tm_mday t) else if c = CHR ''H'' then dec2 (tm_hour t)
     else if c = CHR ''M'' then dec2 (tm_min t) else if c = CHR ''S'' then dec2 (tm_sec t) else [c])"

fun strftime_out :: "string \<Rightarrow> tm \<Rightarrow> string" where
  "strftime_out [] t = []"
| "strftime_out [c] t = (if c = CHR ''%'' then [] else [c])"
| "strftime_out (c # d # fmt) t =
     (if c = CHR ''%'' then conversion d t @ strftime_out fmt t else c # strftime_out (d # fmt) t)"

text \<open>A result that does not fit with its terminator leaves the buffer indeterminate.\<close>

definition strftime :: "nat \<Rightarrow> string \<Rightarrow> tm \<Rightarrow> string ub" where
  "strftime maxlen fmt t = (let s = strftime_out fmt t in if length s < maxlen then Some s else None)"

section \<open>Stamps\<close>

text \<open>The format that the caller gives is not used. A time that \<^verbatim>\<open>localtime\<close> cannot represent gives a null pointer, which is then read.\<close>

definition mcmchStrftime :: "(int \<Rightarrow> tm option) \<Rightarrow> nat \<Rightarrow> string \<Rightarrow> int \<Rightarrow> string ub" where
  "mcmchStrftime localtime maxlen fmt time = do {
     time_info \<leftarrow> localtime time;
     strftime maxlen ''%Y/%m/%dT%H:%M:%S'' time_info }"

text \<open>\<open>clock\<close> is what \<^verbatim>\<open>time(NULL)\<close> returns.\<close>

definition mcmchCurrentTime :: "int \<Rightarrow> int" where
  "mcmchCurrentTime clock = clock"

text \<open>A call of the log at a time of the clock: \<^verbatim>\<open>mcmplogFormatted\<close> stamps the line itself.\<close>

definition mcmchlog_at :: "(int \<Rightarrow> tm option) \<Rightarrow> int \<Rightarrow> env option \<Rightarrow> 8 word \<Rightarrow> string \<Rightarrow> (log_event list \<times> mcmpst) ub" where
  "mcmchlog_at localtime clock env level message = do {
     formatted_time \<leftarrow> mcmchStrftime localtime 64 ''%Y/%m/%dT%H:%M:%S'' (mcmchCurrentTime clock);
     mcmchlog env level formatted_time message }"

definition stamp :: "tm \<Rightarrow> string" where
  "stamp t = dec_int (tm_year t + 1900) @ ''/'' @ dec2 (tm_mon t + 1) @ ''/'' @ dec2 (tm_mday t) @ ''T''
     @ dec2 (tm_hour t) @ '':'' @ dec2 (tm_min t) @ '':'' @ dec2 (tm_sec t)"

lemma strftime_stamp: "strftime_out ''%Y/%m/%dT%H:%M:%S'' t = stamp t"
  by (simp add: stamp_def conversion_def)

lemma length_dec: "n < 10 ^ Suc k \<Longrightarrow> length (dec n) \<le> Suc k"
proof (induction k arbitrary: n)
  case 0
  then show ?case by (simp add: dec.simps)
next
  case (Suc k)
  then have "n div 10 < 10 ^ Suc k" by (simp add: less_mult_imp_div_less)
  then show ?case using Suc.IH [of "n div 10"] by (simp add: dec.simps [of n])
qed

lemma length_dec2 [simp]: "length (dec2 z) = 2"
  by (simp add: dec2_def)

lemma length_stamp:
  assumes "tm_valid t"
  shows "length (stamp t) \<le> 26"
proof -
  have "length (dec_int (tm_year t + 1900)) \<le> 11"
    using assms le_SucI [OF length_dec [of "nat (tm_year t + 1900)" 9]] length_dec [of "nat (- (tm_year t + 1900))" 9]
    by (auto simp: dec_int_def tm_valid_def)
  then show ?thesis by (simp add: stamp_def)
qed

lemma strftime_valid: "localtime time = Some t \<Longrightarrow> tm_valid t \<Longrightarrow> mcmchStrftime localtime 64 fmt time = Some (stamp t)"
  using length_stamp [of t] by (simp add: mcmchStrftime_def strftime_def strftime_stamp del: strftime_out.simps)



text \<open>The years that are written with four digits.\<close>

definition four_digits :: "tm \<Rightarrow> bool" where
  "four_digits t \<longleftrightarrow> 1000 \<le> tm_year t + 1900 \<and> tm_year t + 1900 \<le> 9999"






section \<open>Order\<close>

definition char_less :: "(char \<times> char) set" where
  "char_less = {(a, b). of_char a < (of_char b :: nat)}"


definition tm_key :: "tm \<Rightarrow> int list" where
  "tm_key t = [tm_year t, tm_mon t, tm_mday t, tm_hour t, tm_min t, tm_sec t]"

lemma char_less_irrefl [simp]: "(c, c) \<notin> char_less"
  by (simp add: char_less_def)

lemma char_less_same: "(c # u, c # v) \<in> lexord char_less \<longleftrightarrow> (u, v) \<in> lexord char_less"
  by (simp add: char_less_def)





section \<open>Properties\<close>


definition sample_localtime :: "int \<Rightarrow> tm option" where
  "sample_localtime x = Some \<lparr>tm_sec = x mod 60, tm_min = 5, tm_hour = 23, tm_mday = 31, tm_mon = 11, tm_year = 125\<rparr>"

lemma sample_localtime: "\<exists>t. sample_localtime x = Some t \<and> tm_valid t \<and> four_digits t \<and> tm_key t = [125, 11, 31, 23, 5, x mod 60]"
proof -
  have "0 \<le> x mod 60" "x mod 60 \<le> 60" by (simp, linarith)
  then show ?thesis by (simp add: sample_localtime_def tm_valid_def four_digits_def tm_key_def)
qed


text \<open>
  C33: A call of the log at a time that the system can represent writes the whole line, with its stamp, to the right places and within
  its buffers: no line is cut beyond the 3995 characters of its message, whatever the year.
\<close>
theorem log_line_stamped:
  assumes "localtime (mcmchCurrentTime clock) = Some t" "tm_valid t" "unat level < 5"
  shows "\<exists>now. mcmchStrftime localtime 64 ''%Y/%m/%dT%H:%M:%S'' (mcmchCurrentTime clock) = Some now \<and> length now \<le> 26
     \<and> mcmchlog_at localtime clock env level message = Some ((case env of None \<Rightarrow> [Write_Stdout (log_line level now message)]
       | Some e \<Rightarrow> (if env_loglevel e \<le> level then [Write_Stdout (log_line level now message)] else [])
           @ (if env_logfd e \<noteq> -1 then [Write_File (env_logfd e) (log_line level now message)] else [])), MCMPST_SUCCESS)"
proof -
  have short: "length (stamp t) \<le> 63" using length_stamp [OF assms(2)] by simp
  show ?thesis
    using strftime_valid [of localtime _ t] assms(1,2) length_stamp [OF assms(2)] log_runs [OF short assms(3)]
    by (simp add: mcmchlog_at_def log_targets_def mcmchlogWriteLine_def)
qed

theorem log_line_stamped_witness:
  "\<exists>now. length now \<le> 26 \<and> mcmchlog_at sample_localtime 7 None 4 ''broken''
     = Some ([Write_Stdout (log_line 4 now ''broken'')], MCMPST_SUCCESS)"
proof -
  obtain t where t: "sample_localtime (mcmchCurrentTime 7) = Some t" "tm_valid t"
    using sample_localtime [of 7] by (auto simp: mcmchCurrentTime_def)
  show ?thesis using log_line_stamped [of sample_localtime 7 t 4 None "''broken''"] t by auto
qed

end
