(* ===== verification/Server_Main.thy ===== *)
theory Server_Main
  imports Datagram Environment
begin

text \<open>
  The server program of \<^verbatim>\<open>cli/src/linux/main.c\<close>, which puts the components together: it creates them, runs the
  loop over \<^verbatim>\<open>epoll_wait\<close> and destroys them. What the waits return, and what the other calls to the operating
  system answer, are inputs; the calls to the other components are recorded in order, those to the log, the environment and the datagrams
  with what their models do.
\<close>

section \<open>Constants and the environment\<close>

definition MAX_EVENTS :: nat where "MAX_EVENTS = 10"
definition BEAT_TICK :: "64 word" where "BEAT_TICK = 150"
definition EINTR :: int where "EINTR = 4"



section \<open>The loop\<close>

datatype part = Env | Server | Clients | Heartbeat | Writer

datatype main_event =
    Created part | Destroyed part | Clients_Flushed | Writer_Started | Writer_Set | Env_Selected
  | Logged "log_event list" | Beat | Process | Update "handled list"

text \<open>
  A turn of the loop: what the test of the running flag reads, and what the wait returns: an error, or the events that are ready, as what
  receiving from each gives, with what is on the stack for the buffer of the update.
\<close>

datatype wait = Wait_Failed int | Ready "byte list" "byte list option list"

fun serve_loop :: "proto \<Rightarrow> 64 word \<Rightarrow> (bool \<times> wait) list \<Rightarrow> (main_event list \<times> bool) ub" where
  "serve_loop pr beatick [] = Some ([], False)"
| "serve_loop pr beatick ((running, w) # turns) =
     (if \<not> running then Some ([], True)
      else case w of
        Wait_Failed errno \<Rightarrow> if errno = EINTR then serve_loop pr beatick turns else Some ([], True)
      | Ready junk recvs \<Rightarrow> do {
          let beatick' = beatick + 1;
          (hs, _) \<leftarrow> mcmchServerUpdate pr junk recvs;
          (evs, fin) \<leftarrow> serve_loop pr beatick' turns;
          Some ((if beatick' mod BEAT_TICK = 0 then [Beat] else []) @ [Process, Update hs] @ evs, fin) })"

section \<open>The program\<close>





section \<open>What the loop does\<close>

definition main_updates :: "main_event list \<Rightarrow> handled list list" where
  "main_updates evs = concat (map (\<lambda>e. case e of Update hs \<Rightarrow> [hs] | _ \<Rightarrow> []) evs)"

definition main_beats :: "main_event list \<Rightarrow> nat" where
  "main_beats evs = length (filter (\<lambda>e. e = Beat) evs)"

lemma main_counts [simp]:
  "main_updates [] = []" "main_updates (Update hs # evs) = hs # main_updates evs"
  "main_updates (Beat # evs) = main_updates evs" "main_updates (Process # evs) = main_updates evs"
  "main_beats [] = 0" "main_beats (Beat # evs) = Suc (main_beats evs)"
  "main_beats (Update hs # evs) = main_beats evs" "main_beats (Process # evs) = main_beats evs"
  by (simp_all add: main_updates_def main_beats_def)

text \<open>What a datagram leads to on its own, and a turn in which datagrams are received.\<close>

definition alone :: "proto \<Rightarrow> byte list \<Rightarrow> handled" where
  "alone pr d = the (proccess_dgram pr d (int (length d)))"

definition ready :: "byte list \<times> byte list list \<Rightarrow> bool \<times> wait" where
  "ready r = (True, Ready (fst r) (map Some (snd r)))"

definition round_ok :: "byte list \<times> byte list list \<Rightarrow> bool" where
  "round_ok r \<longleftrightarrow> length (fst r) = MCMP_DGRAM_MAXSIZE \<and> length (snd r) \<le> 8 \<and> (\<forall>d \<in> set (snd r). length d \<le> MCMP_DGRAM_MAXSIZE)"

lemma round_update:
  assumes "round_ok r"
  shows "mcmchServerUpdate pr (fst r) (map Some (snd r)) = Some (map (alone pr) (snd r), MCMPST_SUCCESS)"
proof -
  have "length d \<le> 2 ^ 32" if "d \<in> set (snd r)" for d
    using assms that by (auto simp: round_ok_def MCMP_DGRAM_MAXSIZE_def MCMP_HEADER_SIZE_def MCMP_PAYLOAD_SIZE_def)
  then show ?thesis
    using update_received [of "fst r" 0 "snd r" pr] assms process_defined
    by (simp add: mcmchServerUpdate_def round_ok_def alone_def [abs_def])
qed

lemma beat_due:
  assumes "unat t + 1 < 2 ^ 64"
  shows "unat (t + 1 :: 64 word) = unat t + 1" "(t + 1) mod BEAT_TICK = 0 \<longleftrightarrow> (unat t + 1) mod 150 = 0"
proof -
  show *: "unat (t + 1) = unat t + 1" using assms by (simp add: unat_word_ariths)
  have "(t + 1) mod BEAT_TICK = 0 \<longleftrightarrow> unat ((t + 1) mod BEAT_TICK) = 0" by (simp add: unat_eq_0)
  then show "(t + 1) mod BEAT_TICK = 0 \<longleftrightarrow> (unat t + 1) mod 150 = 0"
    using * by (simp add: unat_mod BEAT_TICK_def)
qed

lemma serve_ready:
  assumes "round_ok r" "serve_loop pr (t + 1) turns = Some (evs, fin)"
  shows "serve_loop pr t (ready r # turns) =
    Some ((if (t + 1) mod BEAT_TICK = 0 then [Beat] else []) @ [Process, Update (map (alone pr) (snd r))] @ evs, fin)"
  using round_update [OF assms(1), of pr] assms(2) by (simp add: ready_def Let_def)

lemma serve_rounds:
  assumes "\<forall>r \<in> set rounds. round_ok r" "unat t + length rounds < 2 ^ 64" "serve_loop pr (t + of_nat (length rounds)) turns = Some ([], fin)"
  shows "\<exists>evs. serve_loop pr t (map ready rounds @ turns) = Some (evs, fin)
    \<and> main_updates evs = map (map (alone pr) \<circ> snd) rounds \<and> length (filter (\<lambda>e. e = Process) evs) = length rounds
    \<and> unat t div 150 + main_beats evs = (unat t + length rounds) div 150"
  using assms
proof (induction rounds arbitrary: t)
  case (Cons r rounds)
  note due = beat_due [of t]
  have t: "unat t + 1 < 2 ^ 64" using Cons.prems(2) by simp
  obtain evs where evs: "serve_loop pr (t + 1) (map ready rounds @ turns) = Some (evs, fin)"
      "main_updates evs = map (map (alone pr) \<circ> snd) rounds"
      "length (filter (\<lambda>e. e = Process) evs) = length rounds"
      "unat (t + 1) div 150 + main_beats evs = (unat (t + 1) + length rounds) div 150"
    using Cons.IH [of "t + 1"] Cons.prems due(1) [OF t] by (auto simp: add.assoc)
  have step: "unat (t + 1) div 150 = unat t div 150 + (if (t + 1) mod BEAT_TICK = 0 then 1 else 0)"
    using due [OF t] by (simp add: div_Suc)
  have "serve_loop pr t (map ready (r # rounds) @ turns) =
      Some ((if (t + 1) mod BEAT_TICK = 0 then [Beat] else []) @ [Process, Update (map (alone pr) (snd r))] @ evs, fin)"
    using serve_ready [OF _ evs(1), of r] Cons.prems(1) by simp
  then show ?case using evs(2-4) step due(1) [OF t] by (cases "(t + 1) mod BEAT_TICK = 0") simp_all
qed auto






section \<open>Properties\<close>

text \<open>
  C7: The server handles every datagram, once, in order, and on its own: in a run whose waits each make up to eight datagrams ready,
  the updates handle each datagram as if it were alone, there is one update and one processing of the heartbeat for each wait, and
  the heartbeat beats on every 150th wait.
\<close>
theorem server_handles_rounds:
  assumes "\<forall>r \<in> set rounds. round_ok r" "length rounds < 2 ^ 64"
  shows "\<exists>evs. serve_loop pr 0 (map ready rounds @ [(False, w)]) = Some (evs, True)
    \<and> concat (main_updates evs) = map (alone pr) (concat (map snd rounds))
    \<and> length (main_updates evs) = length rounds \<and> length (filter (\<lambda>e. e = Process) evs) = length rounds
    \<and> main_beats evs = length rounds div 150"
proof -
  obtain evs where "serve_loop pr 0 (map ready rounds @ [(False, w)]) = Some (evs, True)"
      "main_updates evs = map (map (alone pr) \<circ> snd) rounds" "length (filter (\<lambda>e. e = Process) evs) = length rounds"
      "main_beats evs = length rounds div 150"
    using serve_rounds [OF assms(1), of 0 pr "[(False, w)]" True] assms(2) by auto
  then show ?thesis by (auto simp: map_concat comp_def)
qed


text \<open>
  The loop asks for more events than the server has room for: a wait that returns nine or ten, which \<^verbatim>\<open>MAX_EVENTS\<close> allows, makes the update read
  behind its array, whatever the datagrams are.
\<close>
lemma server_event_overrun:
  assumes "length recvs = MAX_EVENTS"
  shows "serve_loop pr t ((True, Ready junk recvs) # turns) = None"
  using update_overrun [of 0 recvs pr junk] assms by (simp add: mcmchServerUpdate_def MAX_EVENTS_def Let_def)

theorem server_handles_rounds_witness:
  "\<exists>evs. serve_loop mcmp_proto 0 (map ready (replicate 300 (replicate 1088 0, [replicate 60 1])) @ [(False, Wait_Failed 0)]) = Some (evs, True)
     \<and> concat (main_updates evs) = replicate 300 (alone mcmp_proto (replicate 60 1)) \<and> main_beats evs = 2"
proof -
  have "\<forall>r \<in> set (replicate 300 (replicate 1088 (0 :: byte), [replicate 60 (1 :: byte)])). round_ok r"
    by (simp add: round_ok_def MCMP_DGRAM_MAXSIZE_def MCMP_HEADER_SIZE_def MCMP_PAYLOAD_SIZE_def)
  moreover have "concat (replicate n [x]) = replicate n x" for n and x :: "byte list" by (induction n) auto
  ultimately show ?thesis
    using server_handles_rounds [of "replicate 300 (replicate 1088 0, [replicate 60 1])" mcmp_proto "Wait_Failed 0"]
    by (auto simp: map_replicate)
qed


lemma server_event_overrun_witness:
  "serve_loop mcmp_proto 0 [(True, Ready (replicate 1088 0) (replicate 10 (Some [])))] = None"
proof (rule server_event_overrun)
  show "length (replicate 10 (Some [])) = MAX_EVENTS" by (simp add: MAX_EVENTS_def)
qed

end
