(* ===== verification/Ring_Queue.thy ===== *)
theory Ring_Queue
  imports Ring_Fifo
begin

text \<open>
  The byte ring of \<^verbatim>\<open>utilities/src/common/queue.c\<close>: items of a fixed size are copied into the
  payload behind the header. The file has creation and push, and nothing that takes; the head and
  the tail of its state say what a taker would find.
\<close>

record ringqueue =
  rq_length :: nat
  rq_itsize :: nat
  rq_head :: nat
  rq_tail :: nat
  rq_payload :: "byte list"

text \<open>Creation requests the header (32 bytes) and the payload; a refusal sets no status.\<close>

definition mcmchQueueCreate :: "(nat \<Rightarrow> bool) \<Rightarrow> (nat \<Rightarrow> byte) \<Rightarrow> nat \<Rightarrow> nat \<Rightarrow> ringqueue option ub" where
  "mcmchQueueCreate malloc_ok junk item_size len =
     (let abslength = (item_size * len) mod size_max; bytes = (32 + abslength) mod size_max
      in if \<not> malloc_ok bytes then Some None
         else if bytes < 32 then None
         else Some (Some \<lparr>rq_length = len, rq_itsize = item_size, rq_head = 0, rq_tail = 0,
                rq_payload = map junk [0..<abslength]\<rparr>))"

text \<open>Push returns the index of the slot as an \<^verbatim>\<open>int\<close>, or -1 when the ring is full.\<close>

definition mcmchQueuePush :: "ringqueue \<Rightarrow> byte list \<Rightarrow> (ringqueue \<times> int) ub" where
  "mcmchQueuePush q item = do {
     let index = rq_head q;
     nxt \<leftarrow> ring_next (rq_length q) index;
     (if nxt = rq_tail q then Some (q, -1)
      else do {
        payload \<leftarrow> mem_write (rq_payload q) ((index * rq_itsize q) mod size_max) (take (rq_itsize q) item);
        Some (q\<lparr>rq_payload := payload, rq_head := nxt\<rparr>, sint (word_of_nat index :: 32 word)) }) }"

definition rq_slots :: "ringqueue \<Rightarrow> byte list list" where
  "rq_slots q = map (mem_record (rq_itsize q) (rq_payload q)) [0..<rq_length q]"

definition rq_view :: "ringqueue \<Rightarrow> byte list list" where
  "rq_view q = ring_view (rq_length q) (rq_slots q) (rq_head q) (rq_tail q)"

definition rq_inv :: "ringqueue \<Rightarrow> bool" where
  "rq_inv q \<longleftrightarrow> rq_head q < rq_length q \<and> rq_tail q < rq_length q
     \<and> rq_length q * rq_itsize q \<le> length (rq_payload q) \<and> length (rq_payload q) < size_max \<and> rq_length q < size_max"

lemma slot_address: "rq_inv q \<Longrightarrow> k < rq_length q \<Longrightarrow> k * rq_itsize q + rq_itsize q \<le> length (rq_payload q)"
  using mult_le_mono1 [of "Suc k" "rq_length q" "rq_itsize q"] by (simp add: rq_inv_def)

lemma rq_slots_written:
  assumes "rq_inv q" "k < rq_length q" "length item = rq_itsize q"
  shows "rq_slots (q\<lparr>rq_payload := spliced (rq_payload q) (k * rq_itsize q) item\<rparr>) = (rq_slots q)[k := item]"
  using assms mem_record_written [OF assms(3,2), of "rq_payload q"]
  by (intro nth_equalityI) (auto simp: rq_slots_def rq_inv_def nth_list_update)

text \<open>
  A push onto the byte ring answers -1 and changes nothing exactly when all slots but one are in use; otherwise it
  appends the item and answers the index of its slot, which is that index as long as it is below \<open>2 ^ 31\<close>.
\<close>

lemma ring_queue_push:
  assumes "rq_inv q" "length item = rq_itsize q"
  shows "if Suc (length (rq_view q)) = rq_length q then mcmchQueuePush q item = Some (q, -1)
     else \<exists>q'. mcmchQueuePush q item = Some (q', sint (word_of_nat (rq_head q) :: 32 word))
       \<and> rq_inv q' \<and> rq_view q' = rq_view q @ [item] \<and> rq_slots q' ! rq_head q = item
       \<and> (rq_head q < 2 ^ 31 \<longrightarrow> sint (word_of_nat (rq_head q) :: 32 word) = int (rq_head q))"
proof -
  let ?h = "rq_head q" let ?n = "rq_length q" let ?w = "rq_itsize q"
  have h: "?h < ?n" and t: "rq_tail q < ?n" and n: "?n < size_max" using assms(1) by (simp_all add: rq_inv_def)
  have len: "length (rq_slots q) = ?n" by (simp add: rq_slots_def)
  have full: "Suc ?h mod ?n = rq_tail q \<longleftrightarrow> Suc (length (rq_view q)) = ?n"
    using ring_count_full [OF h t] by (simp add: rq_view_def)
  have addr: "?h * ?w + length item \<le> length (rq_payload q)" using slot_address [OF assms(1) h] assms(2) by simp
  then have small: "(?h * ?w) mod size_max = ?h * ?w" using assms(1) by (simp add: rq_inv_def)
  show ?thesis
  proof (cases "Suc (length (rq_view q)) = ?n")
    case True
    then show ?thesis using full by (simp add: mcmchQueuePush_def ring_next_eq [OF h n] Let_def)
  next
    case False
    let ?q = "q\<lparr>rq_payload := spliced (rq_payload q) (?h * ?w) item\<rparr>"
    let ?q' = "q\<lparr>rq_payload := spliced (rq_payload q) (?h * ?w) item, rq_head := Suc ?h mod ?n\<rparr>"
    have slots: "rq_slots ?q' = (rq_slots q)[?h := item]"
      using rq_slots_written [OF assms(1) h assms(2)] by (simp add: rq_slots_def)
    have "mcmchQueuePush q item = Some (?q', sint (word_of_nat ?h :: 32 word))"
      using False full addr assms(2) small by (simp add: mcmchQueuePush_def ring_next_eq [OF h n] Let_def mem_simps)
    moreover have "rq_view ?q' = rq_view q @ [item]"
      using ring_view_push [OF h t, of "rq_slots q" item] False full len slots by (simp add: rq_view_def)
    moreover have "rq_inv ?q'" using assms(1) addr h by (simp add: rq_inv_def)
    moreover have "rq_slots ?q' ! ?h = item" using slots len h by simp
    moreover have "?h < 2 ^ 31 \<Longrightarrow> sint (word_of_nat ?h :: 32 word) = int ?h"
      by (simp add: signed_take_bit_int_eq_self sint_uint unsigned_of_nat take_bit_nat_eq_self)
    ultimately show ?thesis using False by auto
  qed
qed

lemma ring_queue_push_witness:
  "\<exists>q'. mcmchQueuePush \<lparr>rq_length = 3, rq_itsize = 2, rq_head = 2, rq_tail = 1, rq_payload = [0, 0, 9, 8, 0, 0]\<rparr> [4, 5]
     = Some (q', 2) \<and> rq_view q' = [[9, 8], [4, 5]]"
proof -
  let ?q = "\<lparr>rq_length = 3, rq_itsize = 2, rq_head = 2, rq_tail = 1, rq_payload = [0, 0, 9, 8, 0, 0]\<rparr> :: ringqueue"
  have inv: "rq_inv ?q" by (simp add: rq_inv_def)
  have view: "rq_view ?q = [[9, 8]]" by code_simp
  show ?thesis using ring_queue_push [OF inv, of "[4, 5]"] view by auto
qed

end
