(* ===== verification/Server_Program.thy ===== *)
theory Server_Program
  imports Server_Main Ring_Queue
begin








lemma main_updates_append [simp]: "main_updates (es @ fs) = main_updates es @ main_updates fs"
  by (simp add: main_updates_def)





end
