(* ===== verification/Routine.thy ===== *)
theory Routine
  imports Status
begin

text \<open>
  Routines and signal locks: \<^verbatim>\<open>routines/src/linux/routine.c\<close>. A signal routine is a thread that
  waits on a condition variable with a deadline and calls a handler with a status. Mutexes, condition
  variables and the clock are the operating system's: what a wait returns, what the clock reads and
  what a read of the \<open>running\<close> flag sees are inputs, and the calls that the thread makes are recorded.
\<close>

section \<open>Deadlines\<close>

record timespec =
  ts_secs :: int
  ts_nanos :: int

text \<open>Both fields are \<^verbatim>\<open>long\<close>; an addition beyond it is undefined.\<close>

definition long_add :: "int \<Rightarrow> int \<Rightarrow> int ub" where
  "long_add a b = (if - (2 ^ 63) \<le> a + b \<and> a + b < 2 ^ 63 then Some (a + b) else None)"

definition half_second_after :: "timespec \<Rightarrow> timespec ub" where
  "half_second_after now = do {
     nanos \<leftarrow> long_add (ts_nanos now) 500000000;
     (if 1000000000 \<le> nanos then do {
        secs \<leftarrow> long_add (ts_secs now) 1;
        Some \<lparr>ts_secs = secs, ts_nanos = nanos - 1000000000\<rparr> }
      else Some \<lparr>ts_secs = ts_secs now, ts_nanos = nanos\<rparr>) }"

text \<open>What \<^verbatim>\<open>clock_gettime\<close> documents of its result, and the start of the clock, which is the first deadline.\<close>

definition normal_time :: "timespec \<Rightarrow> bool" where
  "normal_time t \<longleftrightarrow> 0 \<le> ts_secs t \<and> ts_secs t < 2 ^ 62 \<and> 0 \<le> ts_nanos t \<and> ts_nanos t < 1000000000"

definition null_time_spec :: timespec where
  "null_time_spec = \<lparr>ts_secs = 0, ts_nanos = 0\<rparr>"

definition nanos_of :: "timespec \<Rightarrow> int" where
  "nanos_of t = ts_secs t * 1000000000 + ts_nanos t"

lemma half_second_after_normal:
  assumes "normal_time now"
  obtains d where "half_second_after now = Some d" "0 \<le> ts_nanos d" "ts_nanos d < 1000000000"
    "nanos_of d = nanos_of now + 500000000"
  using assms
  by (cases "500000000 \<le> ts_nanos now") (auto simp: normal_time_def half_second_after_def long_add_def nanos_of_def)

section \<open>Waiting\<close>

definition ETIMEDOUT :: int where "ETIMEDOUT = 110"

definition mcmchSignalLockWait :: "int \<Rightarrow> mcmpst" where
  "mcmchSignalLockWait status = (if status \<noteq> 0 then MCMPST_NOT_IMPLEMENTED else MCMPST_SUCCESS)"

definition mcmchSignalLockTimedWait :: "int \<Rightarrow> mcmpst" where
  "mcmchSignalLockTimedWait status =
     (if status = ETIMEDOUT then MCMPST_OVTIMEOUT
      else if status = 0 then MCMPST_SUCCESS else MCMPST_NOT_IMPLEMENTED)"

section \<open>Routines\<close>

text \<open>Functions and arguments are addresses.\<close>

record routine =
  ro_handler :: nat
  ro_arg :: nat

definition mcmchRoutineMake :: "nat \<Rightarrow> nat \<Rightarrow> routine \<times> mcmpst" where
  "mcmchRoutineMake handler arg = (\<lparr>ro_handler = handler, ro_arg = arg\<rparr>, MCMPST_SUCCESS)"

text \<open>
  The threads of the process, with their entry and argument, in the order of their creation. Linking ignores whether the
  system could create the thread; when it could not, the pipeline is not written, \<open>None\<close>. A join goes on when the thread has ended.
\<close>

type_synonym threads = "(nat \<times> nat) list"

definition mcmchRoutineLink :: "bool \<Rightarrow> routine \<Rightarrow> threads \<Rightarrow> threads \<times> nat option \<times> mcmpst" where
  "mcmchRoutineLink created r ts =
     (if created then (ts @ [(ro_handler r, ro_arg r)], Some (length ts), MCMPST_SUCCESS) else (ts, None, MCMPST_SUCCESS))"

definition mcmchRoutineJoin :: "(nat \<Rightarrow> 'r option) \<Rightarrow> nat \<Rightarrow> 'r option" where
  "mcmchRoutineJoin ended pipeline = ended pipeline"

lemma routine_link:
  "mcmchRoutineLink created r ts = (ts', Some p, st) \<Longrightarrow> ts' ! p = (ro_handler r, ro_arg r) \<and> take (length ts) ts' = ts"
  "snd (snd (mcmchRoutineLink created r ts)) = MCMPST_SUCCESS"
  by (auto simp: mcmchRoutineLink_def split: if_splits)

record signal_routine =
  sr_routine :: routine
  sr_lock :: nat
  sr_running :: int
  sr_handler :: nat
  sr_arg :: nat

text \<open>\<open>entry\<close> is the address of the loop below, \<open>self\<close> that of the routine.\<close>

definition mcmchSignalRoutineCreate :: "nat \<Rightarrow> nat \<Rightarrow> nat \<Rightarrow> nat \<Rightarrow> nat \<Rightarrow> signal_routine \<times> mcmpst" where
  "mcmchSignalRoutineCreate entry self lock handler arg =
     (case mcmchRoutineMake entry self of (r, st) \<Rightarrow>
        (\<lparr>sr_routine = r, sr_lock = lock, sr_running = 1, sr_handler = handler, sr_arg = arg\<rparr>, st))"

definition mcmchSignalRoutineInterrompt :: "signal_routine \<Rightarrow> signal_routine" where
  "mcmchSignalRoutineInterrompt sr = sr\<lparr>sr_running := 0\<rparr>"

section \<open>The loop of a signal routine\<close>

definition SR_CONTINUE :: int where "SR_CONTINUE = 0"
definition SR_SHUTDOWN :: int where "SR_SHUTDOWN = 1"
definition SR_ERROR :: int where "SR_ERROR = -1"

datatype sr_event = Sr_Lock | Sr_Wait timespec | Sr_Handle int | Sr_Unlock

text \<open>
  A wait that returns: its status, what the test of the flag after it reads, the clock at that time, and
  what the test at the head of the outer loop reads if the thread gets there.
\<close>

record sr_wake =
  sw_status :: int
  sw_running :: int
  sw_clock :: timespec
  sw_again :: int

text \<open>
  The thread from a wait on, under its lock: the calls it makes and whether it returns. When \<open>wakes\<close> ends, the
  thread is in a wait that has not returned. The deadline is not renewed after a wait that succeeds.
\<close>

fun signal_wait_loop :: "timespec \<Rightarrow> sr_wake list \<Rightarrow> (sr_event list \<times> bool) ub" where
  "signal_wait_loop spec [] = Some ([Sr_Wait spec], False)"
| "signal_wait_loop spec (w # wakes) =
     (let ret = mcmchSignalLockTimedWait (sw_status w)
      in if ret \<noteq> MCMPST_SUCCESS then
           if sw_running w = 0 \<or> ret \<noteq> MCMPST_OVTIMEOUT then
             Some ([Sr_Wait spec] @ (if ret \<noteq> MCMPST_OVTIMEOUT then [Sr_Handle SR_ERROR] else [])
               @ [Sr_Handle SR_SHUTDOWN, Sr_Unlock], True)
           else do {
             spec' \<leftarrow> half_second_after (sw_clock w);
             (evs, fin) \<leftarrow> signal_wait_loop spec' wakes;
             Some (Sr_Wait spec # evs, fin) }
         else if sw_running w = 0 then Some ([Sr_Wait spec, Sr_Handle SR_SHUTDOWN, Sr_Unlock], True)
         else if sw_again w = 0 then Some ([Sr_Wait spec, Sr_Handle SR_CONTINUE], True)
         else do {
           (evs, fin) \<leftarrow> signal_wait_loop spec wakes;
           Some ([Sr_Wait spec, Sr_Handle SR_CONTINUE, Sr_Lock] @ evs, fin) })"

definition mcmchSignalRoutineHandler :: "int \<Rightarrow> sr_wake list \<Rightarrow> (sr_event list \<times> bool) ub" where
  "mcmchSignalRoutineHandler running wakes =
     (if running = 0 then Some ([], True)
      else do { (evs, fin) \<leftarrow> signal_wait_loop null_time_spec wakes; Some (Sr_Lock # evs, fin) })"

section \<open>Lock discipline, handler calls and deadlines of a run\<close>

text \<open>
  Whether a mutex held or free at first ends held or free, \<open>None\<close> when a held mutex is locked or a wait, a handler
  call or an unlock happens without it; a handler called with \<open>SR_CONTINUE\<close> releases it, as
  \<^verbatim>\<open>mcmchHeartbeatRuntineHandler\<close> does (\<open>Heartbeat_Routine\<close> derives this from the handler itself).
\<close>

fun sr_discipline :: "bool \<Rightarrow> sr_event list \<Rightarrow> bool option" where
  "sr_discipline held [] = Some held"
| "sr_discipline held (Sr_Lock # evs) = (if held then None else sr_discipline True evs)"
| "sr_discipline held (Sr_Wait _ # evs) = (if held then sr_discipline True evs else None)"
| "sr_discipline held (Sr_Handle st # evs) = (if held then sr_discipline (st \<noteq> SR_CONTINUE) evs else None)"
| "sr_discipline held (Sr_Unlock # evs) = (if held then sr_discipline False evs else None)"

definition sr_codes :: "sr_event list \<Rightarrow> int list" where
  "sr_codes evs = concat (map (\<lambda>e. case e of Sr_Handle st \<Rightarrow> [st] | _ \<Rightarrow> []) evs)"

definition sr_deadlines :: "sr_event list \<Rightarrow> timespec list" where
  "sr_deadlines evs = concat (map (\<lambda>e. case e of Sr_Wait d \<Rightarrow> [d] | _ \<Rightarrow> []) evs)"

lemma sr_lists [simp]:
  "sr_codes [] = []" "sr_codes (Sr_Lock # es) = sr_codes es" "sr_codes (Sr_Wait d # es) = sr_codes es"
  "sr_codes (Sr_Handle st # es) = st # sr_codes es" "sr_codes (Sr_Unlock # es) = sr_codes es"
  "sr_deadlines [] = []" "sr_deadlines (Sr_Lock # es) = sr_deadlines es"
  "sr_deadlines (Sr_Wait d # es) = d # sr_deadlines es"
  "sr_deadlines (Sr_Handle st # es) = sr_deadlines es" "sr_deadlines (Sr_Unlock # es) = sr_deadlines es"
  by (simp_all add: sr_codes_def sr_deadlines_def)

text \<open>The endings of a run: the flag was seen cleared at the head of the loop, at a wait, or a wait failed.\<close>

definition sr_ending :: "bool \<Rightarrow> int list \<Rightarrow> bool" where
  "sr_ending fin cs \<longleftrightarrow> cs = [] \<or> fin \<and> (cs = [SR_SHUTDOWN] \<or> cs = [SR_ERROR, SR_SHUTDOWN])"

definition sr_codes_ok :: "bool \<Rightarrow> int list \<Rightarrow> bool" where
  "sr_codes_ok fin cs \<longleftrightarrow> (\<exists>k tl. cs = replicate k SR_CONTINUE @ tl \<and> sr_ending fin tl)"

lemma sr_codes_ok_Cons: "sr_codes_ok fin cs \<Longrightarrow> sr_codes_ok fin (SR_CONTINUE # cs)"
  unfolding sr_codes_ok_def by (metis append_Cons replicate_Suc)

lemma sr_codes_ok_ending: "sr_ending fin cs \<Longrightarrow> sr_codes_ok fin cs"
  unfolding sr_codes_ok_def by (metis append_Nil replicate_0)

lemma sr_codes_ok_ends:
  "sr_codes_ok fin []" "sr_codes_ok True [SR_SHUTDOWN]" "sr_codes_ok True [SR_ERROR, SR_SHUTDOWN]"
  "sr_codes_ok True [SR_CONTINUE]"
  by (auto intro!: sr_codes_ok_ending sr_codes_ok_Cons simp: sr_ending_def)

text \<open>A deadline is the null time or half a second after one of the times of \<open>clocks\<close>.\<close>

definition sr_deadline_ok :: "timespec set \<Rightarrow> timespec \<Rightarrow> bool" where
  "sr_deadline_ok clocks d \<longleftrightarrow> 0 \<le> ts_nanos d \<and> ts_nanos d < 1000000000
     \<and> (d = null_time_spec \<or> (\<exists>now \<in> clocks. nanos_of d = nanos_of now + 500000000))"

definition sr_run_ok :: "timespec set \<Rightarrow> bool \<Rightarrow> sr_event list \<Rightarrow> bool \<Rightarrow> bool" where
  "sr_run_ok clocks held evs fin \<longleftrightarrow> sr_discipline held evs = Some (\<not> fin) \<and> sr_codes_ok fin (sr_codes evs)
     \<and> (\<forall>d \<in> set (sr_deadlines evs). sr_deadline_ok clocks d)"

lemma signal_wait_loop_ok:
  assumes "\<forall>w \<in> set wakes. normal_time (sw_clock w)" "sw_clock ` set wakes \<subseteq> clocks" "sr_deadline_ok clocks spec"
  shows "\<exists>evs fin. signal_wait_loop spec wakes = Some (evs, fin) \<and> sr_run_ok clocks True evs fin"
  using assms
proof (induction spec wakes rule: signal_wait_loop.induct)
  case (1 spec)
  then show ?case by (auto simp: sr_run_ok_def sr_codes_ok_ends)
next
  case (2 spec w wakes)
  note codes = SR_CONTINUE_def SR_SHUTDOWN_def SR_ERROR_def
  let ?ret = "mcmchSignalLockTimedWait (sw_status w)"
  have now: "normal_time (sw_clock w)" "sw_clock w \<in> clocks" using 2(3,4) by simp_all
  obtain d where d: "half_second_after (sw_clock w) = Some d" "sr_deadline_ok clocks d"
    by (rule half_second_after_normal [OF now(1)]) (use now(2) in \<open>auto simp: sr_deadline_ok_def\<close>)
  have wakes: "\<forall>w \<in> set wakes. normal_time (sw_clock w)" "sw_clock ` set wakes \<subseteq> clocks" using 2(3,4) by simp_all
  consider (stop) "?ret \<noteq> MCMPST_SUCCESS" "sw_running w = 0 \<or> ?ret \<noteq> MCMPST_OVTIMEOUT"
    | (timeout) "?ret \<noteq> MCMPST_SUCCESS" "sw_running w \<noteq> 0" "?ret = MCMPST_OVTIMEOUT"
    | (shutdown) "?ret = MCMPST_SUCCESS" "sw_running w = 0"
    | (last) "?ret = MCMPST_SUCCESS" "sw_running w \<noteq> 0" "sw_again w = 0"
    | (again) "?ret = MCMPST_SUCCESS" "sw_running w \<noteq> 0" "sw_again w \<noteq> 0" by blast
  then show ?case
  proof cases
    case stop
    then show ?thesis using 2(5) sr_codes_ok_ends by (auto simp: sr_run_ok_def codes)
  next
    case timeout
    then show ?thesis using 2(1) [OF refl timeout(1) _ d(1) wakes d(2)] 2(5) d(1)
      by (auto simp: sr_run_ok_def)
  next
    case shutdown
    then show ?thesis using 2(5) sr_codes_ok_ends by (auto simp: sr_run_ok_def codes)
  next
    case last
    then show ?thesis using 2(5) sr_codes_ok_ends by (auto simp: sr_run_ok_def codes)
  next
    case again
    then show ?thesis using 2(2) [OF refl _ _ _ wakes 2(5)] 2(5)
      by (auto simp: sr_run_ok_def codes intro: sr_codes_ok_Cons [unfolded codes])
  qed
qed

lemma signal_routine_run:
  assumes "\<forall>w \<in> set wakes. normal_time (sw_clock w)"
  obtains evs fin where "mcmchSignalRoutineHandler running wakes = Some (evs, fin)"
    "sr_discipline False evs = Some (running \<noteq> 0 \<and> \<not> fin)" "sr_codes_ok fin (sr_codes evs)"
    "\<forall>d \<in> set (sr_deadlines evs). sr_deadline_ok (sw_clock ` set wakes) d"
proof (cases "running = 0")
  case False
  obtain evs fin where "signal_wait_loop null_time_spec wakes = Some (evs, fin)"
    and "sr_run_ok (sw_clock ` set wakes) True evs fin"
    using signal_wait_loop_ok [OF assms order.refl, of null_time_spec] by (auto simp: sr_deadline_ok_def null_time_spec_def)
  then show ?thesis using that [of "Sr_Lock # evs" fin] False by (simp add: mcmchSignalRoutineHandler_def sr_run_ok_def)
next
  case True
  then show ?thesis using that [of "[]" True] by (simp add: mcmchSignalRoutineHandler_def sr_codes_ok_ends)
qed

text \<open>
  C22: A signal routine keeps its lock discipline and its protocol with the handler: whatever the waits return
  and whenever the flag is cleared, its run is defined, no held mutex is locked and none is used without being held,
  the mutex is free when the routine has returned, the handler is called with CONTINUE any number of times and
  then at most once with SHUTDOWN, preceded by ERROR when a wait failed, and every deadline that it waits for is
  a valid time: the null time, or half a second after a reading of the clock, with the carry done.
\<close>
theorem signal_routine_protocol:
  assumes "\<forall>w \<in> set wakes. normal_time (sw_clock w)"
  shows "\<exists>evs fin. mcmchSignalRoutineHandler running wakes = Some (evs, fin)
    \<and> sr_discipline False evs = Some (running \<noteq> 0 \<and> \<not> fin)
    \<and> (\<exists>k tl. sr_codes evs = replicate k SR_CONTINUE @ tl
         \<and> (tl = [] \<or> fin \<and> (tl = [SR_SHUTDOWN] \<or> tl = [SR_ERROR, SR_SHUTDOWN])))
    \<and> (\<forall>d \<in> set (sr_deadlines evs). sr_deadline_ok (sw_clock ` set wakes) d)"
  by (rule signal_routine_run [OF assms, of running]) (auto simp: sr_codes_ok_def sr_ending_def)

definition sample_wakes :: "sr_wake list" where
  "sample_wakes =
     [\<lparr>sw_status = ETIMEDOUT, sw_running = 1, sw_clock = \<lparr>ts_secs = 5, ts_nanos = 700000000\<rparr>, sw_again = 1\<rparr>,
      \<lparr>sw_status = 0, sw_running = 1, sw_clock = null_time_spec, sw_again = 1\<rparr>,
      \<lparr>sw_status = ETIMEDOUT, sw_running = 0, sw_clock = null_time_spec, sw_again = 0\<rparr>]"

theorem signal_routine_protocol_witness:
  "\<exists>evs. mcmchSignalRoutineHandler 1 sample_wakes = Some (evs, True) \<and> sr_discipline False evs = Some False
     \<and> sr_codes evs = [SR_CONTINUE, SR_SHUTDOWN]
     \<and> sr_deadlines evs = [null_time_spec, \<lparr>ts_secs = 6, ts_nanos = 200000000\<rparr>, \<lparr>ts_secs = 6, ts_nanos = 200000000\<rparr>]"
proof -
  have "\<forall>w \<in> set sample_wakes. normal_time (sw_clock w)"
    by (simp add: sample_wakes_def normal_time_def null_time_spec_def)
  from signal_routine_protocol [OF this, of 1] show ?thesis
    by (simp add: mcmchSignalRoutineHandler_def sample_wakes_def mcmchSignalLockTimedWait_def ETIMEDOUT_def
        half_second_after_def long_add_def SR_CONTINUE_def SR_SHUTDOWN_def)
qed

section \<open>Interruption\<close>

lemma signal_wait_loop_ends:
  assumes "\<forall>w \<in> set wakes. normal_time (sw_clock w)" "k < length wakes" "sw_running (wakes ! k) = 0"
  shows "\<exists>evs. signal_wait_loop spec wakes = Some (evs, True) \<and> length (sr_deadlines evs) \<le> Suc k"
  using assms
proof (induction spec wakes arbitrary: k rule: signal_wait_loop.induct)
  case (2 spec w wakes)
  let ?ret = "mcmchSignalLockTimedWait (sw_status w)"
  obtain d where d: "half_second_after (sw_clock w) = Some d"
    by (rule half_second_after_normal [of "sw_clock w"]) (use 2(3) in auto)
  have rest: "\<exists>j. k = Suc j \<and> j < length wakes \<and> sw_running (wakes ! j) = 0" if "sw_running w \<noteq> 0"
    using that 2(4,5) by (cases k) auto
  have wakes: "\<forall>w \<in> set wakes. normal_time (sw_clock w)" using 2(3) by simp
  consider (stop) "?ret \<noteq> MCMPST_SUCCESS" "sw_running w = 0 \<or> ?ret \<noteq> MCMPST_OVTIMEOUT"
    | (timeout) "?ret \<noteq> MCMPST_SUCCESS" "sw_running w \<noteq> 0" "?ret = MCMPST_OVTIMEOUT"
    | (quit) "?ret = MCMPST_SUCCESS" "sw_running w = 0 \<or> sw_again w = 0"
    | (again) "?ret = MCMPST_SUCCESS" "sw_running w \<noteq> 0" "sw_again w \<noteq> 0" by blast
  then show ?case
  proof cases
    case timeout
    obtain j where "k = Suc j" "j < length wakes" "sw_running (wakes ! j) = 0" using rest timeout(2) by blast
    then show ?thesis using 2(1) [OF refl timeout(1) _ d wakes, of j] timeout d by auto
  next
    case again
    obtain j where "k = Suc j" "j < length wakes" "sw_running (wakes ! j) = 0" using rest again(2) by blast
    then show ?thesis using 2(2) [OF refl _ _ _ wakes, of j] again by auto
  qed auto
qed simp

text \<open>
  An interruption ends a signal routine without a signal of its own: whatever the waits return, a routine whose flag reads as cleared
  after its wait number \<open>k\<close> (from 0) returns, having waited at most \<open>k + 1\<close> times.
\<close>
lemma signal_routine_ends:
  assumes "\<forall>w \<in> set wakes. normal_time (sw_clock w)" "k < length wakes" "sw_running (wakes ! k) = 0"
  shows "\<exists>evs. mcmchSignalRoutineHandler running wakes = Some (evs, True) \<and> length (sr_deadlines evs) \<le> Suc k"
proof (cases "running = 0")
  case False
  obtain evs where "signal_wait_loop null_time_spec wakes = Some (evs, True)" "length (sr_deadlines evs) \<le> Suc k"
    using signal_wait_loop_ends [OF assms, of null_time_spec] by blast
  then show ?thesis using False by (simp add: mcmchSignalRoutineHandler_def)
qed (simp add: mcmchSignalRoutineHandler_def)

lemma signal_routine_ends_witness:
  "\<exists>evs. mcmchSignalRoutineHandler 1 sample_wakes = Some (evs, True) \<and> length (sr_deadlines evs) \<le> 3"
  using signal_routine_ends [of sample_wakes 2 1]
  by (simp add: sample_wakes_def normal_time_def null_time_spec_def)

end
