(* ===== verification/Consumer.thy ===== *)
theory Consumer
  imports Routine Machine
begin

text \<open>
  The consumers of \<^verbatim>\<open>routines/src/common/consumer.c\<close>: threads that take tasks with a \<open>key\<close> function of the
  client and hand them to its \<open>handler\<close>. The file has two loops, one that waits on a signal lock with a
  deadline (\<open>consumer_step\<close>) and one that waits for a signal of its pool (\<open>pool_consumer_step\<close>), which is the one that creation
  installs. What \<open>key\<close> and a wait return and what the clock reads are the inputs of a step; a task is a
  number, and the model records the tasks that were taken and those that were handed over.
\<close>

section \<open>Creation\<close>

record consumer_routine =
  co_routine :: routine
  co_lock :: nat
  co_key :: nat
  co_handler :: nat
  co_running :: int
  co_ctx :: nat

definition mcmchConsumerRoutineCreate :: "nat \<Rightarrow> nat \<Rightarrow> nat \<Rightarrow> nat \<Rightarrow> nat \<Rightarrow> nat \<Rightarrow> consumer_routine \<times> mcmpst" where
  "mcmchConsumerRoutineCreate entry self lock key handler ctx =
     (case mcmchRoutineMake entry self of (r, st) \<Rightarrow>
        (\<lparr>co_routine = r, co_lock = lock, co_key = key, co_handler = handler, co_running = 1, co_ctx = ctx\<rparr>, st))"

section \<open>The loop on a signal lock\<close>

text \<open>
  What \<open>ret\<close> holds at the tests after the waiting loop: \<open>MCMCHCONSUMER_TAKED\<close> (1), with the task, or a status.
\<close>

datatype consumer_ret = Taked nat | Ret mcmpst

datatype consumer_pc =
    Co_Test | Co_Block | Co_Key | Co_Wait | Co_Failed mcmpst | Co_Check consumer_ret | Co_Retry | Co_Handle nat | Co_Done

record consumer_state =
  cs_pc :: consumer_pc
  cs_running :: bool
  cs_deadline :: timespec
  cs_locked :: bool
  cs_taken :: "nat list"
  cs_handled :: "nat list"

text \<open>An answer of the environment: of \<open>key\<close>, of a wait, of the clock, none needed, or the flag is cleared by another thread.\<close>

datatype consumer_input = Key "nat option" | Waited int | Clock timespec | Go | Stop

fun consumer_at :: "consumer_pc \<Rightarrow> consumer_input \<Rightarrow> consumer_state \<Rightarrow> consumer_state option" where
  "consumer_at Co_Test Go s =
     Some (s\<lparr>cs_pc := if cs_running s then Co_Block else Co_Done\<rparr>)"
| "consumer_at Co_Block Go s = Some (s\<lparr>cs_pc := Co_Key, cs_locked := True\<rparr>)"
| "consumer_at Co_Key (Key k) s =
     Some (case k of Some v \<Rightarrow> s\<lparr>cs_pc := Co_Check (Taked v), cs_taken := cs_taken s @ [v]\<rparr>
       | None \<Rightarrow> s\<lparr>cs_pc := Co_Wait\<rparr>)"
| "consumer_at Co_Wait (Waited status) s =
     (let ret = mcmchSignalLockTimedWait status
      in Some (s\<lparr>cs_pc := if ret \<noteq> MCMPST_SUCCESS then Co_Failed ret else Co_Check (Ret ret)\<rparr>))"
| "consumer_at (Co_Failed ret) (Clock now) s =
     (if \<not> cs_running s \<or> ret \<noteq> MCMPST_OVTIMEOUT then Some (s\<lparr>cs_pc := Co_Check (Ret ret)\<rparr>)
      else do { next \<leftarrow> half_second_after now; Some (s\<lparr>cs_pc := Co_Key, cs_deadline := next\<rparr>) })"
| "consumer_at (Co_Check ret) Go s =
     Some (if \<not> cs_running s then s\<lparr>cs_pc := Co_Done, cs_locked := False\<rparr>
       else case ret of
         Taked v \<Rightarrow> s\<lparr>cs_pc := Co_Handle v, cs_locked := False\<rparr>
       | Ret st \<Rightarrow> if st = MCMPST_SUCCESS then s\<lparr>cs_pc := Co_Retry\<rparr> else s\<lparr>cs_pc := Co_Test, cs_locked := False\<rparr>)"
| "consumer_at Co_Retry (Key k) s =
     Some (case k of Some v \<Rightarrow> s\<lparr>cs_pc := Co_Handle v, cs_locked := False, cs_taken := cs_taken s @ [v]\<rparr>
       | None \<Rightarrow> s\<lparr>cs_pc := Co_Test, cs_locked := False\<rparr>)"
| "consumer_at (Co_Handle v) Go s = Some (s\<lparr>cs_pc := Co_Test, cs_handled := cs_handled s @ [v]\<rparr>)"
| "consumer_at _ _ s = None"

definition consumer_step :: "consumer_input \<Rightarrow> consumer_state \<Rightarrow> consumer_state option" where
  "consumer_step i s = (if i = Stop then Some (s\<lparr>cs_running := False\<rparr>) else consumer_at (cs_pc s) i s)"

definition consumer_start :: "consumer_routine \<Rightarrow> consumer_state" where
  "consumer_start co = \<lparr>cs_pc = Co_Test, cs_running = (co_running co \<noteq> 0), cs_deadline = null_time_spec,
     cs_locked = False, cs_taken = [], cs_handled = []\<rparr>"

section \<open>The loop on the signals of a pool\<close>

text \<open>
  The task is handed over after the wait that follows its taking; the flag is only read between tasks.
  The wait's status is ignored. \<open>ps_signals\<close> counts the waits that returned.
\<close>

datatype pool_pc = Po_Test | Po_Key | Po_Wait "nat option" | Po_Handle nat | Po_Done

record pool_consumer_state =
  ps_pc :: pool_pc
  ps_running :: bool
  ps_taken :: "nat list"
  ps_handled :: "nat list"
  ps_signals :: nat

fun pool_consumer_at :: "pool_pc \<Rightarrow> consumer_input \<Rightarrow> pool_consumer_state \<Rightarrow> pool_consumer_state option" where
  "pool_consumer_at Po_Test Go s = Some (s\<lparr>ps_pc := if ps_running s then Po_Key else Po_Done\<rparr>)"
| "pool_consumer_at Po_Key (Key k) s =
     Some (s\<lparr>ps_pc := Po_Wait k, ps_taken := ps_taken s @ (case k of Some v \<Rightarrow> [v] | None \<Rightarrow> [])\<rparr>)"
| "pool_consumer_at (Po_Wait k) (Waited _) s =
     Some (s\<lparr>ps_pc := (case k of Some v \<Rightarrow> Po_Handle v | None \<Rightarrow> Po_Key), ps_signals := ps_signals s + 1\<rparr>)"
| "pool_consumer_at (Po_Handle v) Go s = Some (s\<lparr>ps_pc := Po_Test, ps_handled := ps_handled s @ [v]\<rparr>)"
| "pool_consumer_at _ _ s = None"

definition pool_consumer_step :: "consumer_input \<Rightarrow> pool_consumer_state \<Rightarrow> pool_consumer_state option" where
  "pool_consumer_step i s = (if i = Stop then Some (s\<lparr>ps_running := False\<rparr>) else pool_consumer_at (ps_pc s) i s)"

definition pool_consumer_start :: "consumer_routine \<Rightarrow> pool_consumer_state" where
  "pool_consumer_start co = \<lparr>ps_pc = Po_Test, ps_running = (co_running co \<noteq> 0), ps_taken = [], ps_handled = [], ps_signals = 0\<rparr>"

section \<open>What a consumer keeps\<close>

fun co_hand :: "consumer_pc \<Rightarrow> nat list" where
  "co_hand (Co_Check (Taked v)) = [v]"
| "co_hand (Co_Handle v) = [v]"
| "co_hand _ = []"

fun co_inside :: "consumer_pc \<Rightarrow> bool" where
  "co_inside Co_Test = False"
| "co_inside Co_Block = False"
| "co_inside (Co_Handle _) = False"
| "co_inside Co_Done = False"
| "co_inside _ = True"

definition consumer_inv :: "consumer_state \<Rightarrow> bool" where
  "consumer_inv s \<longleftrightarrow> cs_locked s = co_inside (cs_pc s)
     \<and> (if cs_pc s = Co_Done
        then \<not> cs_running s \<and> (cs_taken s = cs_handled s \<or> (\<exists>v. cs_taken s = cs_handled s @ [v]))
        else cs_taken s = cs_handled s @ co_hand (cs_pc s))"

lemma co_hand_check: "co_hand (Co_Check ret) = [] \<or> (\<exists>v. co_hand (Co_Check ret) = [v])"
  by (cases ret) auto

lemma consumer_at_inv:
  "consumer_inv s \<Longrightarrow> cs_pc s = p \<Longrightarrow> consumer_at p i s = Some s' \<Longrightarrow> consumer_inv s'"
  by (induction p i s rule: consumer_at.induct)
    (auto simp: consumer_inv_def Let_def split: if_splits option.splits consumer_ret.splits Option.bind_splits,
     metis co_hand_check)

lemma consumer_stop_inv: "consumer_inv s \<Longrightarrow> consumer_inv (s\<lparr>cs_running := False\<rparr>)"
  by (simp add: consumer_inv_def split: if_splits)

lemma consumer_step_inv: "consumer_inv s \<Longrightarrow> consumer_step i s = Some s' \<Longrightarrow> consumer_inv s'"
  using consumer_at_inv [OF _ refl] consumer_stop_inv unfolding consumer_step_def by (metis option.inject)

definition pool_hand :: "pool_pc \<Rightarrow> nat list" where
  "pool_hand p = (case p of Po_Wait (Some v) \<Rightarrow> [v] | Po_Handle v \<Rightarrow> [v] | _ \<Rightarrow> [])"

definition pool_consumer_inv :: "pool_consumer_state \<Rightarrow> bool" where
  "pool_consumer_inv s \<longleftrightarrow> ps_taken s = ps_handled s @ pool_hand (ps_pc s)
     \<and> length (ps_handled s) + (case ps_pc s of Po_Handle _ \<Rightarrow> 1 | _ \<Rightarrow> 0) \<le> ps_signals s"

lemma pool_consumer_at_inv:
  "pool_consumer_inv s \<Longrightarrow> ps_pc s = p \<Longrightarrow> pool_consumer_at p i s = Some s' \<Longrightarrow> pool_consumer_inv s'"
  by (induction p i s rule: pool_consumer_at.induct)
    (auto simp: pool_consumer_inv_def pool_hand_def split: option.splits)

lemma pool_consumer_step_inv: "pool_consumer_inv s \<Longrightarrow> pool_consumer_step i s = Some s' \<Longrightarrow> pool_consumer_inv s'"
  using pool_consumer_at_inv [OF _ refl, of s] by (cases "i = Stop") (auto simp: pool_consumer_step_def pool_consumer_inv_def)

lemma pool_consumer_at_going:
  "ps_running s \<Longrightarrow> p \<noteq> Po_Done \<Longrightarrow> pool_consumer_at p i s = Some s' \<Longrightarrow> ps_running s' \<and> ps_pc s' \<noteq> Po_Done"
  by (induction p i s rule: pool_consumer_at.induct) (auto split: option.splits)

lemma pool_consumer_going:
  "runs pool_consumer_step is s = Some s' \<Longrightarrow> Stop \<notin> set is \<Longrightarrow> ps_running s \<Longrightarrow> ps_pc s \<noteq> Po_Done \<Longrightarrow> ps_pc s' \<noteq> Po_Done"
proof (induction "is" arbitrary: s)
  case (Cons i "is")
  then obtain t where "pool_consumer_step i s = Some t" and t2: "runs pool_consumer_step is t = Some s'"
    by (auto split: Option.bind_splits)
  then have t: "pool_consumer_at (ps_pc s) i s = Some t" "runs pool_consumer_step is t = Some s'"
    using Cons.prems(2) by (auto simp: pool_consumer_step_def split: if_splits)
  show ?case using pool_consumer_at_going [OF Cons.prems(3,4) t(1)] Cons.IH [OF t(2)] Cons.prems(2) by simp
qed simp

interpretation co: machine consumer_step consumer_inv
  by unfold_locales (rule consumer_step_inv)

interpretation pc: machine pool_consumer_step pool_consumer_inv
  by unfold_locales (rule pool_consumer_step_inv)

lemma consumer_start_inv: "consumer_inv (consumer_start co)"
  by (simp add: consumer_start_def consumer_inv_def)

lemma pool_consumer_start_inv: "pool_consumer_inv (pool_consumer_start co)"
  by (simp add: pool_consumer_start_def pool_consumer_inv_def pool_hand_def)

section \<open>Properties\<close>

text \<open>
  A consumer on a signal lock hands over what it takes, once and in the order taken: after any run of the consumer as
  created, what was handed over is what was taken, less the task in hand; it holds its lock exactly
  inside the locked region; and when it has ended, all but perhaps the last task taken were handed over.
\<close>
lemma consumer_keeps_order:
  assumes "mcmchConsumerRoutineCreate entry self lock key handler ctx = (co, st)"
    and "runs consumer_step is (consumer_start co) = Some s"
  shows "cs_locked s = co_inside (cs_pc s)
    \<and> (if cs_pc s = Co_Done
       then \<not> cs_running s \<and> (cs_taken s = cs_handled s \<or> (\<exists>v. cs_taken s = cs_handled s @ [v]))
       else cs_taken s = cs_handled s @ co_hand (cs_pc s))"
  using co.runs_inv [OF consumer_start_inv assms(2)] by (simp add: consumer_inv_def)

text \<open>
  A task can be lost: a consumer that has taken a task when another thread clears its flag ends without
  handing it over.
\<close>
lemma consumer_drops_task:
  "\<exists>s. runs consumer_step [Go, Go, Key (Some 7), Stop, Go] (consumer_start (fst (mcmchConsumerRoutineCreate e self l k h c))) = Some s
     \<and> cs_pc s = Co_Done \<and> cs_taken s = [7] \<and> cs_handled s = []"
  by (simp add: consumer_step_def consumer_start_def mcmchConsumerRoutineCreate_def mcmchRoutineMake_def)

text \<open>
  C40: The consumer of a pool loses no task: after any run of the consumer as created, what was taken is what was
  handed over and the task in hand, in order, and it ends with none in hand; but it needs a signal for each
  task, whether or not there are more, and it never ends by itself: destroying the pool, which only sends signals and
  waits for the thread, does not end it.
\<close>
theorem pool_consumer_keeps_all:
  assumes "mcmchConsumerRoutineCreate entry self lock key handler ctx = (co, st)"
    and "runs pool_consumer_step is (pool_consumer_start co) = Some s"
  shows "ps_taken s = ps_handled s @ pool_hand (ps_pc s) \<and> (ps_pc s = Po_Done \<longrightarrow> ps_taken s = ps_handled s)
    \<and> length (ps_handled s) \<le> ps_signals s \<and> (Stop \<notin> set is \<longrightarrow> ps_pc s \<noteq> Po_Done)"
proof -
  have "ps_running (pool_consumer_start co)" "ps_pc (pool_consumer_start co) \<noteq> Po_Done"
    using assms(1) by (auto simp: mcmchConsumerRoutineCreate_def pool_consumer_start_def split: prod.splits)
  then show ?thesis
    using pc.runs_inv [OF pool_consumer_start_inv assms(2)] pool_consumer_going [OF assms(2)]
    by (auto simp: pool_consumer_inv_def pool_hand_def)
qed

definition sample_consumer :: consumer_routine where
  "sample_consumer = fst (mcmchConsumerRoutineCreate 1 2 3 4 5 6)"

lemma consumer_keeps_order_witness:
  "\<exists>s. runs consumer_step
       [Go, Go, Key None, Waited ETIMEDOUT, Clock \<lparr>ts_secs = 1, ts_nanos = 0\<rparr>, Key None, Waited 0, Go, Key (Some 7), Go]
       (consumer_start sample_consumer) = Some s \<and> cs_handled s = [7] \<and> cs_taken s = [7] \<and> \<not> cs_locked s"
  using consumer_keeps_order [of 1 2 3 4 5 6 sample_consumer MCMPST_SUCCESS
      "[Go, Go, Key None, Waited ETIMEDOUT, Clock \<lparr>ts_secs = 1, ts_nanos = 0\<rparr>, Key None, Waited 0, Go, Key (Some 7), Go]"]
  by (simp add: sample_consumer_def mcmchConsumerRoutineCreate_def mcmchRoutineMake_def consumer_start_def consumer_step_def
      mcmchSignalLockTimedWait_def ETIMEDOUT_def half_second_after_def long_add_def)

theorem pool_consumer_keeps_all_witness:
  "\<exists>s. runs pool_consumer_step [Go, Key None, Waited 0, Key (Some 7), Waited 0, Go, Stop, Go]
       (pool_consumer_start sample_consumer) = Some s \<and> ps_taken s = [7] \<and> ps_handled s = [7] \<and> length [7::nat] \<le> ps_signals s"
  using pool_consumer_keeps_all [of 1 2 3 4 5 6 sample_consumer MCMPST_SUCCESS
      "[Go, Key None, Waited 0, Key (Some 7), Waited 0, Go, Stop, Go]"]
  by (simp add: sample_consumer_def mcmchConsumerRoutineCreate_def mcmchRoutineMake_def pool_consumer_start_def
      pool_consumer_step_def)

end
