(* ===== verification/Signal_Lock.thy ===== *)
theory Signal_Lock
  imports Routine
begin

text \<open>
  Signal locks as objects that threads share: the mutex and the condition variable of \<^verbatim>\<open>McmchSignalLock_unix_t\<close>
  (\<^verbatim>\<open>routines/include/monarch/routines/routine.h\<close>) with the operations of
  \<^verbatim>\<open>routines/src/linux/routine.c\<close>. Of the pthread calls the model has what POSIX documents: a default mutex has one owner,
  a wait gives the mutex up and sleeps in one step, a signal wakes a sleeping thread if there is one, a woken thread owns
  the mutex again when its wait returns. Threads are numbers.
\<close>

text \<open>The threads asleep in a wait, and those woken with a status that have not got the mutex back.\<close>

record siglock =
  sl_owner :: "nat option"
  sl_asleep :: "nat list"
  sl_woken :: "(nat \<times> int) list"

definition mcmchSignalLockInitilize :: "siglock \<times> mcmpst" where
  "mcmchSignalLockInitilize = (\<lparr>sl_owner = None, sl_asleep = [], sl_woken = []\<rparr>, MCMPST_SUCCESS)"

text \<open>\<open>None\<close>: the calling thread \<open>t\<close> cannot go on, for ever when it owns the mutex itself.\<close>

definition mcmchSignalLockBlock :: "nat \<Rightarrow> siglock \<Rightarrow> (siglock \<times> mcmpst) option" where
  "mcmchSignalLockBlock t l =
     (if sl_owner l = None then Some (l\<lparr>sl_owner := Some t\<rparr>, MCMPST_SUCCESS) else None)"

text \<open>Unlocking a default mutex that another thread owns, or none, is undefined.\<close>

definition mcmchSignalLockRelease :: "nat \<Rightarrow> siglock \<Rightarrow> (siglock \<times> mcmpst) ub" where
  "mcmchSignalLockRelease t l =
     (if sl_owner l = Some t then Some (l\<lparr>sl_owner := None\<rparr>, MCMPST_SUCCESS) else None)"

text \<open>Destroying a mutex that is locked or a condition variable that is waited on is undefined.\<close>

definition mcmchSignalLockDestroy :: "siglock \<Rightarrow> mcmpst ub" where
  "mcmchSignalLockDestroy l =
     (if sl_owner l = None \<and> sl_asleep l = [] \<and> sl_woken l = [] then Some MCMPST_SUCCESS else None)"

section \<open>Waiting and signalling\<close>

text \<open>The two halves of a wait, and what wakes a thread: a signal, its deadline, or nothing at all.\<close>

definition cond_sleep :: "nat \<Rightarrow> siglock \<Rightarrow> siglock ub" where
  "cond_sleep t l = (if sl_owner l = Some t then Some (l\<lparr>sl_owner := None, sl_asleep := sl_asleep l @ [t]\<rparr>) else None)"

definition cond_return :: "nat \<Rightarrow> siglock \<Rightarrow> (siglock \<times> int) option" where
  "cond_return t l = do {
     status \<leftarrow> map_of (sl_woken l) t;
     (if sl_owner l = None
      then Some (l\<lparr>sl_owner := Some t, sl_woken := filter (\<lambda>w. fst w \<noteq> t) (sl_woken l)\<rparr>, status) else None) }"

definition cond_wake :: "nat \<Rightarrow> int \<Rightarrow> siglock \<Rightarrow> siglock option" where
  "cond_wake t status l =
     (if t \<in> set (sl_asleep l)
      then Some (l\<lparr>sl_asleep := removeAll t (sl_asleep l), sl_woken := sl_woken l @ [(t, status)]\<rparr>) else None)"

text \<open>Which sleeping thread a signal wakes is up to the system: \<open>pick\<close>. A signal that finds none asleep does nothing.\<close>

definition mcmchSignalDispatch :: "nat \<Rightarrow> siglock \<Rightarrow> siglock" where
  "mcmchSignalDispatch pick l =
     (case cond_wake (sl_asleep l ! (pick mod length (sl_asleep l))) 0 l of
        Some l' \<Rightarrow> if sl_asleep l = [] then l else l' | None \<Rightarrow> l)"

definition mcmchSignalAllDispatch :: "siglock \<Rightarrow> siglock" where
  "mcmchSignalAllDispatch l = l\<lparr>sl_asleep := [], sl_woken := sl_woken l @ map (\<lambda>t. (t, 0)) (sl_asleep l)\<rparr>"

section \<open>What the operations keep\<close>

definition sl_up :: "siglock \<Rightarrow> nat list" where
  "sl_up l = map fst (sl_woken l)"

definition sl_dormant :: "siglock \<Rightarrow> nat set" where
  "sl_dormant l = set (sl_asleep l) \<union> set (sl_up l)"

text \<open>A thread is in one place: it owns the mutex, sleeps, has been woken, or has nothing to do with the lock.\<close>

definition sl_wf :: "siglock \<Rightarrow> bool" where
  "sl_wf l \<longleftrightarrow> distinct (sl_asleep l @ sl_up l) \<and> (\<forall>t. sl_owner l = Some t \<longrightarrow> t \<notin> sl_dormant l)"

lemma sl_up_simps [simp]:
  "sl_up (l\<lparr>sl_owner := t\<rparr>) = sl_up l" "sl_up (l\<lparr>sl_asleep := ts\<rparr>) = sl_up l"
  "sl_up (l\<lparr>sl_asleep := ts, sl_woken := sl_woken l @ ws\<rparr>) = sl_up l @ map fst ws"
  "sl_up (l\<lparr>sl_owner := t, sl_asleep := ts\<rparr>) = sl_up l"
  "sl_up (l\<lparr>sl_owner := t, sl_woken := filter (\<lambda>w. fst w \<noteq> t1) (sl_woken l)\<rparr>) = filter (\<lambda>t. t \<noteq> t1) (sl_up l)"
  by (simp_all add: sl_up_def filter_map comp_def)

lemma sl_woken_up: "map_of (sl_woken l) t = Some st \<Longrightarrow> t \<in> set (sl_up l)"
  by (auto simp: sl_up_def dest!: map_of_SomeD intro: image_eqI [where x = "(t, st)"])

lemma sl_up_woken: "t \<in> set (sl_up l) \<Longrightarrow> \<exists>st. map_of (sl_woken l) t = Some st"
  by (auto simp: sl_up_def weak_map_of_SomeI)

lemma sl_initial [simp]:
  "sl_wf (fst mcmchSignalLockInitilize)" "sl_dormant (fst mcmchSignalLockInitilize) = {}"
  "sl_owner (fst mcmchSignalLockInitilize) = None"
  by (simp_all add: mcmchSignalLockInitilize_def sl_wf_def sl_dormant_def sl_up_def)

lemma sl_block:
  assumes "mcmchSignalLockBlock t l = Some (l', st)"
  shows "sl_owner l = None" "sl_owner l' = Some t" "sl_dormant l' = sl_dormant l" "sl_wf l \<Longrightarrow> t \<notin> sl_dormant l \<Longrightarrow> sl_wf l'"
  using assms by (simp_all add: mcmchSignalLockBlock_def sl_dormant_def sl_wf_def split: if_splits) auto

lemma sl_release:
  assumes "mcmchSignalLockRelease t l = Some (l', st)"
  shows "sl_owner l' = None" "sl_dormant l' = sl_dormant l" "sl_wf l \<Longrightarrow> sl_wf l'"
  using assms by (simp_all add: mcmchSignalLockRelease_def sl_dormant_def sl_wf_def split: if_splits) auto

lemma sl_sleep:
  assumes "cond_sleep t l = Some l'"
  shows "sl_owner l = Some t" "sl_owner l' = None" "sl_dormant l' = insert t (sl_dormant l)" "sl_wf l \<Longrightarrow> sl_wf l'"
  using assms by (simp_all add: cond_sleep_def sl_dormant_def sl_wf_def split: if_splits) auto

lemma sl_return:
  assumes "cond_return t l = Some (l', st)" "sl_wf l"
  shows "sl_owner l = None" "sl_owner l' = Some t" "sl_dormant l' = sl_dormant l - {t}" "sl_wf l'"
proof -
  have "t \<in> set (sl_up l)" using assms(1) sl_woken_up by (auto simp: cond_return_def split: Option.bind_splits)
  then show "sl_owner l = None" "sl_owner l' = Some t" "sl_dormant l' = sl_dormant l - {t}" "sl_wf l'"
    using assms by (auto simp: cond_return_def sl_dormant_def sl_wf_def split: Option.bind_splits if_splits)
qed

lemma sl_wake:
  assumes "cond_wake t st l = Some l'"
  shows "sl_owner l' = sl_owner l" "sl_dormant l' = sl_dormant l" "sl_wf l \<Longrightarrow> sl_wf l'"
  using assms by (auto simp: cond_wake_def sl_dormant_def sl_wf_def distinct_removeAll split: if_splits)

lemma sl_dispatch [simp]:
  "sl_owner (mcmchSignalDispatch pick l) = sl_owner l" "sl_dormant (mcmchSignalDispatch pick l) = sl_dormant l"
  "sl_wf l \<Longrightarrow> sl_wf (mcmchSignalDispatch pick l)"
  using sl_wake by (auto simp: mcmchSignalDispatch_def split: option.splits)

lemma sl_dispatch_all [simp]:
  "sl_owner (mcmchSignalAllDispatch l) = sl_owner l" "sl_dormant (mcmchSignalAllDispatch l) = sl_dormant l"
  "sl_wf l \<Longrightarrow> sl_wf (mcmchSignalAllDispatch l)"
  by (auto simp: mcmchSignalAllDispatch_def sl_dormant_def sl_wf_def comp_def image_image)

end
