(* ===== verification/Consumer_Group.thy ===== *)
theory Consumer_Group
  imports Consumer Signal_Lock Set_Queue "HOL-Library.Multiset" "HOL-Library.Sublist"
begin

text \<open>
  Consumers that share a signal lock and a queue of tasks: the loop \<open>consumer_step\<close> of \<open>Consumer\<close> run by \<open>n\<close> threads
  on the lock of \<open>Signal_Lock\<close>, interleaved with threads that push tasks, signal the lock without owning it and clear the
  flags of consumers. A push and a take of the queue are one step each; the queue is any that keeps the contract
  \<open>bounded_fifo\<close>, and \<open>key\<close> takes from it and ignores the status.
\<close>

record 'q group =
  cg_lock :: siglock
  cg_cons :: "nat \<Rightarrow> consumer_state"
  cg_queue :: 'q
  cg_pushed :: "nat list"
  cg_taken :: "nat list"

text \<open>
  A turn of consumer \<open>i\<close>, with what the clock would read; a wait of thread \<open>i\<close> ends with a status (its deadline, or
  nothing at all); the flag of consumer \<open>i\<close> is cleared; a task is pushed; the lock is signalled, waking one thread or all.
\<close>

datatype cg_input = Turn nat timespec | Wake nat int | Halt nat | Put nat | Notify nat | Notify_All

section \<open>A turn\<close>

text \<open>The answer goes to the consumer, which unlocks the mutex when it leaves its locked region.\<close>

definition cg_resume :: "nat \<Rightarrow> consumer_input \<Rightarrow> 'q group \<Rightarrow> 'q group option" where
  "cg_resume i answer s = do {
     c \<leftarrow> consumer_step answer (cg_cons s i);
     l \<leftarrow> (if cs_locked (cg_cons s i) \<and> \<not> cs_locked c then map_option fst (mcmchSignalLockRelease i (cg_lock s))
          else Some (cg_lock s));
     Some (s\<lparr>cg_cons := (cg_cons s)(i := c), cg_lock := l\<rparr>) }"

definition cg_key :: "('q \<Rightarrow> ('q \<times> mcmpst \<times> nat option) ub) \<Rightarrow> nat \<Rightarrow> 'q group \<Rightarrow> 'q group option" where
  "cg_key fetch i s = do {
     (q, _, got) \<leftarrow> fetch (cg_queue s);
     cg_resume i (Key got) (s\<lparr>cg_queue := q, cg_taken := cg_taken s @ (case got of Some v \<Rightarrow> [v] | None \<Rightarrow> [])\<rparr>) }"

text \<open>A consumer at its wait owns the mutex before it sleeps; once woken, it goes on when it owns the mutex again.\<close>

fun cg_turn_at :: "consumer_pc \<Rightarrow> ('q \<Rightarrow> ('q \<times> mcmpst \<times> nat option) ub) \<Rightarrow> nat \<Rightarrow> timespec \<Rightarrow> 'q group \<Rightarrow> 'q group option" where
  "cg_turn_at Co_Block fetch i now s = do {
     (l, _) \<leftarrow> mcmchSignalLockBlock i (cg_lock s);
     cg_resume i Go (s\<lparr>cg_lock := l\<rparr>) }"
| "cg_turn_at Co_Wait fetch i now s =
     (if sl_owner (cg_lock s) = Some i then map_option (\<lambda>l. s\<lparr>cg_lock := l\<rparr>) (cond_sleep i (cg_lock s))
      else do {
        (l, status) \<leftarrow> cond_return i (cg_lock s);
        cg_resume i (Waited status) (s\<lparr>cg_lock := l\<rparr>) })"
| "cg_turn_at Co_Key fetch i now s = cg_key fetch i s"
| "cg_turn_at Co_Retry fetch i now s = cg_key fetch i s"
| "cg_turn_at (Co_Failed _) fetch i now s = cg_resume i (Clock now) s"
| "cg_turn_at _ fetch i now s = cg_resume i Go s"

fun cg_step ::
  "('q \<Rightarrow> nat \<Rightarrow> ('q \<times> mcmpst) ub) \<Rightarrow> ('q \<Rightarrow> ('q \<times> mcmpst \<times> nat option) ub) \<Rightarrow> nat \<Rightarrow> cg_input \<Rightarrow> 'q group \<Rightarrow> 'q group option" where
  "cg_step push fetch n (Turn i now) s = (if i < n then cg_turn_at (cs_pc (cg_cons s i)) fetch i now s else None)"
| "cg_step push fetch n (Wake i status) s = map_option (\<lambda>l. s\<lparr>cg_lock := l\<rparr>) (cond_wake i status (cg_lock s))"
| "cg_step push fetch n (Halt i) s = (if i < n then cg_resume i Stop s else None)"
| "cg_step push fetch n (Put v) s = do {
     (q, st) \<leftarrow> push (cg_queue s) v;
     Some (s\<lparr>cg_queue := q, cg_pushed := if st = MCMPST_SUCCESS then cg_pushed s @ [v] else cg_pushed s\<rparr>) }"
| "cg_step push fetch n (Notify pick) s = Some (s\<lparr>cg_lock := mcmchSignalDispatch pick (cg_lock s)\<rparr>)"
| "cg_step push fetch n Notify_All s = Some (s\<lparr>cg_lock := mcmchSignalAllDispatch (cg_lock s)\<rparr>)"

definition cg_start :: "consumer_routine \<Rightarrow> 'q \<Rightarrow> 'q group" where
  "cg_start co q = \<lparr>cg_lock = fst mcmchSignalLockInitilize, cg_cons = (\<lambda>_. consumer_start co), cg_queue = q,
     cg_pushed = [], cg_taken = []\<rparr>"

section \<open>The lock\<close>

text \<open>
  The lock and the program counter of thread \<open>i\<close> agree: a thread that sleeps or was woken is a consumer at its wait, and
  the owner is the consumer in the locked region that does not sleep.
\<close>

definition cg_at :: "nat \<Rightarrow> siglock \<Rightarrow> consumer_state \<Rightarrow> nat \<Rightarrow> bool" where
  "cg_at n l c i \<longleftrightarrow> (i \<in> sl_dormant l \<longrightarrow> i < n \<and> cs_pc c = Co_Wait) \<and> (i < n \<longrightarrow> consumer_inv c)
     \<and> (sl_owner l = Some i \<longleftrightarrow> i < n \<and> cs_locked c \<and> i \<notin> sl_dormant l)"

definition cg_locks :: "nat \<Rightarrow> 'q group \<Rightarrow> bool" where
  "cg_locks n s \<longleftrightarrow> sl_wf (cg_lock s) \<and> (\<forall>i. cg_at n (cg_lock s) (cg_cons s i) i)"

lemma cg_at_cong:
  "sl_owner l' = Some i \<longleftrightarrow> sl_owner l = Some i \<Longrightarrow> i \<in> sl_dormant l' \<longleftrightarrow> i \<in> sl_dormant l \<Longrightarrow> cg_at n l' c i = cg_at n l c i"
  by (simp add: cg_at_def)

lemma cg_locks_inv: "cg_locks n s \<Longrightarrow> i < n \<Longrightarrow> consumer_inv (cg_cons s i)"
  by (simp add: cg_locks_def cg_at_def)

lemma cg_owner:
  "cg_locks n s \<Longrightarrow> sl_owner (cg_lock s) = Some i \<longleftrightarrow> i < n \<and> cs_locked (cg_cons s i) \<and> i \<notin> sl_dormant (cg_lock s)"
  by (simp add: cg_locks_def cg_at_def)

lemma consumer_step_locked:
  assumes "consumer_inv c" "consumer_step inp c = Some c'" "inp \<noteq> Stop" "\<not> cs_locked c" "cs_locked c'"
  shows "cs_pc c = Co_Block"
  using assms by (cases "cs_pc c"; cases inp) (auto simp: consumer_step_def consumer_inv_def)

text \<open>A resumption, from a lock that the consumer owns already if it enters the locked region.\<close>

lemma cg_resume_locks:
  assumes "cg_resume i answer s = Some s'" "i < n" "answer \<noteq> Stop" "sl_wf (cg_lock s)" "i \<notin> sl_dormant (cg_lock s)"
    and i: "consumer_inv (cg_cons s i)"
    and others: "\<And>j. j \<noteq> i \<Longrightarrow> cg_at n (cg_lock s) (cg_cons s j) j"
    and owner: "sl_owner (cg_lock s) = Some i \<longleftrightarrow> cs_locked (cg_cons s i) \<or> cs_pc (cg_cons s i) = Co_Block"
  shows "cg_locks n s'"
proof -
  obtain c l where c: "consumer_step answer (cg_cons s i) = Some c"
    and l: "(if cs_locked (cg_cons s i) \<and> \<not> cs_locked c then map_option fst (mcmchSignalLockRelease i (cg_lock s)) else Some (cg_lock s)) = Some l"
    and s': "s' = s\<lparr>cg_cons := (cg_cons s)(i := c), cg_lock := l\<rparr>"
    using assms(1) by (auto simp: cg_resume_def split: Option.bind_splits)
  have inv: "consumer_inv c" using consumer_step_inv [OF i c] .
  have locked: "cs_pc (cg_cons s i) = Co_Block \<Longrightarrow> cs_locked c"
    using c assms(3) by (cases answer) (auto simp: consumer_step_def)
  have "sl_wf l \<and> sl_dormant l = sl_dormant (cg_lock s) \<and> (\<forall>j. j \<noteq> i \<longrightarrow> (sl_owner l = Some j \<longleftrightarrow> sl_owner (cg_lock s) = Some j))
      \<and> (sl_owner l = Some i \<longleftrightarrow> cs_locked c)"
  proof (cases "cs_locked (cg_cons s i) \<and> \<not> cs_locked c")
    case True
    then obtain st where rel: "mcmchSignalLockRelease i (cg_lock s) = Some (l, st)" using l by auto
    have "sl_owner (cg_lock s) = Some i" using True owner by simp
    then show ?thesis using sl_release [OF rel] assms(4) True by simp
  next
    case False
    then have "cs_locked c \<longleftrightarrow> sl_owner (cg_lock s) = Some i"
      using consumer_step_locked [OF i c assms(3)] owner locked by blast
    then show ?thesis using False l assms(4) by auto
  qed
  then have l': "sl_wf l" "sl_dormant l = sl_dormant (cg_lock s)" "j \<noteq> i \<Longrightarrow> sl_owner l = Some j \<longleftrightarrow> sl_owner (cg_lock s) = Some j"
      "sl_owner l = Some i \<longleftrightarrow> cs_locked c" for j by simp_all
  have "cg_at n l (if j = i then c else cg_cons s j) j" for j
  proof (cases "j = i")
    case True
    then show ?thesis using assms(2,5) inv l'(2,4) by (simp add: cg_at_def)
  next
    case False
    then show ?thesis using others [OF False] l'(3) [OF False] l'(2) by (simp add: cg_at_def)
  qed
  then show ?thesis using l'(1) by (simp add: cg_locks_def s' fun_upd_def)
qed

lemma cg_turn_locks:
  assumes "cg_locks n s" "i < n" "cg_turn_at (cs_pc (cg_cons s i)) fetch i now s = Some s'"
  shows "cg_locks n s'"
proof -
  have i: "consumer_inv (cg_cons s i)" using cg_locks_inv [OF assms(1,2)] .
  have wf: "sl_wf (cg_lock s)" and at: "\<And>j. cg_at n (cg_lock s) (cg_cons s j) j" using assms(1) by (simp_all add: cg_locks_def)
  have locked: "cs_locked (cg_cons s i) \<longleftrightarrow> co_inside (cs_pc (cg_cons s i))" using i by (simp add: consumer_inv_def)
  have awake: "i \<notin> sl_dormant (cg_lock s)" if "cs_pc (cg_cons s i) \<noteq> Co_Wait" using at [of i] that by (auto simp: cg_at_def)
  have owner: "sl_owner (cg_lock s) = Some i \<longleftrightarrow> cs_locked (cg_cons s i) \<and> i \<notin> sl_dormant (cg_lock s)"
    using at [of i] assms(2) by (simp add: cg_at_def)
  have plain: "cg_locks n s'" if "cg_resume i answer t = Some s'" "answer \<noteq> Stop" "cs_pc (cg_cons s i) \<noteq> Co_Wait"
      "cs_pc (cg_cons s i) \<noteq> Co_Block" "cg_lock t = cg_lock s" "cg_cons t = cg_cons s" for answer t
    by (rule cg_resume_locks [OF that(1) assms(2) that(2)])
      (use that(3-6) wf at i awake owner in simp_all)
  show ?thesis
  proof (cases "cs_pc (cg_cons s i)")
    case Co_Block
    then obtain l st where l: "mcmchSignalLockBlock i (cg_lock s) = Some (l, st)" "cg_resume i Go (s\<lparr>cg_lock := l\<rparr>) = Some s'"
      using assms(3) by (auto split: Option.bind_splits)
    have asleep: "i \<notin> sl_dormant (cg_lock s)" using awake Co_Block by simp
    note block = sl_block(1-3) [OF l(1)] sl_block(4) [OF l(1) wf asleep]
    have "cg_at n l (cg_cons s j) j" if "j \<noteq> i" for j
      using at [of j] block(1-3) that by (simp add: cg_at_def)
    then show ?thesis
      by (intro cg_resume_locks [OF l(2) assms(2)]) (use block asleep Co_Block i in simp_all)
  next
    case Co_Wait
    show ?thesis
    proof (cases "sl_owner (cg_lock s) = Some i")
      case True
      then obtain l where l: "cond_sleep i (cg_lock s) = Some l" "s' = s\<lparr>cg_lock := l\<rparr>"
        using assms(3) Co_Wait by auto
      have "cg_at n l (cg_cons s j) j" for j
        using at [of j] at [of i] sl_sleep(1-3) [OF l(1)] Co_Wait assms(2) by (cases "j = i") (simp_all add: cg_at_def)
      then show ?thesis using sl_sleep(4) [OF l(1) wf] by (simp add: cg_locks_def l(2))
    next
      case False
      then obtain l st where l: "cond_return i (cg_lock s) = Some (l, st)" "cg_resume i (Waited st) (s\<lparr>cg_lock := l\<rparr>) = Some s'"
        using assms(3) Co_Wait by (auto split: Option.bind_splits)
      note ret = sl_return [OF l(1) wf]
      have "cg_at n l (cg_cons s j) j" if "j \<noteq> i" for j
        using at [of j] ret(1-3) that by (simp add: cg_at_def)
      then show ?thesis
        by (intro cg_resume_locks [OF l(2) assms(2)]) (use ret Co_Wait locked i in simp_all)
    qed
  qed (use assms(3) plain in \<open>auto simp: cg_key_def split: Option.bind_splits\<close>)
qed

lemma cg_locks_lock:
  assumes "cg_locks n s" "sl_owner l = sl_owner (cg_lock s)" "sl_dormant l = sl_dormant (cg_lock s)" "sl_wf l"
  shows "cg_locks n (s\<lparr>cg_lock := l\<rparr>)"
  using assms by (simp add: cg_locks_def cg_at_def)

lemma cg_step_locks:
  assumes "cg_locks n s" "cg_step push fetch n inp s = Some s'"
  shows "cg_locks n s'"
proof (cases inp)
  case (Turn i now)
  then show ?thesis using cg_turn_locks [OF assms(1)] assms(2) by (simp split: if_splits)
next
  case (Wake i st)
  then obtain l where l: "cond_wake i st (cg_lock s) = Some l" "s' = s\<lparr>cg_lock := l\<rparr>" using assms(2) by auto
  then show ?thesis using sl_wake [OF l(1)] cg_locks_lock [OF assms(1)] assms(1) by (simp add: cg_locks_def)
next
  case (Halt i)
  then have "i < n" "s' = s\<lparr>cg_cons := (cg_cons s)(i := cg_cons s i\<lparr>cs_running := False\<rparr>)\<rparr>"
    using assms(2) by (auto simp: cg_resume_def consumer_step_def split: if_splits)
  moreover have "cg_at n l (c\<lparr>cs_running := False\<rparr>) j \<longleftrightarrow> cg_at n l c j" if "consumer_inv c" for l c j
    using consumer_stop_inv [OF that] that by (simp add: cg_at_def)
  ultimately show ?thesis using assms(1) cg_locks_inv [OF assms(1), of i] by (simp add: cg_locks_def)
next
  case (Put v)
  then obtain q st where "push (cg_queue s) v = Some (q, st)" using assms(2) by (auto split: Option.bind_splits)
  then show ?thesis using Put assms by (auto simp: cg_locks_def)
next
  case (Notify pick)
  then show ?thesis using assms cg_locks_lock [OF assms(1)] by (auto simp: cg_locks_def)
next
  case Notify_All
  then show ?thesis using assms cg_locks_lock [OF assms(1)] by (auto simp: cg_locks_def)
qed

section \<open>The tasks\<close>

fun got :: "consumer_input \<Rightarrow> nat list" where
  "got (Key (Some v)) = [v]"
| "got _ = []"

lemma got_key: "got (Key k) = (case k of Some v \<Rightarrow> [v] | None \<Rightarrow> [])"
  by (cases k) simp_all

lemma consumer_step_taken: "consumer_step answer c = Some c' \<Longrightarrow> cs_taken c' = cs_taken c @ got answer"
  by (cases "cs_pc c"; cases answer)
    (auto simp: consumer_step_def Let_def split: option.splits if_splits consumer_ret.splits Option.bind_splits)

abbreviation all_taken :: "nat \<Rightarrow> 'q group \<Rightarrow> nat multiset" where
  "all_taken n s \<equiv> \<Sum>i < n. mset (cs_taken (cg_cons s i))"

lemma cg_resume_tasks:
  assumes "cg_resume i answer s = Some s'" "i < n"
  shows "cg_queue s' = cg_queue s" "cg_pushed s' = cg_pushed s" "cg_taken s' = cg_taken s"
    "all_taken n s' = all_taken n s + mset (got answer)"
    "cs_taken (cg_cons s' i) = cs_taken (cg_cons s i) @ got answer" "j \<noteq> i \<Longrightarrow> cg_cons s' j = cg_cons s j"
proof -
  obtain c l where c: "consumer_step answer (cg_cons s i) = Some c" and s': "s' = s\<lparr>cg_cons := (cg_cons s)(i := c), cg_lock := l\<rparr>"
    using assms(1) by (auto simp: cg_resume_def split: Option.bind_splits)
  have i: "i \<in> {..<n}" using assms(2) by simp
  have "(\<Sum>j \<in> {..<n} - {i}. mset (cs_taken (cg_cons s' j))) = (\<Sum>j \<in> {..<n} - {i}. mset (cs_taken (cg_cons s j)))"
    by (rule sum.cong) (simp_all add: s')
  then show "all_taken n s' = all_taken n s + mset (got answer)"
    using sum.remove [OF finite_lessThan i, of "\<lambda>j. mset (cs_taken (cg_cons s j))"]
      sum.remove [OF finite_lessThan i, of "\<lambda>j. mset (cs_taken (cg_cons s' j))"] consumer_step_taken [OF c]
    by (simp add: s')
qed (use assms(1) in \<open>auto simp: cg_resume_def dest: consumer_step_taken split: Option.bind_splits\<close>)

text \<open>The queue gives each task to one consumer; each consumer takes tasks in the order in which they left the queue.\<close>

definition cg_tasks :: "('q \<Rightarrow> bool) \<Rightarrow> ('q \<Rightarrow> nat list) \<Rightarrow> nat \<Rightarrow> 'q group \<Rightarrow> bool" where
  "cg_tasks ok view n s \<longleftrightarrow> ok (cg_queue s) \<and> cg_pushed s = cg_taken s @ view (cg_queue s)
     \<and> mset (cg_taken s) = all_taken n s \<and> (\<forall>i < n. subseq (cs_taken (cg_cons s i)) (cg_taken s))"

lemma cg_tasks_resume:
  assumes "cg_resume i answer (s\<lparr>cg_queue := q, cg_taken := cg_taken s @ got answer, cg_lock := l\<rparr>) = Some s'" "i < n"
    "cg_tasks ok view n s" "ok q" "view (cg_queue s) = got answer @ view q"
  shows "cg_tasks ok view n s'"
proof -
  note res = cg_resume_tasks [OF assms(1,2)]
  have "subseq (cs_taken (cg_cons s' j)) (cg_taken s @ got answer)" if "j < n" for j
  proof -
    have "subseq (cs_taken (cg_cons s j)) (cg_taken s)" using assms(3) that by (simp add: cg_tasks_def)
    then show ?thesis using res(5) res(6) [of j] list_emb_append_mono [of "(=)" "cs_taken (cg_cons s j)" "cg_taken s" "got answer" "got answer"]
      by (cases "j = i") auto
  qed
  then show ?thesis using res(1-4) assms(3-5) by (simp add: cg_tasks_def)
qed

locale consumer_group = bounded_fifo inv view accepts push fetch
  for inv :: "'q \<Rightarrow> bool" and view :: "'q \<Rightarrow> nat list" and accepts push fetch +
  fixes n :: nat
begin

abbreviation "next \<equiv> cg_step push fetch n"

definition good :: "'q group \<Rightarrow> bool" where
  "good s \<longleftrightarrow> cg_locks n s \<and> cg_tasks inv view n s"

lemma fetched:
  assumes "inv q"
  obtains q' st k where "fetch q = Some (q', st, k)" "inv q'" "view q = got (Key k) @ view q'"
proof (cases "view q")
  case Nil
  then show ?thesis using take_empty [OF assms Nil] assms that by fastforce
next
  case (Cons x xs)
  then show ?thesis using take_first [OF assms Cons] that by fastforce
qed

lemma key_tasks:
  assumes "cg_key fetch i s = Some s'" "i < n" "cg_tasks inv view n s"
  shows "cg_tasks inv view n s'"
proof -
  have "inv (cg_queue s)" using assms(3) by (simp add: cg_tasks_def)
  then obtain q st k where q: "fetch (cg_queue s) = Some (q, st, k)" "inv q" "view (cg_queue s) = got (Key k) @ view q"
    by (rule fetched)
  then have "cg_resume i (Key k) (s\<lparr>cg_queue := q, cg_taken := cg_taken s @ got (Key k), cg_lock := cg_lock s\<rparr>) = Some s'"
    using assms(1) by (simp add: cg_key_def got_key)
  then show ?thesis by (rule cg_tasks_resume [OF _ assms(2,3) q(2,3)])
qed

lemma plain_tasks:
  "cg_resume i answer (s\<lparr>cg_lock := l\<rparr>) = Some s' \<Longrightarrow> i < n \<Longrightarrow> got answer = [] \<Longrightarrow> cg_tasks inv view n s \<Longrightarrow> cg_tasks inv view n s'"
  using cg_tasks_resume [where i = i and answer = answer and s = s and q = "cg_queue s" and l = l and s' = s' and n = n and ok = inv and view = view] by (simp add: cg_tasks_def)

lemma turn_tasks:
  assumes "cg_turn_at (cs_pc (cg_cons s i)) fetch i now s = Some s'" "i < n" "cg_tasks inv view n s"
  shows "cg_tasks inv view n s'"
proof -
  have here: "cg_tasks inv view n s'" if "cg_resume i answer s = Some s'" "got answer = []" for answer
    using plain_tasks [of i answer "cg_lock s" s s'] that assms(2,3) by simp
  show ?thesis
  proof (cases "cs_pc (cg_cons s i)")
    case Co_Block
    then show ?thesis using assms plain_tasks [of i Go _ s s'] by (auto split: Option.bind_splits)
  next
    case Co_Wait
    then show ?thesis using assms plain_tasks [of i "Waited _" _ s s']
      by (auto simp: cg_tasks_def split: Option.bind_splits if_splits)
  qed (use assms here key_tasks in auto)
qed

lemma put_tasks:
  assumes "cg_step push fetch n (Put v) s = Some s'" "cg_tasks inv view n s"
  shows "cg_tasks inv view n s'"
proof -
  have inv: "inv (cg_queue s)" using assms(2) by (simp add: cg_tasks_def)
  show ?thesis
  proof (cases "accepts (cg_queue s) v")
    case True
    then show ?thesis using push_accepts [OF inv True] assms by (auto simp: cg_tasks_def)
  next
    case False
    then show ?thesis using push_refuses [OF inv False] assms by (auto simp: cg_tasks_def)
  qed
qed

lemma next_good: "good s \<Longrightarrow> next inp s = Some s' \<Longrightarrow> good s'"
proof -
  assume "good s" and step: "next inp s = Some s'"
  then have locks: "cg_locks n s" and tasks: "cg_tasks inv view n s" by (simp_all add: good_def)
  have "cg_tasks inv view n s'"
  proof (cases inp)
    case (Turn i now)
    then show ?thesis using turn_tasks step tasks by (simp split: if_splits)
  next
    case (Halt i)
    then show ?thesis using plain_tasks [of i Stop "cg_lock s" s s'] step tasks by (simp split: if_splits)
  next
    case (Put v)
    then show ?thesis using put_tasks step tasks by simp
  qed (use step tasks in \<open>auto simp: cg_tasks_def\<close>)
  then show ?thesis using cg_step_locks [OF locks step] by (simp add: good_def)
qed

lemma start_good: "inv q \<Longrightarrow> view q = [] \<Longrightarrow> good (cg_start co q)"
  using consumer_start_inv [of co]
  by (simp add: good_def cg_start_def cg_locks_def cg_at_def cg_tasks_def consumer_start_def)

end

end
