(* ===== verification/Consumer_Stop.thy ===== *)
theory Consumer_Stop
  imports Consumer_Group Machine
begin

text \<open>
  How consumers on a shared signal lock end: the properties of \<open>Consumer_Group\<close>. Each turn of a consumer whose flag is
  cleared brings it nearer to its end, whatever happens between its turns; and it can always get there, because the owner of the
  mutex gives it up after a few turns of its own, and a consumer that sleeps is woken by its deadline.
\<close>

section \<open>The effect of a turn\<close>




section \<open>A consumer whose flag is cleared\<close>







section \<open>The owner of the mutex\<close>





lemma null_deadline: "\<exists>d. half_second_after null_time_spec = Some d"
  by (rule half_second_after_normal [of null_time_spec]) (auto simp: normal_time_def null_time_spec_def)





section \<open>Properties\<close>








text \<open>
  A signal is lost when it comes between the look at the queue and the sleep, which the owner of the mutex cannot exclude because
  the thread that signals does not lock it: the consumer sleeps with a task in the queue, until its deadline.
\<close>

definition lost_signal :: "cg_input list" where
  "lost_signal = [Turn 0 null_time_spec, Turn 0 null_time_spec, Turn 0 null_time_spec, Put 1, Notify 0, Turn 0 null_time_spec]"

definition after_deadline :: "cg_input list" where
  "after_deadline = [Wake 0 ETIMEDOUT, Turn 0 null_time_spec, Turn 0 null_time_spec, Turn 0 null_time_spec, Turn 0 null_time_spec, Turn 0 null_time_spec]"

text \<open>What a fresh queue of four answers to the calls of these runs.\<close>

lemma fresh_queue:
  obtains q q1 q2 st where "mcmpSetQueueCreate (\<lambda>_. True) (\<lambda>_. 0) 4 = Some (Inr q)" "mcmpSetQueueTake q = Some (q, st, None)"
    "mcmpSetQueuePush q 1 = Some (q1, MCMPST_SUCCESS)" "sq_view q1 = [1]" "mcmpSetQueueTake q1 = Some (q2, MCMPST_SUCCESS, Some 1)"
    "sq_view q2 = []"
proof -
  obtain q where q: "mcmpSetQueueCreate (\<lambda>_. True) (\<lambda>_. 0) 4 = Some (Inr q)" "sq_inv q" "sq_view q = []" "sq_length q = 4"
    by (rule sq_fresh [of 4 "\<lambda>_. True" "\<lambda>_. 0"]) simp_all
  then have "sq_accepts q 1" by (simp add: sq_accepts_def)
  from set_fifo.push_accepts [OF q(2) this] q(3)
  obtain q1 where q1: "mcmpSetQueuePush q 1 = Some (q1, MCMPST_SUCCESS)" "sq_inv q1" "sq_view q1 = [1]" by auto
  show thesis using that q(1) set_fifo.take_empty [OF q(2,3)] q1(1,3) set_fifo.take_first [OF q1(2,3)] by blast
qed

lemmas cg_eval = cg_start_def consumer_start_def sample_consumer_def mcmchConsumerRoutineCreate_def mcmchRoutineMake_def
  mcmchSignalLockInitilize_def mcmchSignalLockBlock_def mcmchSignalLockRelease_def cond_sleep_def cond_return_def cond_wake_def
  mcmchSignalDispatch_def cg_resume_def cg_key_def consumer_step_def mcmchSignalLockTimedWait_def ETIMEDOUT_def

lemma signal_lost:
  "\<exists>q s s'. mcmpSetQueueCreate (\<lambda>_. True) (\<lambda>_. 0) 4 = Some (Inr q)
     \<and> runs (cg_step mcmpSetQueuePush mcmpSetQueueTake 1) lost_signal (cg_start sample_consumer q) = Some s
     \<and> sl_asleep (cg_lock s) = [0] \<and> sq_view (cg_queue s) = [1]
     \<and> runs (cg_step mcmpSetQueuePush mcmpSetQueueTake 1) after_deadline s = Some s' \<and> cs_handled (cg_cons s' 0) = [1]"
proof -
  obtain q q1 q2 st where q: "mcmpSetQueueCreate (\<lambda>_. True) (\<lambda>_. 0) 4 = Some (Inr q)" "mcmpSetQueueTake q = Some (q, st, None)"
    "mcmpSetQueuePush q 1 = Some (q1, MCMPST_SUCCESS)" "sq_view q1 = [1]" "mcmpSetQueueTake q1 = Some (q2, MCMPST_SUCCESS, Some 1)"
    by (rule fresh_queue)
  obtain d where d: "half_second_after null_time_spec = Some d" using null_deadline by blast
  show ?thesis using q d by (simp add: lost_signal_def after_deadline_def cg_eval)
qed



end
