(* ===== verification/Pool.thy ===== *)
theory Pool
  imports Slot_Array Routine Machine
begin

text \<open>
  The execution pools of \<^verbatim>\<open>routines/src/common/pool.c\<close> and \<^verbatim>\<open>routines/src/linux/pool.c\<close>: a block with a header, an
  identifier for each thread and a bitmap; the threads wait until their bit is set, call the pool's
  routine and wait until it is cleared. The header's \<^verbatim>\<open>routine\<close> field, which the code uses, is
  missing in its declaration, so the header's size is a parameter (\<open>hdr\<close>). Threads are addressed by the
  position of their identifier, routines and pools by addresses; the threads and the one that starts
  and destroys the pool are interleaved step by step, a signal sent is pending until a \<^verbatim>\<open>sigwait\<close> takes it.
\<close>

section \<open>Creation and linking\<close>

record pool =
  po_name :: string
  po_length :: nat
  po_routine :: "routine option"
  po_ids :: "nat list"
  po_bitmap :: "byte list"

text \<open>
  The number of threads is a \<^verbatim>\<open>uint32_t\<close>, and so is the number of bitmap bytes; \<open>junk\<close> is what \<^verbatim>\<open>malloc\<close> left in
  the identifiers, and \<open>None\<close> in the routine.
\<close>

definition mcmchExecutionPoolCreate :: "nat \<Rightarrow> (nat \<Rightarrow> bool) \<Rightarrow> (nat \<Rightarrow> nat) \<Rightarrow> string \<Rightarrow> nat \<Rightarrow> mcmpst + pool" where
  "mcmchExecutionPoolCreate hdr malloc_ok junk name nrots =
     (let blen = ((nrots + 7) mod 2 ^ 32) div 8
      in if \<not> malloc_ok ((hdr + 24 * nrots + blen) mod size_max) then Inl MCMPST_OUT_OF_MEM
         else Inr \<lparr>po_name = name, po_length = nrots, po_routine = None, po_ids = map junk [0..<nrots],
                po_bitmap = replicate blen 0\<rparr>)"

text \<open>Linking writes the start of each identifier and creates its thread; the threads created are the second result.\<close>

definition mcmchExecutionPoolLink :: "nat \<Rightarrow> routine \<Rightarrow> pool \<Rightarrow> pool \<times> nat list" where
  "mcmchExecutionPoolLink self routine p =
     (p\<lparr>po_routine := Some routine, po_ids := map (\<lambda>_. self) [0..<po_length p]\<rparr>, [0..<po_length p])"

section \<open>The threads and their master\<close>

text \<open>
  A thread starts (with the guards and the signal mask), tests its bit, waits for a signal, calls the
  routine, tests and waits again, and exits.
\<close>

datatype entry_pc = En_New | En_Off | En_Wait_On | En_Run | En_On | En_Wait_Off | En_Exit

text \<open>The master is at a thread of the loop of the start, between start and destruction, or at a thread of the loop of the destruction.\<close>

datatype master_pc = Ma_Enable nat | Ma_Ping nat | Ma_Idle | Ma_Disable nat | Ma_Kill nat | Ma_Join nat | Ma_Freed

record pool_sys =
  px_pool :: pool
  px_pc :: "nat \<Rightarrow> entry_pc"
  px_masked :: "nat \<Rightarrow> bool"
  px_pending :: "nat \<Rightarrow> bool"
  px_runs :: "nat \<Rightarrow> nat"
  px_master :: master_pc
  px_crashed :: bool

text \<open>The slot is cut to 16 bits. \<open>sigwait\<close> blocks while no signal is pending.\<close>

definition pool_slot :: "nat \<Rightarrow> nat" where
  "pool_slot i = i mod 2 ^ 16"

definition px_goto :: "nat \<Rightarrow> entry_pc \<Rightarrow> pool_sys \<Rightarrow> pool_sys" where
  "px_goto i p s = s\<lparr>px_pc := (px_pc s)(i := p)\<rparr>"

definition px_sigwait :: "nat \<Rightarrow> pool_sys \<Rightarrow> pool_sys option" where
  "px_sigwait i s = (if px_pending s i then Some (s\<lparr>px_pending := (px_pending s)(i := False)\<rparr>) else None)"

fun pool_entry_at :: "entry_pc \<Rightarrow> nat \<Rightarrow> pool_sys \<Rightarrow> pool_sys option" where
  "pool_entry_at En_New i s =
     Some (if po_length (px_pool s) \<le> pool_slot i then px_goto i En_Exit s
       else px_goto i En_Off (s\<lparr>px_masked := (px_masked s)(i := True)\<rparr>))"
| "pool_entry_at En_Off i s = do {
     disabled \<leftarrow> mcmpBitmapIsDisabledBit (po_bitmap (px_pool s)) (int (pool_slot i));
     Some (px_goto i (if disabled then En_Wait_On else En_Run) s) }"
| "pool_entry_at En_Wait_On i s = map_option (px_goto i En_Off) (px_sigwait i s)"
| "pool_entry_at En_Run i s = do {
     _ \<leftarrow> po_routine (px_pool s);
     Some (px_goto i En_On (s\<lparr>px_runs := (px_runs s)(i := px_runs s i + 1)\<rparr>)) }"
| "pool_entry_at En_On i s = do {
     enabled \<leftarrow> mcmpBitmapIsEnabledBit (po_bitmap (px_pool s)) (int (pool_slot i));
     Some (px_goto i (if enabled then En_Wait_Off else En_Exit) s) }"
| "pool_entry_at En_Wait_Off i s = map_option (px_goto i En_On) (px_sigwait i s)"
| "pool_entry_at En_Exit i s = None"

text \<open>A signal that a thread has not masked yet has its default action: it ends the process.\<close>

definition px_ping :: "nat \<Rightarrow> pool_sys \<Rightarrow> pool_sys" where
  "px_ping i s = (if px_masked s i then s\<lparr>px_pending := (px_pending s)(i := True)\<rparr> else s\<lparr>px_crashed := True\<rparr>)"

text \<open>The start and, after it, the destruction, which joins each thread before it goes on to the next.\<close>

fun pool_master_at :: "master_pc \<Rightarrow> pool_sys \<Rightarrow> pool_sys option" where
  "pool_master_at (Ma_Enable i) s =
     (if i < po_length (px_pool s) then do {
        bm \<leftarrow> mcmpBitmapEnableBit (po_bitmap (px_pool s)) (int i);
        Some (s\<lparr>px_pool := (px_pool s)\<lparr>po_bitmap := bm\<rparr>, px_master := Ma_Ping i\<rparr>) }
      else Some (s\<lparr>px_master := Ma_Idle\<rparr>))"
| "pool_master_at (Ma_Ping i) s = Some ((px_ping i s)\<lparr>px_master := Ma_Enable (i + 1)\<rparr>)"
| "pool_master_at Ma_Idle s = Some (s\<lparr>px_master := Ma_Disable 0\<rparr>)"
| "pool_master_at (Ma_Disable i) s =
     (if i < po_length (px_pool s) then do {
        bm \<leftarrow> mcmpBitmapDisableBit (po_bitmap (px_pool s)) (int i);
        Some (s\<lparr>px_pool := (px_pool s)\<lparr>po_bitmap := bm\<rparr>, px_master := Ma_Kill i\<rparr>) }
      else Some (s\<lparr>px_master := Ma_Freed\<rparr>))"
| "pool_master_at (Ma_Kill i) s = Some ((px_ping i s)\<lparr>px_master := Ma_Join i\<rparr>)"
| "pool_master_at (Ma_Join i) s = (if px_pc s i = En_Exit then Some (s\<lparr>px_master := Ma_Disable (i + 1)\<rparr>) else None)"
| "pool_master_at Ma_Freed s = None"

text \<open>
  A routine that waits for a signal of the pool, given the status of \<^verbatim>\<open>sigwait\<close>, which takes a signal only when it is 0.
\<close>

definition mcmchPoolWaitSignal :: "int \<Rightarrow> nat \<Rightarrow> pool_sys \<Rightarrow> (pool_sys \<times> mcmpst) option" where
  "mcmchPoolWaitSignal status i s =
     (if status \<noteq> 0 then Some (s, MCMPST_NOT_IMPLEMENTED)
      else map_option (\<lambda>s'. (s', MCMPST_SUCCESS)) (px_sigwait i s))"

text \<open>
  Which thread moves. While a thread is in the routine, the routine may wait for signals of the pool and take the one that
  is pending; \<^verbatim>\<open>sigwait\<close> fails only for a set without signals. Nothing moves in a process that has ended.
\<close>

datatype pool_input = Master | Thread nat | Routine_Wait nat

definition pool_step :: "pool_input \<Rightarrow> pool_sys \<Rightarrow> pool_sys option" where
  "pool_step inp s =
     (if px_crashed s then None
      else case inp of
        Master \<Rightarrow> pool_master_at (px_master s) s
      | Thread i \<Rightarrow> if i < po_length (px_pool s) then pool_entry_at (px_pc s i) i s else None
      | Routine_Wait i \<Rightarrow> if i < po_length (px_pool s) \<and> px_pc s i = En_Run then map_option fst (mcmchPoolWaitSignal 0 i s) else None)"

text \<open>A pool just linked; \<open>inherited\<close> says whether the thread that linked it had masked the signal, which its threads inherit.\<close>

definition pool_start :: "bool \<Rightarrow> pool \<Rightarrow> pool_sys" where
  "pool_start inherited p = \<lparr>px_pool = p, px_pc = (\<lambda>_. En_New), px_masked = (\<lambda>_. inherited), px_pending = (\<lambda>_. False),
     px_runs = (\<lambda>_. 0), px_master = Ma_Enable 0, px_crashed = False\<rparr>"

section \<open>What the threads keep\<close>

definition entry_ok :: "entry_pc \<Rightarrow> nat \<Rightarrow> bool" where
  "entry_ok p r \<longleftrightarrow> r = (if p = En_On \<or> p = En_Wait_Off \<or> p = En_Exit then 1 else 0)"

fun joined :: "nat \<Rightarrow> master_pc \<Rightarrow> nat" where
  "joined n (Ma_Disable i) = i"
| "joined n (Ma_Kill i) = i"
| "joined n (Ma_Join i) = i"
| "joined n Ma_Freed = n"
| "joined n _ = 0"

fun master_ok :: "nat \<Rightarrow> master_pc \<Rightarrow> bool" where
  "master_ok n (Ma_Enable i) = (i \<le> n)"
| "master_ok n (Ma_Ping i) = (i < n)"
| "master_ok n (Ma_Disable i) = (i \<le> n)"
| "master_ok n (Ma_Kill i) = (i < n)"
| "master_ok n (Ma_Join i) = (i < n)"
| "master_ok n _ = True"

definition pool_inv :: "nat \<Rightarrow> pool_sys \<Rightarrow> bool" where
  "pool_inv n s \<longleftrightarrow> po_length (px_pool s) = n \<and> n \<le> 8 * length (po_bitmap (px_pool s))
     \<and> (\<forall>i < n. entry_ok (px_pc s i) (px_runs s i))
     \<and> master_ok n (px_master s) \<and> (\<forall>i < joined n (px_master s). px_pc s i = En_Exit)"

lemmas px_defs = px_goto_def px_ping_def px_sigwait_def mcmchPoolWaitSignal_def

lemma pool_slot_le: "pool_slot i \<le> i"
  by (simp add: pool_slot_def)

lemma entry_keeps:
  assumes "pool_entry_at p i s = Some s'" "px_pc s i = p" "i < po_length (px_pool s)" "entry_ok p (px_runs s i)"
  shows "px_pool s' = px_pool s" "px_master s' = px_master s" "entry_ok (px_pc s' i) (px_runs s' i)" "p \<noteq> En_Exit"
    "j \<noteq> i \<Longrightarrow> px_pc s' j = px_pc s j \<and> px_runs s' j = px_runs s j"
  using assms pool_slot_le [of i]
  by (cases p; auto simp: px_defs entry_ok_def split: if_splits Option.bind_splits)+

lemma pool_entry_inv:
  assumes "pool_inv n s" "i < n" "pool_entry_at (px_pc s i) i s = Some s'"
  shows "pool_inv n s'"
proof -
  have i: "i < po_length (px_pool s)" "entry_ok (px_pc s i) (px_runs s i)" using assms(1,2) by (simp_all add: pool_inv_def)
  note keeps = entry_keeps [OF assms(3) refl i]
  have "entry_ok (px_pc s' j) (px_runs s' j)" if "j < n" for j
    using keeps(3) keeps(5) [of j] that assms(1) by (cases "j = i") (auto simp: pool_inv_def)
  moreover have "px_pc s' j = En_Exit" if "j < joined n (px_master s)" for j
  proof -
    have "px_pc s j = En_Exit" using that assms(1) by (simp add: pool_inv_def)
    then show ?thesis using keeps(4) keeps(5) [of j] by (cases "j = i") auto
  qed
  ultimately show ?thesis using assms(1) by (simp add: pool_inv_def keeps(1,2))
qed

lemma pool_master_inv:
  assumes "pool_inv n s" "pool_master_at (px_master s) s = Some s'"
  shows "pool_inv n s'"
proof -
  have bits: "i < n \<Longrightarrow> (\<exists>bm. mcmpBitmapEnableBit (po_bitmap (px_pool s)) (int i) = Some bm \<and> length bm = length (po_bitmap (px_pool s)))"
      "i < n \<Longrightarrow> (\<exists>bm. mcmpBitmapDisableBit (po_bitmap (px_pool s)) (int i) = Some bm \<and> length bm = length (po_bitmap (px_pool s)))" for i
    using assms(1) enable_bit [of i "po_bitmap (px_pool s)"] disable_bit [of i "po_bitmap (px_pool s)"]
    by (auto simp: pool_inv_def)
  show ?thesis
    using assms bits
    by (cases "px_master s") (fastforce simp: pool_inv_def px_ping_def less_Suc_eq split: if_splits)+
qed

lemma pool_step_inv: "pool_inv n s \<Longrightarrow> pool_step inp s = Some s' \<Longrightarrow> pool_inv n s'"
  using pool_master_inv [of n s s'] pool_entry_inv [of n s _ s']
  by (auto simp: pool_step_def split: pool_input.splits if_splits) (auto simp: pool_inv_def px_sigwait_def mcmchPoolWaitSignal_def split: if_splits)

interpretation po: machine pool_step "pool_inv n" for n
  by unfold_locales (rule pool_step_inv)

lemma pool_start_inv:
  assumes "mcmchExecutionPoolCreate hdr malloc_ok junk name n = Inr p" "n + 7 < 2 ^ 32"
  shows "pool_inv n (pool_start inherited (fst (mcmchExecutionPoolLink self routine p)))"
proof -
  have "po_length p = n" "length (po_bitmap p) = (n + 7) div 8"
    using assms by (auto simp: mcmchExecutionPoolCreate_def Let_def split: if_splits)
  then show ?thesis by (simp add: pool_inv_def pool_start_def mcmchExecutionPoolLink_def entry_ok_def)
qed

section \<open>Properties\<close>

text \<open>
  C23: Every thread of a pool calls the routine exactly once, and the pool outlives them: after any
  interleaving of the threads with a start and a destruction of the pool, no thread has called the routine
  more than once, a thread that has exited has called it, and when the destruction frees the pool, all of its threads have
  exited.
\<close>
theorem pool_runs_each_once:
  assumes "mcmchExecutionPoolCreate hdr malloc_ok junk name n = Inr p" "n + 7 < 2 ^ 32"
    and "mcmchExecutionPoolLink self routine p = (p', threads)"
    and "runs pool_step is (pool_start inherited p') = Some s" "i < n"
  shows "px_runs s i \<le> 1 \<and> (px_pc s i = En_Exit \<longrightarrow> px_runs s i = 1) \<and> (px_master s = Ma_Freed \<longrightarrow> px_pc s i = En_Exit)"
proof -
  have "pool_inv n s"
    using po.runs_inv [OF pool_start_inv [OF assms(1,2)] , of "is" inherited self routine s] assms(3,4) by simp
  then show ?thesis using assms(5) by (auto simp: pool_inv_def entry_ok_def)
qed

definition sample_pool :: "nat \<Rightarrow> pool" where
  "sample_pool n = \<lparr>po_name = ''p'', po_length = n, po_routine = None, po_ids = map (\<lambda>_. 0) [0..<n], po_bitmap = [0]\<rparr>"

abbreviation linked_pool :: "nat \<Rightarrow> pool" where
  "linked_pool n \<equiv> fst (mcmchExecutionPoolLink 9 \<lparr>ro_handler = 1, ro_arg = 2\<rparr> (sample_pool n))"

definition full_cycle :: "pool_input list" where
  "full_cycle = [Thread 0, Thread 1, Master, Master, Master, Master, Master, Thread 0, Thread 0, Thread 0, Thread 1, Thread 1,
     Master, Master, Master, Thread 0, Thread 0, Master, Master, Master, Thread 1, Master, Master]"

lemma small_bits:
  "mcmpBitmapEnableBit [0] 0 = Some [1]" "mcmpBitmapEnableBit [1] 1 = Some [3]"
  "mcmpBitmapDisableBit [3] 0 = Some [2]" "mcmpBitmapDisableBit [2] 1 = Some [0]" "mcmpBitmapDisableBit [1] 0 = Some [0]"
  "mcmpBitmapIsDisabledBit [0] 0 = Some True" "mcmpBitmapIsDisabledBit [3] 0 = Some False"
  "mcmpBitmapIsDisabledBit [3] 1 = Some False" "mcmpBitmapIsEnabledBit [3] 0 = Some True"
  "mcmpBitmapIsEnabledBit [2] 0 = Some False" "mcmpBitmapIsEnabledBit [3] 1 = Some True"
  "mcmpBitmapIsEnabledBit [0] 1 = Some False"
  by code_simp+

lemmas pool_eval = pool_step_def pool_start_def px_defs pool_slot_def mcmchExecutionPoolLink_def sample_pool_def small_bits

definition hang_schedule :: "pool_input list" where
  "hang_schedule = [Thread 0, Thread 0, Master, Master, Master, Master, Master, Master, Thread 0, Thread 0]"

text \<open>
  The destruction of a pool can hang: when it follows the start before the thread of a pool of one has seen its bit set,
  the thread takes the two signals for one, finds its bit cleared and waits again, and the destruction waits for the
  thread; nothing can move any more.
\<close>
lemma pool_destroy_hangs:
  "\<exists>s. runs pool_step hang_schedule (pool_start True (linked_pool 1)) = Some s
     \<and> px_master s = Ma_Join 0 \<and> px_pc s 0 = En_Wait_On \<and> (\<forall>inp. pool_step inp s = None)"
  by (simp add: hang_schedule_def pool_eval split: pool_input.split)

text \<open>Started before its thread has masked the signal, a pool ends the process.\<close>

lemma pool_start_ends_process: "\<exists>s. runs pool_step [Master, Master] (pool_start False (linked_pool 1)) = Some s \<and> px_crashed s"
  by (simp add: pool_eval)

theorem pool_runs_each_once_witness:
  "\<exists>s. runs pool_step full_cycle (pool_start False (linked_pool 2)) = Some s \<and> px_master s = Ma_Freed \<and> px_runs s 1 = 1"
proof -
  have "map_option px_master (runs pool_step full_cycle (pool_start False (linked_pool 2))) = Some Ma_Freed"
    by (simp add: full_cycle_def pool_eval)
  then obtain s where s: "runs pool_step full_cycle (pool_start False (linked_pool 2)) = Some s" "px_master s = Ma_Freed"
    by auto
  have "mcmchExecutionPoolCreate 32 (\<lambda>_. True) (\<lambda>_. 0) ''p'' 2 = Inr (sample_pool 2)"
    by (simp add: mcmchExecutionPoolCreate_def sample_pool_def)
  from pool_runs_each_once [OF this _ prod.collapse [symmetric] s(1), of 1] s show ?thesis by simp
qed

end
