(* ===== verification/Pool_Shutdown.thy ===== *)
theory Pool_Shutdown
  imports Pool
begin

text \<open>
  Why the destruction of an execution pool ends: every step of the threads and of their master uses up a part of a
  finite budget, and once every routine has returned, no wake-up can be lost: a thread that waits for its bit to be
  cleared has a signal pending as soon as the bit is cleared and the master has left its thread.
\<close>

section \<open>The budget\<close>

fun entry_left :: "entry_pc \<Rightarrow> nat" where
  "entry_left En_New = 6"
| "entry_left En_Off = 5"
| "entry_left En_Wait_On = 4"
| "entry_left En_Run = 3"
| "entry_left En_On = 2"
| "entry_left En_Wait_Off = 1"
| "entry_left En_Exit = 0"

fun master_left :: "nat \<Rightarrow> master_pc \<Rightarrow> nat" where
  "master_left n (Ma_Enable i) = 5 * n + 3 + 4 * (n - i)"
| "master_left n (Ma_Ping i) = 5 * n + 2 + 4 * (n - i)"
| "master_left n Ma_Idle = 5 * n + 2"
| "master_left n (Ma_Disable i) = 5 * (n - i) + 1"
| "master_left n (Ma_Kill i) = 5 * (n - i)"
| "master_left n (Ma_Join i) = 5 * (n - i) - 3"
| "master_left n Ma_Freed = 0"

definition thread_budget :: "pool_sys \<Rightarrow> nat \<Rightarrow> nat" where
  "thread_budget s i = entry_left (px_pc s i) + (if px_pending s i then 2 else 0)"

definition pool_left :: "nat \<Rightarrow> pool_sys \<Rightarrow> nat" where
  "pool_left n s = master_left n (px_master s) + (\<Sum>i < n. thread_budget s i)"

lemma sum_one_changes:
  fixes f g :: "nat \<Rightarrow> nat"
  assumes "i < n" "\<And>j. j \<noteq> i \<Longrightarrow> g j = f j"
  shows "(\<Sum>j < n. g j) + f i = (\<Sum>j < n. f j) + g i"
proof -
  have i: "i \<in> {..<n}" using assms(1) by simp
  have "(\<Sum>j \<in> {..<n} - {i}. g j) = (\<Sum>j \<in> {..<n} - {i}. f j)" by (rule sum.cong) (use assms(2) in auto)
  then show ?thesis using sum.remove [OF finite_lessThan i, of g] sum.remove [OF finite_lessThan i, of f] by simp
qed

lemma pool_entry_left:
  assumes "pool_entry_at (px_pc s i) i s = Some s'" "i < n"
  shows "pool_left n s' < pool_left n s"
proof -
  have "px_master s' = px_master s" "thread_budget s' i < thread_budget s i" "\<And>j. j \<noteq> i \<Longrightarrow> thread_budget s' j = thread_budget s j"
    using assms(1)
    by (cases "px_pc s i"; auto simp: px_defs thread_budget_def split: if_splits Option.bind_splits)+
  then show ?thesis using sum_one_changes [OF assms(2), of "thread_budget s'" "thread_budget s"] by (simp add: pool_left_def)
qed

lemma ping_left:
  assumes "i < n"
  shows "(\<Sum>j < n. thread_budget (px_ping i s) j) \<le> (\<Sum>j < n. thread_budget s j) + 2"
proof -
  have "thread_budget (px_ping i s) i \<le> thread_budget s i + 2" "\<And>j. j \<noteq> i \<Longrightarrow> thread_budget (px_ping i s) j = thread_budget s j"
    by (auto simp: px_defs thread_budget_def)
  then show ?thesis using sum_one_changes [OF assms, of "thread_budget (px_ping i s)" "thread_budget s"] by simp
qed

lemma thread_budget_simps [simp]:
  "thread_budget (s\<lparr>px_master := m\<rparr>) = thread_budget s" "thread_budget (s\<lparr>px_pool := p\<rparr>) = thread_budget s"
  by (simp_all add: thread_budget_def fun_eq_iff)

lemma pool_master_left:
  assumes "pool_master_at (px_master s) s = Some s'" "master_ok n (px_master s)" "po_length (px_pool s) = n"
  shows "pool_left n s' < pool_left n s"
  using assms ping_left [of _ n s]
  by (cases "px_master s") (fastforce simp: pool_left_def split: if_splits Option.bind_splits)+

lemma routine_wait_left:
  assumes "px_sigwait i s = Some s'" "i < n"
  shows "pool_left n s' < pool_left n s"
proof -
  have "px_master s' = px_master s" "thread_budget s' i < thread_budget s i" "\<And>j. j \<noteq> i \<Longrightarrow> thread_budget s' j = thread_budget s j"
    using assms(1) by (auto simp: px_defs thread_budget_def split: if_splits)
  then show ?thesis using sum_one_changes [OF assms(2), of "thread_budget s'" "thread_budget s"] by (simp add: pool_left_def)
qed

lemma pool_step_left: "pool_inv n s \<Longrightarrow> pool_step inp s = Some s' \<Longrightarrow> pool_left n s' < pool_left n s"
  using pool_master_left [of s s' n] pool_entry_left [of s _ s' n] routine_wait_left [of _ s s' n]
  by (auto simp: pool_step_def pool_inv_def mcmchPoolWaitSignal_def split: pool_input.splits if_splits)

lemma pool_runs_left: "pool_inv n s \<Longrightarrow> runs pool_step is s = Some s' \<Longrightarrow> pool_left n s' + length is \<le> pool_left n s"
proof (induction "is" arbitrary: s)
  case (Cons i js)
  then obtain t where t: "pool_step i s = Some t" "runs pool_step js t = Some s'" by (auto split: Option.bind_splits)
  show ?case using Cons.IH [OF pool_step_inv [OF Cons.prems(1) t(1)] t(2)] pool_step_left [OF Cons.prems(1) t(1)] by simp
qed simp

section \<open>No wake-up is lost\<close>

text \<open>
  What a thread keeps, next to its bit: it has masked the signal once it has started, and when it waits for a bit that is already
  cleared, its signal is pending or about to be sent.
\<close>

definition woken :: "pool_sys \<Rightarrow> nat \<Rightarrow> bool" where
  "woken s i \<longleftrightarrow> (px_pc s i \<noteq> En_New \<longrightarrow> px_masked s i)
     \<and> (px_pc s i = En_Wait_Off \<and> \<not> bm_bit (po_bitmap (px_pool s)) i \<longrightarrow> px_pending s i \<or> px_master s = Ma_Kill i)"

definition pool_live :: "nat \<Rightarrow> pool_sys \<Rightarrow> bool" where
  "pool_live n s \<longleftrightarrow> pool_inv n s \<and> po_routine (px_pool s) \<noteq> None \<and> (\<forall>i < n. woken s i)
     \<and> (px_crashed s \<longrightarrow> (\<exists>i < n. px_pc s i = En_New))
     \<and> (\<forall>i. px_master s = Ma_Kill i \<or> px_master s = Ma_Join i \<longrightarrow> \<not> bm_bit (po_bitmap (px_pool s)) i)"

lemma pool_slot_small: "n \<le> 2 ^ 16 \<Longrightarrow> i < n \<Longrightarrow> pool_slot i = i"
  by (simp add: pool_slot_def)

lemma pool_entry_live:
  assumes "pool_live n s" "n \<le> 2 ^ 16" "i < n" "pool_entry_at (px_pc s i) i s = Some s'" "\<not> px_crashed s"
  shows "pool_live n s'"
proof -
  have inv: "pool_inv n s" using assms(1) by (simp add: pool_live_def)
  have i: "i < po_length (px_pool s)" "entry_ok (px_pc s i) (px_runs s i)" "i < 8 * length (po_bitmap (px_pool s))"
    using inv assms(3) by (auto simp: pool_inv_def)
  note keeps = entry_keeps [OF assms(4) refl i(1,2)]
  have other: "woken s' j" if "j < n" "j \<noteq> i" for j
  proof -
    have "px_masked s' j = px_masked s j \<and> px_pending s' j = px_pending s j"
      using assms(4) that(2) by (cases "px_pc s i") (auto simp: px_defs split: if_splits Option.bind_splits)
    then show ?thesis using assms(1) that keeps(5) [of j] by (simp add: pool_live_def woken_def keeps(1,2))
  qed
  have "woken s i" using assms(1,3) by (simp add: pool_live_def)
  then have "woken s' i"
    using assms(4) i(1) is_enabled_bit [OF i(3)] pool_slot_small [OF assms(2,3)] keeps(1,2)
    by (cases "px_pc s i") (auto simp: px_defs woken_def split: if_splits Option.bind_splits)
  moreover have "px_crashed s' = px_crashed s"
    using assms(4) by (cases "px_pc s i") (auto simp: px_defs split: if_splits Option.bind_splits)
  ultimately show ?thesis
    using assms(1,5) other pool_entry_inv [OF inv assms(3,4)] by (auto simp: pool_live_def keeps(1,2))
qed

lemma ping_facts [simp]:
  "px_pool (px_ping i s) = px_pool s" "px_pc (px_ping i s) = px_pc s" "px_master (px_ping i s) = px_master s"
  "px_masked (px_ping i s) = px_masked s"
  "px_pending (px_ping i s) j \<longleftrightarrow> px_pending s j \<or> j = i \<and> px_masked s i"
  "px_crashed (px_ping i s) \<longleftrightarrow> px_crashed s \<or> \<not> px_masked s i"
  by (auto simp: px_ping_def)

lemma ping_live:
  assumes "pool_live n s" "i < n" "\<not> px_crashed s" "px_master s = Ma_Kill i \<or> px_master s = Ma_Ping i"
    and "\<And>j. m \<noteq> Ma_Kill j" "\<And>j. m = Ma_Join j \<Longrightarrow> px_master s = Ma_Kill j"
    and "pool_inv n ((px_ping i s)\<lparr>px_master := m\<rparr>)"
  shows "pool_live n ((px_ping i s)\<lparr>px_master := m\<rparr>)"
  using assms by (auto simp: pool_live_def woken_def)

lemma pool_master_live:
  assumes "pool_live n s" "pool_master_at (px_master s) s = Some s'" "\<not> px_crashed s"
  shows "pool_live n s'"
proof -
  have inv: "pool_inv n s" "pool_inv n s'" using assms(1,2) pool_master_inv by (auto simp: pool_live_def)
  have bits: "i < n \<Longrightarrow> mcmpBitmapEnableBit (po_bitmap (px_pool s)) (int i) = Some bm \<Longrightarrow> bm_bit bm j \<longleftrightarrow> bm_bit (po_bitmap (px_pool s)) j \<or> j = i"
      "i < n \<Longrightarrow> mcmpBitmapDisableBit (po_bitmap (px_pool s)) (int i) = Some bm \<Longrightarrow> bm_bit bm j \<longleftrightarrow> bm_bit (po_bitmap (px_pool s)) j \<and> j \<noteq> i" for i bm j
    using inv(1) enable_bit [of i "po_bitmap (px_pool s)"] disable_bit [of i "po_bitmap (px_pool s)"]
    by (auto simp: pool_inv_def)
  show ?thesis
  proof (cases "px_master s")
    case (Ma_Kill i)
    then show ?thesis using ping_live [OF assms(1) _ assms(3), of i "Ma_Join i"] inv assms(2) by (auto simp: pool_inv_def)
  next
    case (Ma_Ping i)
    then show ?thesis using ping_live [OF assms(1) _ assms(3), of i "Ma_Enable (Suc i)"] inv assms(2) by (auto simp: pool_inv_def)
  next
    case (Ma_Enable i)
    show ?thesis
    proof (cases "i < n")
      case True
      then obtain bm where "s' = s\<lparr>px_pool := (px_pool s)\<lparr>po_bitmap := bm\<rparr>, px_master := Ma_Ping i\<rparr>"
          "\<And>j. bm_bit bm j \<longleftrightarrow> bm_bit (po_bitmap (px_pool s)) j \<or> j = i"
        using Ma_Enable assms(2) inv(1) bits(1) [of i] by (auto simp: pool_inv_def split: Option.bind_splits)
      then show ?thesis using assms(1,3) inv(2) Ma_Enable by (auto simp: pool_live_def woken_def)
    qed (use assms inv(2) in \<open>auto simp: pool_live_def woken_def pool_inv_def Ma_Enable\<close>)
  next
    case (Ma_Disable i)
    show ?thesis
    proof (cases "i < n")
      case True
      then obtain bm where "s' = s\<lparr>px_pool := (px_pool s)\<lparr>po_bitmap := bm\<rparr>, px_master := Ma_Kill i\<rparr>"
          "\<And>j. bm_bit bm j \<longleftrightarrow> bm_bit (po_bitmap (px_pool s)) j \<and> j \<noteq> i"
        using Ma_Disable assms(2) inv(1) bits(2) [of i] by (auto simp: pool_inv_def split: Option.bind_splits)
      then show ?thesis using assms(1,3) inv(2) Ma_Disable by (auto simp: pool_live_def woken_def)
    qed (use assms inv(2) in \<open>auto simp: pool_live_def woken_def pool_inv_def Ma_Disable\<close>)
  qed (use assms inv(2) in \<open>auto simp: pool_live_def woken_def split: if_splits\<close>)
qed

lemma pool_step_live:
  assumes "n \<le> 2 ^ 16" "pool_live n s" "pool_step inp s = Some s'"
  shows "pool_live n s'"
proof (cases inp)
  case Master
  then show ?thesis using assms pool_master_live [of n s s'] by (simp add: pool_step_def split: if_splits)
next
  case (Thread i)
  then show ?thesis using assms pool_entry_live [of n s i s']
    by (simp add: pool_step_def pool_live_def pool_inv_def split: if_splits)
next
  case (Routine_Wait i)
  then have "px_pc s i = En_Run" "s' = s\<lparr>px_pending := (px_pending s)(i := False)\<rparr>"
    using assms(3) by (auto simp: pool_step_def px_defs split: if_splits)
  then show ?thesis using assms(2) by (auto simp: pool_live_def woken_def pool_inv_def)
qed

interpretation pool_threads: machine pool_step "\<lambda>s. n \<le> 2 ^ 16 \<and> pool_live n s" for n
  by unfold_locales (use pool_step_live in blast)

lemma pool_can_step:
  assumes "n \<le> 2 ^ 16" "pool_live n s" "\<forall>i < n. px_runs s i = 1" "px_master s \<noteq> Ma_Freed"
  shows "\<exists>inp s'. pool_step inp s = Some s'"
proof -
  have inv: "pool_inv n s" using assms(2) by (simp add: pool_live_def)
  have alive: "\<not> px_crashed s" using assms(2,3) inv by (force simp: pool_live_def pool_inv_def entry_ok_def)
  show ?thesis
  proof (cases "pool_master_at (px_master s) s")
    case (Some s')
    then show ?thesis using alive by (intro exI [of _ Master]) (simp add: pool_step_def)
  next
    case None
    have bits: "i < n \<Longrightarrow> \<exists>bm. mcmpBitmapEnableBit (po_bitmap (px_pool s)) (int i) = Some bm"
        "i < n \<Longrightarrow> \<exists>bm. mcmpBitmapDisableBit (po_bitmap (px_pool s)) (int i) = Some bm" for i
      using inv enable_bit [of i "po_bitmap (px_pool s)"] disable_bit [of i "po_bitmap (px_pool s)"]
      by (auto simp: pool_inv_def)
    then obtain i where join: "px_master s = Ma_Join i" "px_pc s i \<noteq> En_Exit"
      using None assms(4) inv by (cases "px_master s") (fastforce simp: pool_inv_def split: if_splits)+
    then have i: "i < n" "i < po_length (px_pool s)" "i < 8 * length (po_bitmap (px_pool s))"
      using inv by (auto simp: pool_inv_def)
    then have "px_pc s i = En_On \<or> px_pc s i = En_Wait_Off \<and> px_pending s i"
      using join assms(2,3) inv by (fastforce simp: pool_live_def woken_def pool_inv_def entry_ok_def split: if_splits)
    then have "pool_entry_at (px_pc s i) i s \<noteq> None"
      using is_enabled_bit [OF i(3)] pool_slot_small [OF assms(1) i(1)] by (auto simp: px_defs)
    then show ?thesis using alive i(2) by (intro exI [of _ "Thread i"]) (auto simp: pool_step_def)
  qed
qed

lemma pool_start_live:
  assumes "mcmchExecutionPoolCreate hdr malloc_ok junk name n = Inr p" "n \<le> 2 ^ 16"
  shows "pool_live n (pool_start inherited (fst (mcmchExecutionPoolLink self routine p)))"
  using pool_start_inv [OF assms(1)] assms(2)
  by (simp add: pool_live_def woken_def pool_start_def mcmchExecutionPoolLink_def)

lemma pool_start_left:
  "pool_left n (pool_start inherited p) = 15 * n + 3"
  by (simp add: pool_left_def pool_start_def thread_budget_def)

section \<open>Properties\<close>

text \<open>
  C21: The start and the destruction of a pool of \<open>n\<close> threads, at most 65536, end: whatever the schedule, and whatever signals
  the routines take, the master and the threads take at most \<open>15 n + 3\<close> steps; and once every thread has returned from
  the routine, one of them can always take a step until the destruction has freed the pool, so that from there it
  neither hangs nor loses the process to a signal.
\<close>
theorem pool_destroy_ends:
  assumes "mcmchExecutionPoolCreate hdr malloc_ok junk name n = Inr p" "n \<le> 2 ^ 16"
    and "mcmchExecutionPoolLink self routine p = (p', threads)"
    and "runs pool_step is (pool_start inherited p') = Some s"
  shows "length is \<le> 15 * n + 3
    \<and> ((\<forall>i < n. px_runs s i = 1) \<and> px_master s \<noteq> Ma_Freed \<longrightarrow> (\<exists>inp s'. pool_step inp s = Some s'))"
proof -
  have start: "pool_live n (pool_start inherited p')"
    using pool_start_live [OF assms(1,2), of inherited self routine] assms(3) by simp
  then have "pool_left n s + length is \<le> 15 * n + 3"
    using pool_runs_left [OF _ assms(4), of n] pool_start_left by (simp add: pool_live_def)
  moreover have "pool_live n s" using pool_threads.runs_inv [OF _ assms(4)] start assms(2) by blast
  ultimately show ?thesis using pool_can_step [OF assms(2)] by simp
qed

definition all_called :: "pool_input list" where
  "all_called = [Thread 0, Thread 1, Master, Master, Master, Master, Master, Thread 0, Thread 0, Thread 1, Thread 1, Master, Master, Master]"

theorem pool_destroy_ends_witness:
  "\<exists>s. runs pool_step all_called (pool_start False (linked_pool 2)) = Some s \<and> px_master s = Ma_Join 0
     \<and> (\<exists>inp s'. pool_step inp s = Some s')"
proof -
  have "\<exists>s. runs pool_step all_called (pool_start False (linked_pool 2)) = Some s
      \<and> px_master s = Ma_Join 0 \<and> px_runs s 0 = 1 \<and> px_runs s 1 = 1"
    by (simp add: all_called_def pool_eval)
  then obtain s where s: "runs pool_step all_called (pool_start False (linked_pool 2)) = Some s"
      "px_master s = Ma_Join 0" "px_runs s 0 = 1" "px_runs s 1 = 1" by blast
  have "mcmchExecutionPoolCreate 32 (\<lambda>_. True) (\<lambda>_. 0) ''p'' 2 = Inr (sample_pool 2)"
    by (simp add: mcmchExecutionPoolCreate_def sample_pool_def)
  from pool_destroy_ends [OF this _ prod.collapse [symmetric] s(1)] s show ?thesis by (auto simp: less_2_cases_iff)
qed

end
