(* ===== verification/Dispatcher.thy ===== *)
theory Dispatcher
  imports Set_Queue Routine Machine
begin

text \<open>
  The writer dispatcher of \<^verbatim>\<open>server/src/common/dispatcher.c\<close>: a thread that waits on a signal lock until it is
  started, and then until it is told to dispatch or to close, and the functions of its owner that create, start and
  destroy it. Both write one \<^verbatim>\<open>int\<close> of flags with plain reads and writes, here one step each; the owner does
  not take the lock. The function \<^verbatim>\<open>mcmchRoutineCreate\<close> and the test that the queue is not empty
  are not defined in the repository and are parameters (\<open>routine_st\<close>, \<open>nonempty\<close>).
\<close>

unbundle bit_operations_syntax

section \<open>Creation\<close>

definition FLAG_STARTED :: nat where "FLAG_STARTED = 0"
definition FLAG_CLOSURE :: nat where "FLAG_CLOSURE = 1"
definition FLAG_ONDISPATCH :: nat where "FLAG_ONDISPATCH = 2"
definition FLAG_WORKING :: nat where "FLAG_WORKING = 3"

lemmas flag_defs = FLAG_STARTED_def FLAG_CLOSURE_def FLAG_ONDISPATCH_def FLAG_WORKING_def

record writer =
  wr_queue :: setqueue
  wr_flags :: "32 word"

text \<open>What creation acquires and releases, in order, and the instance.\<close>

datatype resource = Instance | Queue | Lock | Thread
datatype res_event = Acquire resource | Release resource

definition mcmchDispatcherCreateWriterInstance ::
  "bool \<Rightarrow> (nat \<Rightarrow> bool) \<Rightarrow> (nat \<Rightarrow> nat) \<Rightarrow> mcmpst \<Rightarrow> mcmpst \<Rightarrow> nat \<Rightarrow> (res_event list \<times> writer option) ub" where
  "mcmchDispatcherCreateWriterInstance malloc_ok queue_ok junk lock_st routine_st bitslen =
     (if \<not> malloc_ok then Some ([], None)
      else do {
        created \<leftarrow> mcmpSetQueueCreate queue_ok junk bitslen;
        Some (case created of
          Inl _ \<Rightarrow> ([Acquire Instance, Release Instance], None)
        | Inr queue \<Rightarrow>
            if lock_st \<noteq> MCMPST_SUCCESS
            then ([Acquire Instance, Acquire Queue, Release Queue, Release Instance], None)
            else if routine_st \<noteq> MCMPST_SUCCESS
            then ([Acquire Instance, Acquire Queue, Acquire Lock, Release Lock, Release Queue, Release Instance], None)
            else ([Acquire Instance, Acquire Queue, Acquire Lock, Acquire Thread],
                  Some \<lparr>wr_queue = queue, wr_flags = 0\<rparr>)) })"

text \<open>Destruction releases, after the thread was joined.\<close>

definition destroy_releases :: "res_event list" where
  "destroy_releases = [Release Thread, Release Lock, Release Queue, Release Instance]"

fun holding :: "res_event list \<Rightarrow> resource set \<Rightarrow> resource set option" where
  "holding [] held = Some held"
| "holding (Acquire r # es) held = (if r \<in> held then None else holding es (insert r held))"
| "holding (Release r # es) held = (if r \<in> held then holding es (held - {r}) else None)"

section \<open>The thread\<close>

text \<open>
  The points of the handler: before the start (to the first release), at the head of the loop, waiting for a dispatch, and
  draining the queue. A point that carries a word has read the flags and is about to write them.
\<close>

datatype handler_pc =
    H_Block | H_Started | H_Wait_Started | H_Woken_Started mcmpst | H_Release_Started
  | H_Loop | H_Block_Loop | H_Clear_Working | H_Store_Idle "32 word" | H_On_Dispatch
  | H_Wait_Dispatch | H_Woken_Dispatch mcmpst
  | H_Set_Working | H_Store_Working "32 word" | H_Clear_On_Dispatch | H_Store_Dispatched "32 word" | H_Release_Dispatch
  | H_Nonempty | H_Take | H_Done

text \<open>The points of the owner: in the start, between start and destruction, in the destruction.\<close>

datatype owner_pc =
    O_Start | O_Store_Started "32 word" | O_Signal_Started | O_Idle
  | O_Close | O_Store_Closed "32 word" | O_Signal_Closed | O_Join | O_Freed

record dispatcher =
  ds_queue :: setqueue
  ds_flags :: "32 word"
  ds_locked :: bool
  ds_handler :: handler_pc
  ds_owner :: owner_pc
  ds_printed :: "nat list"

definition has :: "dispatcher \<Rightarrow> nat \<Rightarrow> bool ub" where
  "has s f = hasflag (ds_flags s) f"

text \<open>A wait gives the lock up and has it again when it returns, with the status that the tests after it see.\<close>

fun handler_at :: "(setqueue \<Rightarrow> bool) \<Rightarrow> handler_pc \<Rightarrow> dispatcher \<Rightarrow> dispatcher option" where
  "handler_at ne H_Block s = Some (s\<lparr>ds_locked := True, ds_handler := H_Started\<rparr>)"
| "handler_at ne H_Started s = do {
     started \<leftarrow> has s FLAG_STARTED;
     Some (if started then s\<lparr>ds_handler := H_Release_Started\<rparr> else s\<lparr>ds_handler := H_Wait_Started, ds_locked := False\<rparr>) }"
| "handler_at ne H_Wait_Started s = None"
| "handler_at ne (H_Woken_Started st) s = do {
     closed \<leftarrow> has s FLAG_CLOSURE;
     Some (if closed \<or> st \<noteq> MCMPST_SUCCESS then s\<lparr>ds_locked := False, ds_handler := H_Done\<rparr> else s\<lparr>ds_handler := H_Started\<rparr>) }"
| "handler_at ne H_Release_Started s = Some (s\<lparr>ds_locked := False, ds_handler := H_Loop\<rparr>)"
| "handler_at ne H_Loop s = do {
     closed \<leftarrow> has s FLAG_CLOSURE;
     Some (s\<lparr>ds_handler := if closed then H_Done else H_Block_Loop\<rparr>) }"
| "handler_at ne H_Block_Loop s = Some (s\<lparr>ds_locked := True, ds_handler := H_Clear_Working\<rparr>)"
| "handler_at ne H_Clear_Working s = do {
     w \<leftarrow> clearflag (ds_flags s) FLAG_WORKING; Some (s\<lparr>ds_handler := H_Store_Idle w\<rparr>) }"
| "handler_at ne (H_Store_Idle w) s = Some (s\<lparr>ds_flags := w, ds_handler := H_On_Dispatch\<rparr>)"
| "handler_at ne H_On_Dispatch s = do {
     on \<leftarrow> has s FLAG_ONDISPATCH;
     Some (if on then s\<lparr>ds_handler := H_Set_Working\<rparr> else s\<lparr>ds_handler := H_Wait_Dispatch, ds_locked := False\<rparr>) }"
| "handler_at ne H_Wait_Dispatch s = None"
| "handler_at ne (H_Woken_Dispatch st) s = do {
     closed \<leftarrow> has s FLAG_CLOSURE;
     Some (s\<lparr>ds_locked := False, ds_handler := if closed \<or> st \<noteq> MCMPST_SUCCESS then H_Done else H_Loop\<rparr>) }"
| "handler_at ne H_Set_Working s = do {
     w \<leftarrow> setflag (ds_flags s) FLAG_WORKING; Some (s\<lparr>ds_handler := H_Store_Working w\<rparr>) }"
| "handler_at ne (H_Store_Working w) s = Some (s\<lparr>ds_flags := w, ds_handler := H_Clear_On_Dispatch\<rparr>)"
| "handler_at ne H_Clear_On_Dispatch s = do {
     w \<leftarrow> clearflag (ds_flags s) FLAG_ONDISPATCH; Some (s\<lparr>ds_handler := H_Store_Dispatched w\<rparr>) }"
| "handler_at ne (H_Store_Dispatched w) s = Some (s\<lparr>ds_flags := w, ds_handler := H_Release_Dispatch\<rparr>)"
| "handler_at ne H_Release_Dispatch s = Some (s\<lparr>ds_locked := False, ds_handler := H_Nonempty\<rparr>)"
| "handler_at ne H_Nonempty s = do {
     closed \<leftarrow> has s FLAG_CLOSURE;
     Some (s\<lparr>ds_handler := if ne (ds_queue s) \<and> \<not> closed then H_Take else H_Loop\<rparr>) }"
| "handler_at ne H_Take s = do {
     (q, st, got) \<leftarrow> mcmpSetQueueTake (ds_queue s);
     (if st \<noteq> MCMPST_SUCCESS then Some (s\<lparr>ds_queue := q, ds_handler := H_Loop\<rparr>)
      else do { v \<leftarrow> got; Some (s\<lparr>ds_queue := q, ds_printed := ds_printed s @ [v], ds_handler := H_Nonempty\<rparr>) }) }"
| "handler_at ne H_Done s = None"

text \<open>A wait returns when it is signalled, or without a reason (status 0), or with an error.\<close>

definition wake :: "int \<Rightarrow> dispatcher \<Rightarrow> dispatcher option" where
  "wake status s =
     (let st = mcmchSignalLockWait status
      in case ds_handler s of
           H_Wait_Started \<Rightarrow> Some (s\<lparr>ds_locked := True, ds_handler := H_Woken_Started st\<rparr>)
         | H_Wait_Dispatch \<Rightarrow> Some (s\<lparr>ds_locked := True, ds_handler := H_Woken_Dispatch st\<rparr>)
         | _ \<Rightarrow> None)"

section \<open>The owner\<close>

text \<open>A signal wakes the handler when it waits and is lost otherwise.\<close>

definition signal :: "dispatcher \<Rightarrow> dispatcher" where
  "signal s = (case wake 0 s of Some s' \<Rightarrow> s' | None \<Rightarrow> s)"

fun owner_at :: "owner_pc \<Rightarrow> dispatcher \<Rightarrow> dispatcher option" where
  "owner_at O_Start s = do { w \<leftarrow> setflag (ds_flags s) FLAG_STARTED; Some (s\<lparr>ds_owner := O_Store_Started w\<rparr>) }"
| "owner_at (O_Store_Started w) s = Some (s\<lparr>ds_flags := w, ds_owner := O_Signal_Started\<rparr>)"
| "owner_at O_Signal_Started s = Some ((signal s)\<lparr>ds_owner := O_Idle\<rparr>)"
| "owner_at O_Idle s = Some (s\<lparr>ds_owner := O_Close\<rparr>)"
| "owner_at O_Close s = do { w \<leftarrow> setflag (ds_flags s) FLAG_CLOSURE; Some (s\<lparr>ds_owner := O_Store_Closed w\<rparr>) }"
| "owner_at (O_Store_Closed w) s = Some (s\<lparr>ds_flags := w, ds_owner := O_Signal_Closed\<rparr>)"
| "owner_at O_Signal_Closed s = Some ((signal s)\<lparr>ds_owner := O_Join\<rparr>)"
| "owner_at O_Join s = (if ds_handler s = H_Done then Some (s\<lparr>ds_owner := O_Freed\<rparr>) else None)"
| "owner_at O_Freed s = None"

text \<open>Who moves; any thread may also push onto the queue until it is freed.\<close>

datatype dispatcher_input = Handler | Owner | Wake int | Push_Task nat

definition dispatcher_step :: "(setqueue \<Rightarrow> bool) \<Rightarrow> dispatcher_input \<Rightarrow> dispatcher \<Rightarrow> dispatcher option" where
  "dispatcher_step ne inp s =
     (case inp of
        Handler \<Rightarrow> handler_at ne (ds_handler s) s
      | Owner \<Rightarrow> owner_at (ds_owner s) s
      | Wake status \<Rightarrow> wake status s
      | Push_Task v \<Rightarrow> if ds_owner s = O_Freed then None
          else do { (q, st) \<leftarrow> mcmpSetQueuePush (ds_queue s) v; Some (s\<lparr>ds_queue := q\<rparr>) })"

definition dispatcher_start :: "writer \<Rightarrow> dispatcher" where
  "dispatcher_start wr = \<lparr>ds_queue = wr_queue wr, ds_flags = wr_flags wr, ds_locked = False, ds_handler = H_Block,
     ds_owner = O_Start, ds_printed = []\<rparr>"

section \<open>What the two threads keep\<close>

fun handler_quiet :: "handler_pc \<Rightarrow> bool" where
  "handler_quiet (H_Store_Idle w) \<longleftrightarrow> \<not> bit w FLAG_ONDISPATCH"
| "handler_quiet H_Set_Working \<longleftrightarrow> False"
| "handler_quiet (H_Store_Working _) \<longleftrightarrow> False"
| "handler_quiet H_Clear_On_Dispatch \<longleftrightarrow> False"
| "handler_quiet (H_Store_Dispatched _) \<longleftrightarrow> False"
| "handler_quiet H_Release_Dispatch \<longleftrightarrow> False"
| "handler_quiet H_Nonempty \<longleftrightarrow> False"
| "handler_quiet H_Take \<longleftrightarrow> False"
| "handler_quiet _ \<longleftrightarrow> True"

fun owner_quiet :: "owner_pc \<Rightarrow> bool" where
  "owner_quiet (O_Store_Started w) \<longleftrightarrow> \<not> bit w FLAG_ONDISPATCH"
| "owner_quiet (O_Store_Closed w) \<longleftrightarrow> \<not> bit w FLAG_ONDISPATCH"
| "owner_quiet _ \<longleftrightarrow> True"

fun handler_locked :: "handler_pc \<Rightarrow> bool" where
  "handler_locked H_Block \<longleftrightarrow> False"
| "handler_locked H_Wait_Started \<longleftrightarrow> False"
| "handler_locked H_Loop \<longleftrightarrow> False"
| "handler_locked H_Block_Loop \<longleftrightarrow> False"
| "handler_locked H_Wait_Dispatch \<longleftrightarrow> False"
| "handler_locked H_Done \<longleftrightarrow> False"
| "handler_locked _ \<longleftrightarrow> True"

definition dispatcher_inv :: "dispatcher \<Rightarrow> bool" where
  "dispatcher_inv s \<longleftrightarrow> \<not> bit (ds_flags s) FLAG_ONDISPATCH \<and> handler_quiet (ds_handler s) \<and> owner_quiet (ds_owner s)
     \<and> ds_printed s = [] \<and> ds_locked s = handler_locked (ds_handler s)
     \<and> (ds_owner s = O_Freed \<longrightarrow> ds_handler s = H_Done)"

lemma setflag_keeps:
  "setflag w FLAG_STARTED = Some w' \<Longrightarrow> bit w' FLAG_ONDISPATCH = bit w FLAG_ONDISPATCH"
  "setflag w FLAG_CLOSURE = Some w' \<Longrightarrow> bit w' FLAG_ONDISPATCH = bit w FLAG_ONDISPATCH"
  using setflag_bit [of 0 w] setflag_bit [of 1 w] by (auto simp: flag_defs)

lemma clearflag_keeps: "clearflag w FLAG_WORKING = Some w' \<Longrightarrow> \<not> bit w FLAG_ONDISPATCH \<Longrightarrow> \<not> bit w' FLAG_ONDISPATCH"
  using clearflag_bit [of 3 w] by (auto simp: flag_defs)

lemma has_flag [simp]:
  "has s FLAG_STARTED = Some (bit (ds_flags s) FLAG_STARTED)" "has s FLAG_CLOSURE = Some (bit (ds_flags s) FLAG_CLOSURE)"
  "has s FLAG_ONDISPATCH = Some (bit (ds_flags s) FLAG_ONDISPATCH)"
  by (simp_all add: has_def hasflag_bit flag_defs)

lemma handler_at_keeps:
  assumes "handler_at ne p s = Some s'" "ds_handler s = p" "dispatcher_inv s"
  shows "dispatcher_inv s' \<and> ds_queue s' = ds_queue s"
  using assms
  by (cases p)
    (auto simp: dispatcher_inv_def dest: clearflag_keeps split: if_splits Option.bind_splits)

lemma wake_keeps: "wake status s = Some s' \<Longrightarrow> dispatcher_inv s \<Longrightarrow> dispatcher_inv s' \<and> ds_queue s' = ds_queue s \<and> ds_owner s' = ds_owner s"
  by (cases "ds_handler s") (auto simp: wake_def dispatcher_inv_def Let_def)

lemma signal_keeps: "dispatcher_inv s \<Longrightarrow> dispatcher_inv (signal s) \<and> ds_queue (signal s) = ds_queue s \<and> ds_owner (signal s) = ds_owner s"
  by (cases "wake 0 s") (simp_all add: signal_def wake_keeps)

lemma owner_moves:
  "dispatcher_inv s \<Longrightarrow> owner_quiet q \<Longrightarrow> q \<noteq> O_Freed \<or> ds_handler s = H_Done \<Longrightarrow> dispatcher_inv (s\<lparr>ds_owner := q\<rparr>)"
  "dispatcher_inv s \<Longrightarrow> \<not> bit w FLAG_ONDISPATCH \<Longrightarrow> dispatcher_inv (s\<lparr>ds_flags := w\<rparr>)"
  by (simp_all add: dispatcher_inv_def)

lemma owner_at_keeps:
  assumes "owner_at p s = Some s'" "ds_owner s = p" "dispatcher_inv s"
  shows "dispatcher_inv s' \<and> ds_queue s' = ds_queue s"
proof -
  have "\<not> bit (ds_flags s) FLAG_ONDISPATCH" "owner_quiet p" using assms(2,3) by (simp_all add: dispatcher_inv_def)
  then show ?thesis
    using assms(1,3) owner_moves(1) [of s] owner_moves(2) [OF assms(3)] signal_keeps [OF assms(3)] owner_moves(1) [of "signal s"]
    by (cases p) (auto simp: setflag_keeps owner_moves split: if_splits Option.bind_splits)
qed

definition pushed :: "dispatcher_input list \<Rightarrow> nat list" where
  "pushed inps = concat (map (\<lambda>i. case i of Push_Task v \<Rightarrow> [v] | _ \<Rightarrow> []) inps)"

definition push_all :: "nat list \<Rightarrow> setqueue \<Rightarrow> setqueue option" where
  "push_all = runs (\<lambda>v q. map_option fst (mcmpSetQueuePush q v))"

lemma dispatcher_step_keeps:
  assumes "dispatcher_step ne inp s = Some s'" "dispatcher_inv s"
  shows "dispatcher_inv s' \<and> push_all (pushed [inp]) (ds_queue s) = Some (ds_queue s')"
proof (cases inp)
  case Handler
  then show ?thesis using handler_at_keeps [OF _ refl assms(2), of ne s'] assms(1) by (simp add: dispatcher_step_def pushed_def push_all_def)
next
  case Owner
  then show ?thesis using owner_at_keeps [OF _ refl assms(2), of s'] assms(1) by (simp add: dispatcher_step_def pushed_def push_all_def)
next
  case (Wake status)
  then show ?thesis using wake_keeps [OF _ assms(2), of status s'] assms(1) by (simp add: dispatcher_step_def pushed_def push_all_def)
next
  case (Push_Task v)
  then show ?thesis using assms
    by (auto simp: dispatcher_step_def pushed_def push_all_def dispatcher_inv_def split: if_splits Option.bind_splits)
qed

interpretation di: machine "dispatcher_step ne" dispatcher_inv for ne
  by unfold_locales (use dispatcher_step_keeps in blast)

lemma runs_pushed:
  "runs (dispatcher_step ne) inps s = Some s' \<Longrightarrow> dispatcher_inv s \<Longrightarrow> push_all (pushed inps) (ds_queue s) = Some (ds_queue s')"
proof (induction inps arbitrary: s)
  case Nil
  then show ?case by (simp add: pushed_def push_all_def)
next
  case (Cons inp inps)
  then obtain t where t: "dispatcher_step ne inp s = Some t" "runs (dispatcher_step ne) inps t = Some s'"
    by (auto split: Option.bind_splits)
  have "pushed (inp # inps) = pushed [inp] @ pushed inps" by (simp add: pushed_def)
  then show ?case
    using dispatcher_step_keeps [OF t(1) Cons.prems(2)] Cons.IH [OF t(2)] by (simp add: push_all_def runs_append)
qed

section \<open>Properties\<close>

text \<open>
  The creation of a dispatcher releases what it acquired on every path that fails, each once and in the reverse
  order, and holds exactly the instance, the queue, the lock and the thread when it succeeds, which
  are what the destruction releases.
\<close>
lemma dispatcher_create_balanced:
  assumes "mcmchDispatcherCreateWriterInstance malloc_ok queue_ok junk lock_st routine_st bitslen = Some (evs, wr)"
  shows "holding evs {} = Some (if wr = None then {} else {Instance, Queue, Lock, Thread})
    \<and> (wr \<noteq> None \<longrightarrow> holding (evs @ destroy_releases) {} = Some {})"
  using assms
  by (auto simp: mcmchDispatcherCreateWriterInstance_def destroy_releases_def split: if_splits Option.bind_splits sum.splits)

lemma created_writer:
  assumes "mcmchDispatcherCreateWriterInstance malloc_ok queue_ok junk lock_st routine_st bitslen = Some (evs, Some wr)"
  shows "dispatcher_inv (dispatcher_start wr)"
  using assms
  by (auto simp: mcmchDispatcherCreateWriterInstance_def dispatcher_start_def dispatcher_inv_def
      split: if_splits Option.bind_splits sum.splits)

text \<open>
  C24: A dispatcher never dispatches: in every interleaving of the handler, its owner and threads that push, whatever the waits
  return, no value is taken from the queue, which is what the pushes alone make of it. And it is freed only
  after the handler has ended, with the lock free.
\<close>
theorem dispatcher_never_dispatches:
  assumes "mcmchDispatcherCreateWriterInstance malloc_ok queue_ok junk lock_st routine_st bitslen = Some (evs, Some wr)"
    and "runs (dispatcher_step ne) inps (dispatcher_start wr) = Some s"
  shows "ds_printed s = [] \<and> push_all (pushed inps) (wr_queue wr) = Some (ds_queue s)
    \<and> (ds_owner s = O_Freed \<longrightarrow> ds_handler s = H_Done \<and> \<not> ds_locked s)"
proof -
  note start = created_writer [OF assms(1)]
  have "dispatcher_inv s" by (rule di.runs_inv [OF start assms(2)])
  moreover have "push_all (pushed inps) (wr_queue wr) = Some (ds_queue s)"
    using runs_pushed [OF assms(2) start] by (simp add: dispatcher_start_def)
  ultimately show ?thesis by (auto simp: dispatcher_inv_def)
qed

definition lost_close :: "dispatcher_input list" where
  "lost_close = [Owner, Owner] @ replicate 6 Handler @ [Owner, Owner, Owner, Owner, Handler, Owner, Handler]"

definition spurious_round :: "dispatcher_input list" where
  "spurious_round = [Wake 0] @ replicate 6 Handler"

text \<open>
  The request to close can be lost, for the owner writes the flags without the lock: when it sets the flag
  between the read and the write with which the handler clears another one, the handler waits, the owner waits for the handler, the
  flag is clear, and a wait that returns without a reason leads back to the same state.
\<close>
lemma dispatcher_close_lost:
  "\<exists>s. runs (dispatcher_step ne) lost_close (dispatcher_start \<lparr>wr_queue = q, wr_flags = 0\<rparr>) = Some s
     \<and> ds_owner s = O_Join \<and> ds_handler s = H_Wait_Dispatch \<and> \<not> bit (ds_flags s) FLAG_CLOSURE
     \<and> dispatcher_step ne Handler s = None \<and> dispatcher_step ne Owner s = None
     \<and> runs (dispatcher_step ne) spurious_round s = Some s"
  by (simp add: lost_close_def spurious_round_def eval_nat_numeral dispatcher_step_def dispatcher_start_def flag_defs
      setflag_def clearflag_def has_def hasflag_def c_shl1_def wake_def signal_def mcmchSignalLockWait_def)

abbreviation sample_creation :: "nat \<Rightarrow> mcmpst \<Rightarrow> (res_event list \<times> writer option) ub" where
  "sample_creation len lock_st \<equiv>
     mcmchDispatcherCreateWriterInstance True (\<lambda>bytes. bytes \<le> 4096) (\<lambda>_. 77) lock_st MCMPST_SUCCESS len"

lemma dispatcher_create_balanced_witness:
  "\<exists>evs. sample_creation 4 MCMPST_SPECIFIC = Some (evs, None) \<and> length evs = 4 \<and> holding evs {} = Some {}"
proof -
  obtain evs where evs: "sample_creation 4 MCMPST_SPECIFIC = Some (evs, None)" "length evs = 4"
    by (simp add: mcmchDispatcherCreateWriterInstance_def mcmpSetQueueCreate_def)
  then show ?thesis using dispatcher_create_balanced [OF evs(1)] by simp
qed

definition full_life :: "dispatcher_input list" where
  "full_life = [Push_Task 2, Owner, Owner, Owner, Owner, Owner, Owner, Owner, Handler, Handler, Handler, Handler, Owner]"

theorem dispatcher_never_dispatches_witness:
  "\<exists>evs wr s. sample_creation 4 MCMPST_SUCCESS = Some (evs, Some wr)
     \<and> runs (dispatcher_step (\<lambda>q. sq_head q \<noteq> sq_tail q)) full_life (dispatcher_start wr) = Some s
     \<and> ds_printed s = [] \<and> ds_owner s = O_Freed \<and> ds_handler s = H_Done \<and> \<not> ds_locked s"
proof -
  obtain q where q: "mcmpSetQueueCreate (\<lambda>bytes. bytes \<le> 4096) (\<lambda>_. 77) 4 = Some (Inr q)" "sq_inv q" "sq_view q = []" "sq_length q = 4"
    using sq_fresh [of 4 "\<lambda>bytes. bytes \<le> 4096" "\<lambda>_. 77"] by auto
  then have wr: "sample_creation 4 MCMPST_SUCCESS =
      Some ([Acquire Instance, Acquire Queue, Acquire Lock, Acquire Thread], Some \<lparr>wr_queue = q, wr_flags = 0\<rparr>)" (is "_ = Some (?evs, Some ?wr)")
    by (simp add: mcmchDispatcherCreateWriterInstance_def)
  obtain q' where q': "mcmpSetQueuePush q 2 = Some (q', MCMPST_SUCCESS)"
    using sq_push_ok(1) [OF q(2), of 2] q(3,4) by (simp add: sq_accepts_def)
  have "\<exists>s. runs (dispatcher_step (\<lambda>q. sq_head q \<noteq> sq_tail q)) full_life (dispatcher_start ?wr) = Some s \<and> ds_owner s = O_Freed"
    by (simp add: full_life_def dispatcher_step_def dispatcher_start_def flag_defs q'
        setflag_def clearflag_def has_def hasflag_def c_shl1_def wake_def signal_def)
  then obtain s where "runs (dispatcher_step (\<lambda>q. sq_head q \<noteq> sq_tail q)) full_life (dispatcher_start ?wr) = Some s" "ds_owner s = O_Freed"
    by blast
  then show ?thesis using dispatcher_never_dispatches [OF wr] wr by blast
qed

end
