(* ===== verification/Heartbeat_Routine.thy ===== *)
theory Heartbeat_Routine
  imports Heartbeat Monitor_System Routine
begin

text \<open>
  How a heartbeat is driven (\<^verbatim>\<open>server/src/common/heartbeat.c\<close>): by a ping of its monitor, or by a signal routine whose
  handler runs the call and gives the lock back. The routine of \<open>Routine\<close> is run here with that handler and
  with the calls that the handler itself makes on the lock. The table that the handler reads at the
  address of the broadcast is an argument.
\<close>

unbundle bit_operations_syntax

text \<open>A monitor that was not started has no thread to signal: the systems are a map.\<close>

definition mcmchHeartbeatBeat :: "heartbeat \<Rightarrow> (nat \<rightharpoonup> mon_sys) \<Rightarrow> ((nat \<rightharpoonup> mon_sys) \<times> mcmpst) ub" where
  "mcmchHeartbeatBeat hb ms = do {
     m \<leftarrow> hb_monitor hb;
     s \<leftarrow> ms m;
     (case mcmchMonitorPing s of (s', st) \<Rightarrow> Some (ms(m \<mapsto> s'), st)) }"



section \<open>A signal routine with its handler\<close>




text \<open>Whether a client misses one of \<open>n\<close> beats: it gives no sign of life before it and, for the first, was not alive.\<close>

definition misses :: "('c \<Rightarrow> bool) \<Rightarrow> (nat \<Rightarrow> nat set) \<Rightarrow> nat \<Rightarrow> nat \<Rightarrow> 'c client_table \<Rightarrow> nat \<Rightarrow> bool" where
  "misses alive A i n cb k \<longleftrightarrow> (\<exists>j < n. k \<notin> A (i + j) \<and> (j = 0 \<longrightarrow> \<not> alive (cb_clients cb ! k)))"

lemma misses_0 [simp]: "\<not> misses alive A i 0 cb k"
  by (simp add: misses_def)






section \<open>Property\<close>




end
