(* ===== verification/Spec2Isabelle.thy ===== *)
theory Spec2Isabelle
  imports Bit_Lock Set_Queue_Conc Set_Queue_Types Set_Queue_Test Chunked_Types Chunked_Runs Lock_Registry Heartbeat Broadcast Stress_Test
    Monitor_System Handshake Time_Stamp Server_Program
    Consumer_Stop Pool_Shutdown Dispatcher Heartbeat_Routine
begin

text \<open>
  Verification library of the Monarch message server (mcmp), a C program of four libraries and a command line program:
  \<^verbatim>\<open>utilities\<close> (bitmaps and queues shared between threads), \<^verbatim>\<open>routines\<close> (locks, monitors, workers, consumers
  and pools of threads), \<^verbatim>\<open>server\<close> (clients, heartbeat, datagrams, sockets, dispatcher), the core under \<^verbatim>\<open>src\<close> and
  \<^verbatim>\<open>include\<close> (status codes, environment, log) and \<^verbatim>\<open>cli\<close> (the server program). All paths below are relative to the repository's
  root. The definitions follow the code function by function, under the code's names where Isabelle allows them; the
  sources spell one prefix \<^verbatim>\<open>mcmp\<close>, \<^verbatim>\<open>mcmch\<close> or \<^verbatim>\<open>monarch\<close> and the models take the two for the same name.

  Conventions. A result of type \<open>'a ub\<close> is \<open>None\<close> when the C code has undefined behaviour: an access outside its object, a shift by
  too much, a division by zero, an overflow of a signed type. Bytes, flags, counters and loaded words are machine words; sizes are natural numbers with the
  reduction modulo \<open>2 ^ 64\<close> (\<open>size_max\<close>) written out where the code computes on \<^verbatim>\<open>size_t\<close>; indices of bits are integers (\<^verbatim>\<open>int64_t\<close>) cast
  explicitly. A block that \<^verbatim>\<open>malloc\<close> returns is a record of its parts, whether it is granted and what it held before
  are parameters. Statuses are values of \<open>mcmpst\<close>, a function that returns a pointer and a status returns a sum. Operations that other
  threads can interrupt are step machines, one step for each access to shared memory, executed alone by \<open>run_call\<close> and
  interleaved by a step relation or by a list of inputs; memory is sequentially consistent. Mutexes and condition variables behave as POSIX documents them. What the operating system answers (signals,
  waits, clocks, sockets, descriptors) is an input, and calls to it are recorded when a property speaks of them.

  Theories and sources.

  Shared: \<open>Mcmp_Prelude\<close> (integers, checked memory, rings, execution of a call), \<open>Status\<close> (\<^verbatim>\<open>include/mcmp/stat.h\<close> and the last status of a thread, flag macros of
  \<^verbatim>\<open>include/mcmp/mcmp.h\<close>), \<open>Transition\<close> and \<open>Machine\<close> (reachable states and runs, with the locales \<open>invariant_system\<close>,
  \<open>live_system\<close> and \<open>machine\<close>), \<open>Typed_Calls\<close> (threads that call the operations of one object: what a judgement on the points of a call gives in
  all interleavings, locale \<open>typed_calls\<close>), \<open>Sweep\<close> (loops over the bits of a bitmap, locale \<open>sweeping\<close>), \<open>Ring_Fifo\<close> (the contract of a
  bounded queue, locale \<open>bounded_fifo\<close>), \<open>Slot_Array\<close> (the contract of slots handed out through a bitmap, locale \<open>slot_array\<close>). Every
  locale is interpreted on the models of the components that provide it.

  Utilities: \<open>Bitmap\<close> (\<^verbatim>\<open>utilities/src/common/bitmap.c\<close>; the searches by words equal the linear search), \<open>Atomic_Bitmap\<close>
  (\<^verbatim>\<open>atomicbitmap.c\<close>; the searches under interference answer from values that were there) and \<open>Bit_Lock\<close> (threads that use its bits as locks: mutual
  exclusion, no thread gets stuck), \<open>Set_Queue\<close> (\<^verbatim>\<open>setqueue.c\<close>; every branch of a call, refinement of a list) and \<open>Set_Queue_Conc\<close> (the
  same machines interleaved: a channel for one producer and one consumer, and schedules that break it with two), \<open>Set_Queue_Types\<close> (any
  number of threads: no access is undefined, no junk is read, every call returns one of its statuses), \<open>Set_Queue_Test\<close> (what
  \<^verbatim>\<open>utilities/test/test_setqueue.c\<close> prints), \<open>Chunked_Queue\<close> (\<^verbatim>\<open>chunkedqueue.c\<close>),
  \<open>Chunked_Types\<close> (any number of threads on its chunks: no access is undefined), \<open>Chunked_Runs\<close> (calls on all chunks refine an array of bounded lists; the calls of
  \<^verbatim>\<open>cli/src/linux/test.c\<close>), \<open>Ring_Queue\<close> (\<^verbatim>\<open>queue.c\<close>).

  Routines: \<open>Lock_Registry\<close> (\<^verbatim>\<open>routines/src/linux/lock.c\<close>: its slots, and its locks as mutexes), \<open>Monitor\<close> (\<^verbatim>\<open>monitor.c\<close>: table, thread, spin lock) and \<open>Monitor_System\<close> (a started
  monitor's thread, its pings and its destruction interleaved: no ping is lost, the destruction ends and has the effect of the one in one step), \<open>Worker\<close> (\<^verbatim>\<open>worker.c\<close>: the beat that
  hands out tasks, the cleanup, start and destruction) and \<open>Worker_System\<close> (pushes, beats and worker monitors interleaved: no task is lost, one
  can be run twice), \<open>Stress_Test\<close> (\<^verbatim>\<open>cli/src/linux/test3.c\<close>: a main thread added to that system), \<open>Routine\<close> (\<^verbatim>\<open>routine.c\<close>: threads,
  signal routines and deadlines, and how an interruption ends them), \<open>Signal_Lock\<close> (\<^verbatim>\<open>routine.c\<close>: a signal lock as a mutex and a condition variable, with the
  threads that own it, sleep on it and have been woken), \<open>Consumer\<close> (\<^verbatim>\<open>routines/src/common/consumer.c\<close>, both loops),
  \<open>Consumer_Group\<close> (consumers that share a signal lock and a queue, with the threads that push, signal and stop: locale \<open>consumer_group\<close>, on the contract
  \<open>bounded_fifo\<close>) and \<open>Consumer_Stop\<close> (the same on the set queue: tasks go to one consumer each and in order, from every state a stopped consumer can be
  brought to its end, and a schedule in which a signal is lost),
  \<open>Pool\<close> (\<^verbatim>\<open>pool.c\<close> of both directories: the threads of a pool interleaved with its start and destruction) and
  \<open>Pool_Shutdown\<close> (both end within a bounded number of steps, and no wake-up is lost once the routines have returned).

  Server: \<open>Client_Table\<close> (\<^verbatim>\<open>server/src/common/clients.c\<close>, \<^verbatim>\<open>server/src/linux/clients.c\<close>, with the system calls of a close), \<open>Heartbeat\<close> (\<^verbatim>\<open>heartbeat.c\<close>, on the
  client table and the monitors) and \<open>Heartbeat_Routine\<close> (its handler run by a signal routine: after any number of beats the clients that missed one are
  marked, and the handler gives back the lock that the routine took), \<open>Broadcast\<close> (\<^verbatim>\<open>server/src/linux/broadcast.c\<close>), \<open>Datagram\<close> (\<^verbatim>\<open>server.c\<close> of both directories and
  \<^verbatim>\<open>include/mcmp/protocol.h\<close>), \<open>Handshake\<close> (the handshake of \<^verbatim>\<open>server/src/linux/server.c\<close>, over the functions of libsodium), \<open>Dispatcher\<close> (\<^verbatim>\<open>dispatcher.c\<close>, on the set queue).

  Core and program: \<open>Environment\<close> (\<^verbatim>\<open>mcmp.c\<close> and \<^verbatim>\<open>log.c\<close> of \<^verbatim>\<open>src/common\<close> and \<^verbatim>\<open>src/linux\<close>), \<open>Time_Stamp\<close> (\<^verbatim>\<open>src/linux/utilities.c\<close>: the time on a log line, its order and its length), \<open>Server_Main\<close> (\<^verbatim>\<open>cli/src/linux/main.c\<close>: the loop
  over the datagram model, the beat on every 150th wait, creation and teardown) and \<open>Server_Program\<close> (its \<^verbatim>\<open>main\<close> and its signal handler).

  Lemmas. Each component theory proves first how its operations act on well-formed states (the \<open>_wf\<close>, \<open>_ok\<close> and \<open>_inv\<close> predicates, kept by every
  operation), then interprets the locales with those facts, and states its properties over the operations themselves. A claim that
  code is wrong in some situation is a theorem about a concrete schedule or input.

  Fuel and bounds. \<open>run_call\<close> is a \<open>partial_function\<close>, so that a call that does not return would be \<open>None\<close>; the properties of calls state that they
  return. The retry loops of the locks, the workers and the spin lock have the bounds of the code (100, 10 and the caller's attempts) and their
  termination is by those. Loops over bits end because the next bit is behind the last one. Runs of machines are finite lists, and what is proved holds
  for all of them. Lengths are bounded where sizes must not wrap around (\<open>2 ^ 58\<close> to \<open>2 ^ 63\<close>).

  Not modelled. Freeing a block, and the functions that do nothing else; reading a clock, whose answer is an input; the lines that the libraries and the server print. The cryptography of libsodium, which is a
  parameter, and \<^verbatim>\<open>localtime\<close>, which depends on the machine's time zone and is one too. Weaker memory orders than sequential consistency. Declarations
  without code (\<^verbatim>\<open>include/mcmp/proto.h\<close>, \<^verbatim>\<open>server/src/linux/protocol.c\<close>). Of the stress test \<^verbatim>\<open>cli/src/linux/test3.c\<close>, its sleeping and what
  follows the destruction of the worker. Three more test programs: one that times the searches of a bitmap, one that calls functions that do not exist, one whose body is commented out. Macros and functions that the sources use and the repository does not define (the client
  type, the codes of the protocol under their old names, \<^verbatim>\<open>mcmchRoutineCreate\<close>) are parameters.
\<close>

end
